(* ===== verification/Prelude.thy ===== *)
theory Prelude
  imports Main "HOL-Library.Word"
begin

text \<open>
  Shared vocabulary of the development.

  \<^item> Bytes are \<open>8 word\<close>; a C array or a vector is the list of its elements, and a pointer
    into it is the list together with an index. Loads and stores check the index: an access
    outside the array is the value \<open>UB\<close>, never an unspecified list element.
  \<^item> A call that can throw returns \<open>stop + 'a\<close>. \<open>Throw\<close> is a C++ exception, which a
    \<^verbatim>\<open>catch\<close> can handle; \<open>UB\<close> is undefined behaviour, which nothing handles;
    \<open>Starved\<close> says that the finite script of answers of the environment (kernel calls,
    signals) ended before the code returned; \<open>Terminate\<close> is \<^verbatim>\<open>std::terminate\<close>.
  \<^item> A stateful call is an action \<open>'s \<Rightarrow> (stop + 'a) \<times> 's\<close>: the state survives a throw, as
    the object does in C++.
\<close>

unbundle bit_operations_syntax

named_theorems action_simps \<open>equations that execute actions and results\<close>
named_theorems kept \<open>facts of the form: this action keeps that part of the state\<close>

section \<open>Bytes, errors and results\<close>

type_synonym byte = "8 word"
type_synonym size_t = "64 word"

text \<open>The values of \<^verbatim>\<open>errno\<close> the code distinguishes (on Linux \<^verbatim>\<open>EWOULDBLOCK\<close> is
  \<^verbatim>\<open>EAGAIN\<close>); every other value is \<open>E_OTHER\<close>.\<close>

datatype errno = EINTR | EAGAIN | E_OTHER nat

text \<open>The exceptions the framework declares for its applications (\<^verbatim>\<open>socks_tcp_error.hpp\<close>): its own code throws
  none of them, a handler may.\<close>

datatype ws_exception = WSException string | NotImplementedException string | ResourceException string

fun what :: "ws_exception \<Rightarrow> string" where
  "what (WSException msg) = msg"
| "what (NotImplementedException msg) = msg"
| "what (ResourceException msg) = msg"

text \<open>All exceptions are a \<^verbatim>\<open>std::exception\<close>.\<close>

datatype exn =
    Framework ws_exception
  | Invalid_Argument string
  | Runtime_Error string
  | Errno_Error errno  \<comment> \<open>\<^verbatim>\<open>std::runtime_error(strerror(errno))\<close>\<close>
  | Option_Error errno  \<comment> \<open>\<^verbatim>\<open>std::runtime_error("Could not set socket options: " + strerror(errno))\<close>\<close>
  | Out_Of_Range
  | Length_Error
  | Bad_Alloc

datatype ub = Read_Out_Of_Bounds | Write_Out_Of_Bounds | Dangling_Pointer

datatype stop = Throw exn | UB ub | Starved | Terminate

type_synonym 'a res = "stop + 'a"

definition bindR :: "'e + 'a \<Rightarrow> ('a \<Rightarrow> 'e + 'b) \<Rightarrow> 'e + 'b" where
  "bindR m f = (case m of Inl e \<Rightarrow> Inl e | Inr x \<Rightarrow> f x)"

lemma bindR_simps [simp, action_simps]:
  "bindR (Inl e) f = Inl e"
  "bindR (Inr x) f = f x"
  by (simp_all add: bindR_def)

lemma bindR_Inr_right [simp]: "bindR m Inr = m"
  by (cases m) simp_all

lemma bindR_assoc: "bindR (bindR m f) g = bindR m (\<lambda>x. bindR (f x) g)"
  by (cases m) simp_all

lemma bindR_eq_Inr: "bindR m f = Inr y \<longleftrightarrow> (\<exists>x. m = Inr x \<and> f x = Inr y)"
  by (cases m) simp_all

lemma bindR_cong [fundef_cong]:
  "m = m' \<Longrightarrow> (\<And>x. m' = Inr x \<Longrightarrow> f x = f' x) \<Longrightarrow> bindR m f = bindR m' f'"
  by (cases m') simp_all

section \<open>Actions: state and exceptions\<close>

type_synonym ('s, 'a) act = "'s \<Rightarrow> (stop + 'a) \<times> 's"

definition retA :: "'a \<Rightarrow> ('s, 'a) act" where
  "retA x = (\<lambda>s. (Inr x, s))"

definition failA :: "stop \<Rightarrow> ('s, 'a) act" where
  "failA e = (\<lambda>s. (Inl e, s))"

definition liftR :: "'a res \<Rightarrow> ('s, 'a) act" where
  "liftR r = (\<lambda>s. (r, s))"

definition bindA :: "('s, 'a) act \<Rightarrow> ('a \<Rightarrow> ('s, 'b) act) \<Rightarrow> ('s, 'b) act" where
  "bindA m f = (\<lambda>s. case m s of (Inl e, s') \<Rightarrow> (Inl e, s') | (Inr x, s') \<Rightarrow> f x s')"

definition thenA :: "('s, 'a) act \<Rightarrow> ('s, 'b) act \<Rightarrow> ('s, 'b) act" where
  "thenA m k = bindA m (\<lambda>_. k)"

text \<open>\<^verbatim>\<open>try { m } catch (std::exception& e) { h(e) }\<close>; the second form is a
  \<^verbatim>\<open>catch\<close> clause that only matches some exceptions.\<close>

definition tryA :: "('s, 'a) act \<Rightarrow> (exn \<Rightarrow> ('s, 'a) act) \<Rightarrow> ('s, 'a) act" where
  "tryA m h = (\<lambda>s. case m s of (Inl (Throw e), s') \<Rightarrow> h e s' | r \<Rightarrow> r)"

definition try_onlyA ::
  "(exn \<Rightarrow> bool) \<Rightarrow> ('s, 'a) act \<Rightarrow> (exn \<Rightarrow> ('s, 'a) act) \<Rightarrow> ('s, 'a) act"
where
  "try_onlyA p m h = tryA m (\<lambda>e. if p e then h e else failA (Throw e))"

definition getA :: "('s \<Rightarrow> 'a) \<Rightarrow> ('s, 'a) act" where
  "getA f = (\<lambda>s. (Inr (f s), s))"

definition modA :: "('s \<Rightarrow> 's) \<Rightarrow> ('s, unit) act" where
  "modA f = (\<lambda>s. (Inr (), f s))"

lemma retA_app [simp, action_simps]: "retA x s = (Inr x, s)"
  by (simp add: retA_def)

lemma failA_app [simp, action_simps]: "failA e s = (Inl e, s)"
  by (simp add: failA_def)

lemma liftR_app [simp, action_simps]: "liftR r s = (r, s)"
  by (simp add: liftR_def)

lemma getA_app [simp, action_simps]: "getA f s = (Inr (f s), s)"
  by (simp add: getA_def)

lemma modA_app [simp, action_simps]: "modA f s = (Inr (), f s)"
  by (simp add: modA_def)

lemma bindA_app:
  "bindA m f s = (case m s of (Inl e, s') \<Rightarrow> (Inl e, s') | (Inr x, s') \<Rightarrow> f x s')"
  by (simp add: bindA_def)

lemma thenA_app:
  "thenA m k s = (case m s of (Inl e, s') \<Rightarrow> (Inl e, s') | (Inr _, s') \<Rightarrow> k s')"
  by (simp add: thenA_def bindA_app)

lemma bindA_Inr: "m s = (Inr x, s') \<Longrightarrow> bindA m f s = f x s'"
  by (simp add: bindA_app)

lemma bindA_Inl: "m s = (Inl e, s') \<Longrightarrow> bindA m f s = (Inl e, s')"
  by (simp add: bindA_app)

lemma thenA_Inr: "m s = (Inr x, s') \<Longrightarrow> thenA m k s = k s'"
  by (simp add: thenA_app)

lemma thenA_Inl: "m s = (Inl e, s') \<Longrightarrow> thenA m k s = (Inl e, s')"
  by (simp add: thenA_app)

lemma bindA_simps [simp, action_simps]:
  "bindA (retA x) f = f x"
  "bindA (failA e) f = failA e"
  "bindA (liftR (Inr x)) f = f x"
  "bindA (liftR (Inl e)) f = failA e"
  "bindA (getA g) f s = f (g s) s"
  "bindA (modA u) h s = h () (u s)"
  by (simp_all add: bindA_def fun_eq_iff)

lemma thenA_simps [simp, action_simps]:
  "thenA (retA x) k = k"
  "thenA (failA e) k = failA e"
  "thenA (modA u) k s = k (u s)"
  by (simp_all add: thenA_def)

lemma bindA_assoc: "bindA (bindA m f) g = bindA m (\<lambda>x. bindA (f x) g)"
  by (auto simp: bindA_def fun_eq_iff split: prod.split sum.split)

lemma thenA_assoc: "thenA (thenA m k) l = thenA m (thenA k l)"
  by (simp add: thenA_def bindA_assoc)

lemma bindA_eq_Inr:
  "bindA m f s = (Inr y, s'') \<longleftrightarrow> (\<exists>x s'. m s = (Inr x, s') \<and> f x s' = (Inr y, s''))"
  by (auto simp: bindA_app split: prod.split sum.split)

lemma thenA_eq_Inr:
  "thenA m k s = (Inr y, s'') \<longleftrightarrow> (\<exists>x s'. m s = (Inr x, s') \<and> k s' = (Inr y, s''))"
  by (simp add: thenA_def bindA_eq_Inr)

lemma tryA_Inr: "m s = (Inr x, s') \<Longrightarrow> tryA m h s = (Inr x, s')"
  by (simp add: tryA_def)

lemma tryA_Throw: "m s = (Inl (Throw e), s') \<Longrightarrow> tryA m h s = h e s'"
  by (simp add: tryA_def)

lemma try_onlyA_Inr: "m s = (Inr x, s') \<Longrightarrow> try_onlyA p m h s = (Inr x, s')"
  by (simp add: try_onlyA_def tryA_Inr)

lemma try_onlyA_Throw:
  "m s = (Inl (Throw e), s') \<Longrightarrow> try_onlyA p m h s = (if p e then h e s' else (Inl (Throw e), s'))"
  by (simp add: try_onlyA_def tryA_Throw)

section \<open>What an action keeps\<close>

text \<open>\<open>keeps P m\<close>: whatever the outcome of \<open>m\<close>, a state with \<open>P\<close> leads to a state with \<open>P\<close>.
  Invariants of loops and handlers are proved by composing these.\<close>

definition keeps :: "('s \<Rightarrow> bool) \<Rightarrow> ('s, 'a) act \<Rightarrow> bool" where
  "keeps P m \<longleftrightarrow> (\<forall>s. P s \<longrightarrow> P (snd (m s)))"

lemma keepsI [intro?]: "(\<And>s. P s \<Longrightarrow> P (snd (m s))) \<Longrightarrow> keeps P m"
  by (simp add: keeps_def)

lemma keepsD: "keeps P m \<Longrightarrow> P s \<Longrightarrow> m s = (r, s') \<Longrightarrow> P s'"
  by (metis keeps_def snd_conv)

lemma keeps_snd: "keeps P m \<Longrightarrow> P s \<Longrightarrow> P (snd (m s))"
  by (simp add: keeps_def)

lemma keeps_retA [simp, kept]: "keeps P (retA x)"
  by (simp add: keeps_def)

lemma keeps_failA [simp, kept]: "keeps P (failA e)"
  by (simp add: keeps_def)

lemma keeps_liftR [simp, kept]: "keeps P (liftR r)"
  by (simp add: keeps_def)

lemma keeps_getA [simp, kept]: "keeps P (getA f)"
  by (simp add: keeps_def)

lemma keeps_modA: "(\<And>s. P s \<Longrightarrow> P (u s)) \<Longrightarrow> keeps P (modA u)"
  by (simp add: keeps_def)

lemma keeps_bindA [kept]: "keeps P m \<Longrightarrow> (\<And>x. keeps P (f x)) \<Longrightarrow> keeps P (bindA m f)"
  by (auto simp: keeps_def bindA_app split: prod.split sum.split)

lemma keeps_thenA [kept]: "keeps P m \<Longrightarrow> keeps P k \<Longrightarrow> keeps P (thenA m k)"
  by (simp add: thenA_def keeps_bindA)

lemma keeps_tryA [kept]: "keeps P m \<Longrightarrow> (\<And>e. keeps P (h e)) \<Longrightarrow> keeps P (tryA m h)"
  by (auto simp: keeps_def tryA_def split: prod.split sum.split stop.split)

lemma keeps_try_onlyA [kept]:
  "keeps P m \<Longrightarrow> (\<And>e. keeps P (h e)) \<Longrightarrow> keeps P (try_onlyA p m h)"
  by (simp add: try_onlyA_def keeps_tryA)

lemma keeps_if [kept]: "keeps P m \<Longrightarrow> keeps P k \<Longrightarrow> keeps P (if b then m else k)"
  by simp

section \<open>Arrays\<close>

definition load :: "'a list \<Rightarrow> nat \<Rightarrow> 'a res" where
  "load a i = (if i < length a then Inr (a ! i) else Inl (UB Read_Out_Of_Bounds))"

definition store :: "'a list \<Rightarrow> nat \<Rightarrow> 'a \<Rightarrow> 'a list res" where
  "store a i x = (if i < length a then Inr (a[i := x]) else Inl (UB Write_Out_Of_Bounds))"

text \<open>\<^verbatim>\<open>std::memcpy(dst + i, src + j, n)\<close>: both ranges must lie inside their arrays.\<close>

definition memcpy :: "'a list \<Rightarrow> nat \<Rightarrow> 'a list \<Rightarrow> nat \<Rightarrow> nat \<Rightarrow> 'a list res" where
  "memcpy dst i src j n =
     (if length src < j + n then Inl (UB Read_Out_Of_Bounds)
      else if length dst < i + n then Inl (UB Write_Out_Of_Bounds)
      else Inr (take i dst @ take n (drop j src) @ drop (i + n) dst))"

text \<open>The \<open>n\<close> elements behind a pointer, as a function that takes pointer and length reads them.\<close>

definition region :: "'a list \<Rightarrow> nat \<Rightarrow> 'a list res" where
  "region a n = (if n \<le> length a then Inr (take n a) else Inl (UB Read_Out_Of_Bounds))"

lemma region_in [simp]: "n \<le> length a \<Longrightarrow> region a n = Inr (take n a)"
  by (simp add: region_def)

text \<open>\<^verbatim>\<open>std::vector<T>::resize(n)\<close> without the allocation: cut or pad with zeros.\<close>

definition resized :: "'a::zero list \<Rightarrow> nat \<Rightarrow> 'a list" where
  "resized a n = take n a @ replicate (n - length a) 0"

lemma length_resized [simp]: "length (resized a n) = n"
  by (simp add: resized_def)

lemma resized_grow: "length a \<le> n \<Longrightarrow> resized a n = a @ replicate (n - length a) 0"
  by (simp add: resized_def)

lemma load_in [simp]: "i < length a \<Longrightarrow> load a i = Inr (a ! i)"
  by (simp add: load_def)

lemma load_out: "length a \<le> i \<Longrightarrow> load a i = Inl (UB Read_Out_Of_Bounds)"
  by (simp add: load_def)

lemma store_in [simp]: "i < length a \<Longrightarrow> store a i x = Inr (a[i := x])"
  by (simp add: store_def)

lemma store_out: "length a \<le> i \<Longrightarrow> store a i x = Inl (UB Write_Out_Of_Bounds)"
  by (simp add: store_def)

lemma memcpy_in:
  "j + n \<le> length src \<Longrightarrow> i + n \<le> length dst \<Longrightarrow>
   memcpy dst i src j n = Inr (take i dst @ take n (drop j src) @ drop (i + n) dst)"
  by (simp add: memcpy_def)

lemma length_memcpy: "memcpy dst i src j n = Inr d \<Longrightarrow> length d = length dst"
  by (auto simp: memcpy_def split: if_splits)

section \<open>Characters and bytes\<close>

text \<open>The HTTP layer reads the same memory as \<^verbatim>\<open>char\<close>.\<close>

definition bytes_of :: "string \<Rightarrow> byte list" where
  "bytes_of s = map of_char s"

definition chars_of :: "byte list \<Rightarrow> string" where
  "chars_of bs = map (\<lambda>b. char_of (unat b)) bs"

lemma length_bytes_of [simp]: "length (bytes_of s) = length s"
  by (simp add: bytes_of_def)

lemma length_chars_of [simp]: "length (chars_of bs) = length bs"
  by (simp add: chars_of_def)

lemma bytes_of_append [simp]: "bytes_of (s @ t) = bytes_of s @ bytes_of t"
  by (simp add: bytes_of_def)

lemma bytes_of_Nil [simp]: "bytes_of [] = []"
  by (simp add: bytes_of_def)

lemma bytes_of_eq_Nil [simp]: "bytes_of s = [] \<longleftrightarrow> s = []"
  by (simp add: bytes_of_def)

lemma unat_of_char: "unat (of_char c :: byte) = of_char c"
proof -
  have "(of_char c :: byte) = of_nat (of_char c)"
    by (cases c) (simp add: of_char_def)
  moreover have "(of_char c :: nat) < 256"
    by simp
  ultimately show ?thesis
    by (simp add: unat_of_nat)
qed

lemma chars_of_bytes_of [simp]: "chars_of (bytes_of s) = s"
  by (simp add: chars_of_def bytes_of_def unat_of_char comp_def)

text \<open>Decimal output of an unsigned number, as \<^verbatim>\<open>operator<<\<close> and \<^verbatim>\<open>{}\<close> print it.\<close>

fun dec :: "nat \<Rightarrow> string" where
  "dec n = (if n < 10 then [char_of (48 + n)] else dec (n div 10) @ [char_of (48 + n mod 10)])"

declare dec.simps [simp del]

fun undec :: "string \<Rightarrow> nat" where
  "undec s = foldl (\<lambda>n c. n * 10 + (of_char c - 48)) 0 s"

lemma of_char_digit: "d < 10 \<Longrightarrow> of_char (char_of (48 + d)) = (48 + d :: nat)"
  by simp

lemma undec_dec: "undec (dec n) = n"
proof (induction n rule: dec.induct)
  case (1 n)
  show ?case
  proof (cases "n < 10")
    case True
    then show ?thesis by (subst dec.simps) simp
  next
    case False
    with 1 have "undec (dec (n div 10)) = n div 10" by simp
    with False show ?thesis by (subst dec.simps) simp
  qed
qed

definition CR :: char where "CR = CHR 0x0D"
definition LF :: char where "LF = CHR 0x0A"
definition NUL :: char where "NUL = CHR 0x00"

definition CRLF :: string where "CRLF = [CR, LF]"

lemma char_neqs [simp]:
  "CR \<noteq> LF" "LF \<noteq> CR" "CR \<noteq> NUL" "NUL \<noteq> CR" "LF \<noteq> NUL" "NUL \<noteq> LF"
  by (simp_all add: CR_def LF_def NUL_def)

section \<open>C strings and \<^verbatim>\<open>std::string\<close>\<close>

text \<open>The string a \<^verbatim>\<open>char const*\<close> points to: the characters before the first NUL, which must be
  inside the array.\<close>

definition c_str :: "string \<Rightarrow> string res" where
  "c_str a = (if NUL \<in> set a then Inr (takeWhile (\<lambda>c. c \<noteq> NUL) a) else Inl (UB Read_Out_Of_Bounds))"

definition strchr :: "string \<Rightarrow> char \<Rightarrow> string option" where
  "strchr s c = (let r = dropWhile (\<lambda>x. x \<noteq> c) s in if r = [] then None else Some r)"

text \<open>\<^verbatim>\<open>std::string::find\<close> and \<^verbatim>\<open>std::strstr\<close>: the position of the first occurrence.\<close>

fun find_str :: "string \<Rightarrow> string \<Rightarrow> nat option" where
  "find_str needle [] = (if needle = [] then Some 0 else None)"
| "find_str needle (c # cs) =
     (if take (length needle) (c # cs) = needle then Some 0
      else map_option Suc (find_str needle cs))"

text \<open>\<^verbatim>\<open>std::getline\<close>: the line up to the next newline and what follows it; it fails at the end.\<close>

definition getline :: "string \<Rightarrow> (string \<times> string) option" where
  "getline s =
     (if s = [] then None
      else Some (takeWhile (\<lambda>c. c \<noteq> LF) s, drop 1 (dropWhile (\<lambda>c. c \<noteq> LF) s)))"

lemma c_str_append:
  "NUL \<notin> set s \<Longrightarrow> c_str (s @ NUL # t) = Inr s"
  by (auto simp: c_str_def takeWhile_append)

lemma strchr_append: "c \<notin> set s \<Longrightarrow> strchr (s @ c # t) c = Some (c # t)"
  by (auto simp: strchr_def dropWhile_append Let_def)

lemma strchr_None_iff: "strchr s c = None \<longleftrightarrow> c \<notin> set s"
  by (auto simp: strchr_def Let_def)

lemma strchr_Some:
  assumes "strchr s c = Some r"
  shows "s = takeWhile (\<lambda>x. x \<noteq> c) s @ r \<and> r \<noteq> [] \<and> hd r = c"
  using assms hd_dropWhile [of "\<lambda>x. x \<noteq> c" s] takeWhile_dropWhile_id [of "\<lambda>x. x \<noteq> c" s]
  by (auto simp: strchr_def Let_def simp del: takeWhile_dropWhile_id split: if_splits)

lemma getline_line:
  "LF \<notin> set l \<Longrightarrow> getline (l @ LF # rest) = Some (l, rest)"
  by (auto simp: getline_def takeWhile_append dropWhile_append)

lemma getline_shorter: "getline s = Some (l, rest) \<Longrightarrow> length rest < length s"
proof -
  assume "getline s = Some (l, rest)"
  then have "s \<noteq> []" and "rest = drop 1 (dropWhile (\<lambda>c. c \<noteq> LF) s)"
    by (auto simp: getline_def split: if_splits)
  moreover have "length (dropWhile (\<lambda>c. c \<noteq> LF) s) \<le> length s"
    by (rule length_dropWhile_le)
  ultimately show ?thesis
    by (cases s) auto
qed

lemma find_str_hit:
  "find_str needle s = Some n \<Longrightarrow> n + length needle \<le> length s \<and> take (length needle) (drop n s) = needle"
proof (induction needle s arbitrary: n rule: find_str.induct)
  case (1 needle)
  then show ?case by (auto split: if_splits)
next
  case (2 needle c cs)
  show ?case
  proof (cases "take (length needle) (c # cs) = needle")
    case True
    then have "length needle \<le> length (c # cs)" by (metis length_take min.cobounded1)
    with True 2 show ?thesis by auto
  next
    case False
    with 2 show ?thesis by auto
  qed
qed

lemma find_str_miss_iff:
  "find_str needle s = None \<longleftrightarrow> (\<forall>n. take (length needle) (drop n s) \<noteq> needle)"
proof (induction needle s rule: find_str.induct)
  case (1 needle)
  then show ?case by auto
next
  case (2 needle c cs)
  have "(\<forall>n. take (length needle) (drop n (c # cs)) \<noteq> needle) \<longleftrightarrow>
      take (length needle) (c # cs) \<noteq> needle \<and> (\<forall>n. take (length needle) (drop n cs) \<noteq> needle)"
    by (metis drop0 drop_Suc_Cons not0_implies_Suc)
  with 2 show ?case by auto
qed

end
