(* ===== verification/Http_Request.thy ===== *)
theory Http_Request
  imports Prelude
begin

text \<open>
  Parsing a request: \<^verbatim>\<open>class RequestInfo\<close> of \<^verbatim>\<open>src/http/socks_http_handler.hpp\<close> and its
  \<^verbatim>\<open>parse\<close>, with the static functions around it, of \<^verbatim>\<open>socks_http_handler.cpp\<close>.

  The path is copied into the member array \<^verbatim>\<open>_path\<close> of 1024 characters, modelled as the list of
  its characters. The headers are a \<^verbatim>\<open>std::map\<close>, of which the code uses \<^verbatim>\<open>emplace\<close> (which
  keeps an entry that is there), \<^verbatim>\<open>find\<close> and \<^verbatim>\<open>at\<close>. \<^verbatim>\<open>parse\<close> is an action on the object:
  when it throws, the fields it has set stay set.
\<close>

section \<open>The code\<close>

datatype request_type = UNDEFINED | GET | GET_WS

type_synonym headers = "string \<rightharpoonup> string"

definition MAX_PATH_LEN :: nat where "MAX_PATH_LEN = 1024"

record request_info =
  ri_requestType :: request_type
  ri_path :: string
  ri_headers :: headers

definition request_info_new :: request_info where
  "request_info_new =
     \<lparr>ri_requestType = UNDEFINED, ri_path = replicate MAX_PATH_LEN NUL, ri_headers = Map.empty\<rparr>"

text \<open>\<^verbatim>\<open>path()\<close>, as its callers use it: the C string in \<^verbatim>\<open>_path\<close>.\<close>

definition request_path :: "request_info \<Rightarrow> string res" where
  "request_path ri = c_str (ri_path ri)"

definition emplace :: "headers \<Rightarrow> string \<Rightarrow> string \<Rightarrow> headers" where
  "emplace m k v = (if m k = None then m(k \<mapsto> v) else m)"

function header_loop :: "string \<Rightarrow> headers \<Rightarrow> headers" where
  "header_loop stream headers =
     (case getline stream of
        None \<Rightarrow> headers
      | Some (line, rest) \<Rightarrow>
          (case find_str '': '' line of
             None \<Rightarrow> headers
           | Some pos \<Rightarrow>
               header_loop rest (emplace headers (take pos line) (drop (pos + 2) line))))"
  by pat_completeness auto
termination
  by (relation "measure (\<lambda>(stream, headers). length stream)") (auto dest: getline_shorter)

declare header_loop.simps [simp del]

text \<open>The first line is dropped; when even that fails the stream stays failed.\<close>

definition parseHeaders :: "string \<Rightarrow> headers \<Rightarrow> headers" where
  "parseHeaders request headers =
     (case getline request of
        None \<Rightarrow> headers
      | Some (line, rest) \<Rightarrow> header_loop rest headers)"

definition hasHeaderField :: "headers \<Rightarrow> string \<Rightarrow> bool" where
  "hasHeaderField headers key \<longleftrightarrow> headers key \<noteq> None"

definition hasHeaderFieldWith :: "headers \<Rightarrow> string \<Rightarrow> string \<Rightarrow> bool" where
  "hasHeaderFieldWith headers key value =
     (case headers key of None \<Rightarrow> False | Some v \<Rightarrow> find_str value v \<noteq> None)"

definition isWsRequest :: "headers \<Rightarrow> bool" where
  "isWsRequest headers \<longleftrightarrow>
     hasHeaderFieldWith headers ''Upgrade'' ''websocket'' \<and>
     (hasHeaderFieldWith headers ''Connection'' ''Upgrade'' \<or>
      hasHeaderFieldWith headers ''Connection'' ''upgrade'') \<and>
     hasHeaderField headers ''Sec-WebSocket-Key''"

text \<open>The copying loop from \<^verbatim>\<open>path\<close> to \<^verbatim>\<open>pathEnd\<close>: it stops at a question mark and returns
  how far it got.\<close>

fun copy_path :: "string \<Rightarrow> nat \<Rightarrow> string \<Rightarrow> (nat \<times> string) res" where
  "copy_path [] i path = Inr (i, path)"
| "copy_path (c # cs) i path =
     (if c = CHR ''?'' then Inr (i, path)
      else bindR (store path i c) (\<lambda>path'. copy_path cs (Suc i) path'))"

definition throw_invalid :: "string \<Rightarrow> ('s, 'a) act" where
  "throw_invalid msg = failA (Throw (Invalid_Argument msg))"

definition parse_request :: "string \<Rightarrow> nat \<Rightarrow> (request_info, unit) act" where
  "parse_request request len =
     (if len < 3 then throw_invalid ''Request is too short.''
      else bindA (liftR (c_str request)) (\<lambda>req.
      if take 3 req \<noteq> ''GET'' then throw_invalid ''Unsupported request type.''
      else thenA (modA (\<lambda>ri. ri\<lparr>ri_requestType := GET\<rparr>))
      (case strchr req (CHR '' '') of
         None \<Rightarrow> throw_invalid ''No path given.''
       | Some space \<Rightarrow>
           let path = tl space
           in case strchr path (CHR '' '') of
                None \<Rightarrow> throw_invalid ''No HTTP version given.''
              | Some pathEnd \<Rightarrow>
                  bindA (getA ri_path) (\<lambda>path0.
                  bindA (liftR (copy_path (take (length path - length pathEnd) path) 0 path0)) (\<lambda>(n, path1).
                  bindA (liftR (store path1 n NUL)) (\<lambda>path2.
                  thenA (modA (\<lambda>ri. ri\<lparr>ri_path := path2\<rparr>))
                 (thenA (modA (\<lambda>ri. ri\<lparr>ri_headers := parseHeaders req (ri_headers ri)\<rparr>))
                 (bindA (getA ri_headers) (\<lambda>headers.
                    if isWsRequest headers
                    then modA (\<lambda>ri. ri\<lparr>ri_requestType := GET_WS\<rparr>)
                    else retA ())))))))))"

section \<open>Copying the path\<close>

lemma copy_path_ok:
  "i + length (takeWhile (\<lambda>c. c \<noteq> CHR ''?'') cs) \<le> length path \<Longrightarrow>
   copy_path cs i path =
     (let p = takeWhile (\<lambda>c. c \<noteq> CHR ''?'') cs
      in Inr (i + length p, take i path @ p @ drop (i + length p) path))"
proof (induction cs i path rule: copy_path.induct)
  case (1 i path)
  then show ?case by simp
next
  case (2 c cs i path)
  show ?case
  proof (cases "c = CHR ''?''")
    case True
    with 2 show ?thesis by simp
  next
    case False
    with "2.prems" have i: "i < length path" by simp
    with False "2.prems" "2.IH" [of "path[i := c]"] show ?thesis
      by (simp add: Let_def take_Suc_conv_app_nth)
  qed
qed

lemma copy_path_overflow:
  "length path < i + length (takeWhile (\<lambda>c. c \<noteq> CHR ''?'') cs) \<Longrightarrow> i \<le> length path \<Longrightarrow>
   copy_path cs i path = Inl (UB Write_Out_Of_Bounds)"
proof (induction cs i path rule: copy_path.induct)
  case (1 i path)
  then show ?case by simp
next
  case (2 c cs i path)
  then have "c \<noteq> CHR ''?''" by auto
  with 2 show ?case
    by (cases "i < length path") (auto simp: store_def)
qed

section \<open>Parsing the request line\<close>

text \<open>The request line as \<^verbatim>\<open>parse\<close> sees it: the first two spaces of the string delimit the path,
  wherever the line ends.\<close>

definition splits_at_spaces :: "string \<Rightarrow> string \<Rightarrow> string \<Rightarrow> string \<Rightarrow> bool" where
  "splits_at_spaces req method path vers \<longleftrightarrow>
     req = method @ CHR '' '' # path @ CHR '' '' # vers \<and>
     CHR '' '' \<notin> set method \<and> CHR '' '' \<notin> set path"

definition path_part :: "string \<Rightarrow> string" where
  "path_part path = takeWhile (\<lambda>c. c \<noteq> CHR ''?'') path"

lemma parse_request_split:
  assumes "3 \<le> len" and "c_str request = Inr req" and "take 3 req = ''GET''"
    and "splits_at_spaces req method path vers"
  shows "parse_request request len ri =
    (let ri1 = ri\<lparr>ri_requestType := GET\<rparr> in
     bindA (liftR (copy_path path 0 (ri_path ri))) (\<lambda>(n, path1).
     bindA (liftR (store path1 n NUL)) (\<lambda>path2.
     thenA (modA (\<lambda>ri. ri\<lparr>ri_path := path2\<rparr>))
    (thenA (modA (\<lambda>ri. ri\<lparr>ri_headers := parseHeaders req (ri_headers ri)\<rparr>))
    (bindA (getA ri_headers) (\<lambda>headers.
       if isWsRequest headers then modA (\<lambda>ri. ri\<lparr>ri_requestType := GET_WS\<rparr>) else retA ()))))) ri1)"
proof -
  let ?tail = "path @ CHR '' '' # vers"
  have "strchr req (CHR '' '') = Some (CHR '' '' # ?tail)"
    and "strchr ?tail (CHR '' '') = Some (CHR '' '' # vers)"
    using assms(4) by (auto simp: splits_at_spaces_def intro: strchr_append)
  moreover have "take (length ?tail - length (CHR '' '' # vers)) ?tail = path"
    by simp
  ultimately show ?thesis
    using assms(1-3) by (simp add: parse_request_def Let_def del: list.size)
qed

lemma parse_request_ok:
  assumes "3 \<le> len" and "c_str request = Inr req" and "take 3 req = ''GET''"
    and "splits_at_spaces req method path vers"
    and "length (path_part path) < MAX_PATH_LEN" and "length (ri_path ri) = MAX_PATH_LEN"
  shows "parse_request request len ri =
    (let headers = parseHeaders req (ri_headers ri)
     in (Inr (), ri\<lparr>ri_requestType := if isWsRequest headers then GET_WS else GET,
           ri_path := path_part path @ NUL # drop (Suc (length (path_part path))) (ri_path ri),
           ri_headers := headers\<rparr>))"
proof -
  let ?p = "path_part path"
  have "copy_path path 0 (ri_path ri) = Inr (length ?p, ?p @ drop (length ?p) (ri_path ri))"
    using assms(5,6) by (subst copy_path_ok) (simp_all add: path_part_def Let_def)
  moreover have "store (?p @ drop (length ?p) (ri_path ri)) (length ?p) NUL =
      Inr (?p @ NUL # drop (Suc (length ?p)) (ri_path ri))"
    using assms(5,6) by (simp add: list_update_append Cons_nth_drop_Suc [symmetric])
  ultimately show ?thesis
    using parse_request_split [OF assms(1-4), of ri] by (simp add: Let_def)
qed

lemma parse_request_overflow:
  assumes "3 \<le> len" and "c_str request = Inr req" and "take 3 req = ''GET''"
    and "splits_at_spaces req method path vers"
    and "MAX_PATH_LEN \<le> length (path_part path)" and "length (ri_path ri) = MAX_PATH_LEN"
  shows "fst (parse_request request len ri) = Inl (UB Write_Out_Of_Bounds)"
proof (cases "length (path_part path) = MAX_PATH_LEN")
  case True
  then have "copy_path path 0 (ri_path ri) = Inr (MAX_PATH_LEN, path_part path)"
    using assms(6) by (subst copy_path_ok) (simp_all add: path_part_def Let_def)
  moreover have "store (path_part path) MAX_PATH_LEN NUL = Inl (UB Write_Out_Of_Bounds)"
    using True by (simp add: store_out)
  ultimately show ?thesis
    using parse_request_split [OF assms(1-4), of ri] by (simp add: Let_def)
next
  case False
  then have "copy_path path 0 (ri_path ri) = Inl (UB Write_Out_Of_Bounds)"
    using assms(5,6) by (intro copy_path_overflow) (simp_all add: path_part_def)
  then show ?thesis
    using parse_request_split [OF assms(1-4), of ri] by (simp add: Let_def)
qed

section \<open>Parsing the headers\<close>

lemma find_str_first:
  "c \<notin> set s \<Longrightarrow> find_str (c # n) (s @ c # n @ t) = Some (length s)"
proof (induction s)
  case Nil
  show ?case by simp
next
  case (Cons a s)
  then show ?case by (auto simp: take_Cons')
qed

definition header_ok :: "string \<times> string \<Rightarrow> bool" where
  "header_ok = (\<lambda>(k, v). CHR '':'' \<notin> set k \<and> LF \<notin> set k \<and> LF \<notin> set v)"

definition header_line :: "string \<times> string \<Rightarrow> string" where
  "header_line = (\<lambda>(k, v). k @ '': '' @ v @ CRLF)"

definition header_lines :: "(string \<times> string) list \<Rightarrow> string" where
  "header_lines hs = concat (map header_line hs)"

text \<open>The stored value keeps the carriage return of its line.\<close>

definition header_map :: "(string \<times> string) list \<Rightarrow> headers" where
  "header_map hs = map_of (map (\<lambda>(k, v). (k, v @ [CR])) hs)"

lemma header_map_Nil [simp]: "header_map [] = Map.empty"
  by (simp add: header_map_def)

lemma header_map_Cons [simp]: "header_map ((k, v) # hs) = (header_map hs)(k \<mapsto> v @ [CR])"
  by (simp add: header_map_def)

lemma emplace_map_add: "f ++ emplace m k v = f(k \<mapsto> v) ++ m"
  by (rule ext) (simp add: emplace_def map_add_def split: option.split)

lemma header_loop_lines:
  "\<forall>h \<in> set hs. header_ok h \<Longrightarrow>
   header_loop (header_lines hs @ CRLF @ tail) m = header_map hs ++ m"
proof (induction hs arbitrary: m)
  case Nil
  have "getline (CRLF @ tail) = Some ([CR], tail)"
    using getline_line [of "[CR]" tail] by (simp add: CRLF_def)
  moreover have "find_str '': '' [CR] = None"
    by (simp add: CR_def)
  ultimately show ?case
    by (subst header_loop.simps) (simp add: header_lines_def)
next
  case (Cons h hs)
  obtain k v where h: "h = (k, v)" by (cases h)
  let ?line = "k @ '': '' @ v @ [CR]"
  have ok: "CHR '':'' \<notin> set k" "LF \<notin> set ?line"
    using Cons.prems h by (auto simp: header_ok_def LF_def CR_def)
  have "header_lines (h # hs) @ CRLF @ tail = ?line @ LF # (header_lines hs @ CRLF @ tail)"
    by (simp add: h header_lines_def header_line_def CRLF_def)
  then have line: "getline (header_lines (h # hs) @ CRLF @ tail) =
      Some (?line, header_lines hs @ CRLF @ tail)"
    using getline_line [OF ok(2)] by (simp only:)
  have pos: "find_str '': '' ?line = Some (length k)"
    using find_str_first [OF ok(1), of "'' ''" "v @ [CR]"] by simp
  have "header_loop (header_lines (h # hs) @ CRLF @ tail) m =
      header_loop (header_lines hs @ CRLF @ tail) (emplace m k (v @ [CR]))"
    using line pos by (subst header_loop.simps) simp
  also have "\<dots> = header_map hs ++ emplace m k (v @ [CR])"
    using Cons by simp
  finally show ?case
    by (simp only: h emplace_map_add header_map_Cons)
qed

section \<open>The outcome of parsing, in one table\<close>

fun split_on :: "char \<Rightarrow> string \<Rightarrow> string list" where
  "split_on c [] = [[]]"
| "split_on c (x # xs) =
     (if x = c then [] # split_on c xs
      else case split_on c xs of [] \<Rightarrow> [[x]] | w # ws \<Rightarrow> (x # w) # ws)"

lemma split_on_not_Nil [simp]: "split_on c s \<noteq> []"
  by (cases s) (auto split: list.split)

lemma split_on_none: "c \<notin> set s \<Longrightarrow> split_on c s = [s]"
  by (induction s) auto

lemma split_on_append: "c \<notin> set s \<Longrightarrow> split_on c (s @ c # t) = s # split_on c t"
  by (induction s) auto

lemma split_first: "c \<in> set s \<Longrightarrow> \<exists>a b. s = a @ c # b \<and> c \<notin> set a"
  by (metis split_list_first)

text \<open>The outcome depends on the words between the spaces alone.\<close>

definition request_outcome :: "string list \<Rightarrow> unit res" where
  "request_outcome ws =
     (case ws of
        method # path # version # _ \<Rightarrow>
          if length (path_part path) < MAX_PATH_LEN then Inr () else Inl (UB Write_Out_Of_Bounds)
      | method # path # [] \<Rightarrow> Inl (Throw (Invalid_Argument ''No HTTP version given.''))
      | _ \<Rightarrow> Inl (Throw (Invalid_Argument ''No path given.'')))"

lemma parse_request_outcome_words:
  assumes "3 \<le> len" and "c_str request = Inr req" and "take 3 req = ''GET''"
    and "length (ri_path ri) = MAX_PATH_LEN"
  shows "fst (parse_request request len ri) = request_outcome (split_on (CHR '' '') req)"
proof (cases "CHR '' '' \<in> set req")
  case False
  then show ?thesis
    using assms(1-3)
    by (simp add: parse_request_def throw_invalid_def strchr_None_iff [THEN iffD2]
        split_on_none request_outcome_def)
next
  case True
  then obtain m t where req: "req = m @ CHR '' '' # t" "CHR '' '' \<notin> set m"
    using split_first by metis
  then have words: "split_on (CHR '' '') req = m # split_on (CHR '' '') t"
    by (simp add: split_on_append)
  have first: "strchr req (CHR '' '') = Some (CHR '' '' # t)"
    using req by (simp add: strchr_append)
  show ?thesis
  proof (cases "CHR '' '' \<in> set t")
    case False
    then show ?thesis
      using assms(1-3) words first
      by (simp add: parse_request_def throw_invalid_def strchr_None_iff [THEN iffD2]
          split_on_none request_outcome_def)
  next
    case True
    then obtain p v where t: "t = p @ CHR '' '' # v" "CHR '' '' \<notin> set p"
      using split_first by metis
    with req have split: "splits_at_spaces req m p v"
      by (simp add: splits_at_spaces_def)
    obtain w ws where v: "split_on (CHR '' '') v = w # ws"
      by (metis list.exhaust split_on_not_Nil)
    have words: "split_on (CHR '' '') req = m # p # w # ws"
      using words t v by (simp add: split_on_append)
    show ?thesis
    proof (cases "length (path_part p) < MAX_PATH_LEN")
      case True
      with parse_request_ok [OF assms(1-3) split True assms(4)] words show ?thesis
        by (simp add: request_outcome_def Let_def)
    next
      case False
      then have "MAX_PATH_LEN \<le> length (path_part p)" by simp
      with parse_request_overflow [OF assms(1-3) split this assms(4)] words show ?thesis
        by (simp add: request_outcome_def)
    qed
  qed
qed

section \<open>The path array\<close>

definition path_inv :: "request_info \<Rightarrow> bool" where
  "path_inv ri \<longleftrightarrow> length (ri_path ri) = MAX_PATH_LEN \<and> NUL \<in> set (ri_path ri)"

lemma path_inv_new [simp]: "path_inv request_info_new"
  by (simp add: path_inv_def request_info_new_def MAX_PATH_LEN_def)

lemma copy_path_length: "copy_path cs i path = Inr (n, path') \<Longrightarrow> length path' = length path"
proof (induction cs i path rule: copy_path.induct)
  case (1 i path)
  then show ?case by simp
next
  case (2 c cs i path)
  then show ?case
    by (auto simp: bindR_eq_Inr store_def split: if_splits)
qed

lemma path_inv_update [simp]:
  "path_inv (ri\<lparr>ri_requestType := t\<rparr>) = path_inv ri"
  "path_inv (ri\<lparr>ri_headers := h\<rparr>) = path_inv ri"
  by (simp_all add: path_inv_def)

lemma parse_request_path_inv: "keeps path_inv (parse_request request len)"
proof -
  have step: "path_inv (snd (bindA (liftR (copy_path p 0 path0)) (\<lambda>(n, path1).
      bindA (liftR (store path1 n NUL)) (\<lambda>path2.
      thenA (modA (\<lambda>ri. ri\<lparr>ri_path := path2\<rparr>)) k)) ri))"
    if "path0 = ri_path ri" and "path_inv ri" and "keeps path_inv k"
    for p path0 and ri and k :: "(request_info, unit) act"
  proof (cases "copy_path p 0 path0")
    case (Inl e)
    with that show ?thesis by simp
  next
    case (Inr r)
    then obtain n path1 where r: "copy_path p 0 path0 = Inr (n, path1)" by (cases r) auto
    show ?thesis
    proof (cases "n < length path1")
      case True
      then have "path_inv (ri\<lparr>ri_path := path1[n := NUL]\<rparr>)"
        using copy_path_length [OF r] that(1,2)
        by (auto simp: path_inv_def set_update_memI)
      with that(3) r True show ?thesis by (simp add: keeps_def)
    next
      case False
      with that r show ?thesis by (simp add: store_out)
    qed
  qed
  show ?thesis
    unfolding parse_request_def Let_def throw_invalid_def
    by (intro keeps_if keeps_bindA keeps_thenA keeps_failA keeps_liftR keeps_modA)
      (auto simp: keeps_def split: option.split intro!: step)
qed

section \<open>Printing a request\<close>

definition HTTP_VERSION :: string where "HTTP_VERSION = ''HTTP/1.1''"

definition request_line :: "string \<Rightarrow> string \<Rightarrow> string" where
  "request_line path query = ''GET '' @ path @ query @ '' '' @ HTTP_VERSION"

definition render_request :: "string \<Rightarrow> string \<Rightarrow> (string \<times> string) list \<Rightarrow> string" where
  "render_request path query hs = request_line path query @ CRLF @ header_lines hs @ CRLF"

definition path_ok :: "string \<Rightarrow> bool" where
  "path_ok path \<longleftrightarrow> length path < MAX_PATH_LEN \<and> set path \<inter> {CHR '' '', CHR ''?'', LF, NUL} = {}"

definition query_ok :: "string \<Rightarrow> bool" where
  "query_ok query \<longleftrightarrow> (query = [] \<or> hd query = CHR ''?'') \<and> set query \<inter> {CHR '' '', LF, NUL} = {}"

definition headers_ok :: "(string \<times> string) list \<Rightarrow> bool" where
  "headers_ok hs \<longleftrightarrow>
     (\<forall>h \<in> set hs. header_ok h \<and> NUL \<notin> set (fst h) \<and> NUL \<notin> set (snd h))"

lemma header_line_no_NUL:
  "NUL \<notin> set k \<Longrightarrow> NUL \<notin> set v \<Longrightarrow> NUL \<notin> set (header_line (k, v))"
  by (simp add: header_line_def CRLF_def) (simp add: NUL_def)

lemma header_lines_no_NUL: "headers_ok hs \<Longrightarrow> NUL \<notin> set (header_lines hs)"
  unfolding headers_ok_def header_lines_def
  by (simp add: header_line_no_NUL) (metis header_line_no_NUL prod.collapse)

lemma request_line_no_NUL:
  "NUL \<notin> set path \<Longrightarrow> NUL \<notin> set query \<Longrightarrow> NUL \<notin> set (request_line path query)"
  by (simp add: request_line_def HTTP_VERSION_def NUL_def)

lemma request_line_no_LF:
  "LF \<notin> set path \<Longrightarrow> LF \<notin> set query \<Longrightarrow> LF \<notin> set (request_line path query)"
  by (simp add: request_line_def HTTP_VERSION_def LF_def)

lemma path_okD: "path_ok path \<Longrightarrow> NUL \<notin> set path \<and> LF \<notin> set path \<and> CHR '' '' \<notin> set path \<and> CHR ''?'' \<notin> set path"
  unfolding path_ok_def by blast

lemma query_okD: "query_ok query \<Longrightarrow> NUL \<notin> set query \<and> LF \<notin> set query \<and> CHR '' '' \<notin> set query"
  unfolding query_ok_def by blast

lemma render_request_no_NUL:
  assumes "path_ok path" and "query_ok query" and "headers_ok hs"
  shows "NUL \<notin> set (render_request path query hs)"
  using request_line_no_NUL path_okD [OF assms(1)] query_okD [OF assms(2)]
    header_lines_no_NUL [OF assms(3)]
  by (simp add: render_request_def CRLF_def)

lemma path_part_query:
  assumes "path_ok path" and "query_ok query"
  shows "path_part (path @ query) = path"
proof -
  have "takeWhile (\<lambda>c. c \<noteq> CHR ''?'') query = []"
    using assms(2) by (cases query) (auto simp: query_ok_def)
  moreover have "\<forall>c \<in> set path. c \<noteq> CHR ''?''"
    using path_okD [OF assms(1)] by blast
  ultimately show ?thesis
    by (simp add: path_part_def takeWhile_append2)
qed

lemma parseHeaders_render:
  assumes "path_ok path" and "query_ok query" and "headers_ok hs"
  shows "parseHeaders (render_request path query hs) m = header_map hs ++ m"
proof -
  let ?line = "request_line path query @ [CR]"
  have "LF \<notin> set ?line"
    using request_line_no_LF path_okD [OF assms(1)] query_okD [OF assms(2)] by simp
  then have "getline (?line @ LF # (header_lines hs @ CRLF @ [])) = Some (?line, header_lines hs @ CRLF @ [])"
    by (rule getline_line)
  moreover have "render_request path query hs = ?line @ LF # (header_lines hs @ CRLF @ [])"
    by (simp add: render_request_def CRLF_def)
  ultimately show ?thesis
    using assms(3) header_loop_lines [of hs "[]" m]
    by (simp add: parseHeaders_def headers_ok_def)
qed

lemma render_request_split:
  assumes "path_ok path" and "query_ok query"
  shows "splits_at_spaces (render_request path query hs) ''GET'' (path @ query)
    (HTTP_VERSION @ CRLF @ header_lines hs @ CRLF)"
  using path_okD [OF assms(1)] query_okD [OF assms(2)]
  by (simp add: splits_at_spaces_def render_request_def request_line_def)

lemma parse_request_render:
  assumes "path_ok path" and "query_ok query" and "headers_ok hs"
    and "request = render_request path query hs @ NUL # junk" and "3 \<le> len"
  shows "parse_request request len request_info_new =
    (Inr (), \<lparr>ri_requestType = if isWsRequest (header_map hs) then GET_WS else GET,
       ri_path = path @ replicate (MAX_PATH_LEN - length path) NUL, ri_headers = header_map hs\<rparr>)"
proof -
  let ?req = "render_request path query hs"
  have "c_str request = Inr ?req"
    unfolding assms(4) by (intro c_str_append render_request_no_NUL assms(1-3))
  moreover have "take 3 ?req = ''GET''"
    by (simp add: render_request_def request_line_def)
  moreover note render_request_split [OF assms(1,2), of hs]
  moreover have "length path < MAX_PATH_LEN"
    using assms(1) by (simp add: path_ok_def)
  moreover have "parseHeaders ?req Map.empty = header_map hs"
    using parseHeaders_render [OF assms(1-3), of Map.empty] by simp
  moreover have "path @ NUL # drop (Suc (length path)) (replicate MAX_PATH_LEN NUL) =
      path @ replicate (MAX_PATH_LEN - length path) NUL"
    using \<open>length path < MAX_PATH_LEN\<close>
    by (simp add: Suc_diff_Suc flip: replicate_Suc)
  ultimately show ?thesis
    using parse_request_ok [of len request ?req "''GET''" "path @ query" _ request_info_new] assms(5)
      path_part_query [OF assms(1,2)]
    by (simp add: request_info_new_def Let_def)
qed

section \<open>Properties\<close>

text \<open>C9. Print/parse round trip: a GET request printed with a path, an optional query and header
  fields is parsed back to exactly that path (without the query) and those fields (the first of
  each name, its value with the carriage return of its line), and counts as a WebSocket request
  exactly when the fields say so. What follows the terminating NUL is not looked at, and
  \<^verbatim>\<open>path()\<close> reads the path back.\<close>

theorem request_roundtrip:
  assumes "path_ok path" and "query_ok query" and "headers_ok hs"
    and "request = render_request path query hs @ NUL # junk" and "3 \<le> len"
  shows "\<exists>ri. parse_request request len request_info_new = (Inr (), ri)
    \<and> request_path ri = Inr path \<and> ri_headers ri = header_map hs
    \<and> ri_requestType ri = (if isWsRequest (header_map hs) then GET_WS else GET)"
proof -
  have "NUL \<notin> set path" "length path < MAX_PATH_LEN"
    using assms(1) by (auto simp: path_ok_def)
  then have "c_str (path @ replicate (MAX_PATH_LEN - length path) NUL) = Inr path"
    using c_str_append [of path "replicate (MAX_PATH_LEN - Suc (length path)) NUL"]
    by (simp add: Suc_diff_Suc flip: replicate_Suc)
  then show ?thesis
    using parse_request_render [OF assms] by (simp add: request_path_def)
qed

theorem request_roundtrip_witness:
  "\<exists>ri. parse_request (render_request ''/a'' ''?x=1'' [(''Host'', ''h''), (''Host'', ''i'')] @ NUL # ''xyz'') 43
      request_info_new = (Inr (), ri)
    \<and> request_path ri = Inr ''/a'' \<and> ri_headers ri ''Host'' = Some (''h'' @ [CR]) \<and> ri_requestType ri = GET"
proof -
  have "path_ok ''/a''" "query_ok ''?x=1''" "headers_ok [(''Host'', ''h''), (''Host'', ''i'')]"
    by (simp_all add: path_ok_def query_ok_def headers_ok_def header_ok_def MAX_PATH_LEN_def LF_def NUL_def)
  from request_roundtrip [OF this refl, of 43 "''xyz''"] show ?thesis
    by (auto simp: isWsRequest_def hasHeaderFieldWith_def hasHeaderField_def)
qed

text \<open>C23. The complete outcome of \<^verbatim>\<open>parse\<close>, for every length and every C string: too short, not
  GET, no path, no version, success, or, for a path of 1024 characters or more, a write past the
  end of \<^verbatim>\<open>_path\<close>. It depends on the words between the spaces only.\<close>

theorem parse_request_outcome:
  assumes "length (ri_path ri) = MAX_PATH_LEN"
  shows "fst (parse_request request len ri) =
    (if len < 3 then Inl (Throw (Invalid_Argument ''Request is too short.''))
     else case c_str request of
       Inl e \<Rightarrow> Inl e
     | Inr req \<Rightarrow>
         if take 3 req \<noteq> ''GET'' then Inl (Throw (Invalid_Argument ''Unsupported request type.''))
         else request_outcome (split_on (CHR '' '') req))"
proof (cases "c_str request")
  case (Inl e)
  then show ?thesis by (simp add: parse_request_def throw_invalid_def)
next
  case (Inr req)
  show ?thesis
  proof (cases "3 \<le> len \<and> take 3 req = ''GET''")
    case True
    with Inr assms parse_request_outcome_words [of len request req ri] show ?thesis by simp
  next
    case False
    with Inr show ?thesis by (auto simp: parse_request_def throw_invalid_def)
  qed
qed

theorem parse_request_outcome_witness:
  "fst (parse_request (''GET /x'' @ CRLF @ [NUL]) 8 request_info_new) =
     Inl (Throw (Invalid_Argument ''No HTTP version given.''))
   \<and> fst (parse_request (''GET '' @ replicate 1024 (CHR ''a'') @ '' HTTP'' @ [NUL]) 1033 request_info_new) =
     Inl (UB Write_Out_Of_Bounds)"
proof -
  have len: "length (ri_path request_info_new) = MAX_PATH_LEN"
    by (simp add: request_info_new_def)
  have "c_str (''GET /x'' @ CRLF @ [NUL]) = Inr (''GET /x'' @ CRLF)"
    using c_str_append [of "''GET /x'' @ CRLF" "[]"] by (simp add: CRLF_def CR_def LF_def NUL_def)
  then have "fst (parse_request (''GET /x'' @ CRLF @ [NUL]) 8 request_info_new) =
      request_outcome (split_on (CHR '' '') (''GET /x'' @ CRLF))"
    using parse_request_outcome [OF len, of "''GET /x'' @ CRLF @ [NUL]" 8] by simp
  then have a: "fst (parse_request (''GET /x'' @ CRLF @ [NUL]) 8 request_info_new) =
      Inl (Throw (Invalid_Argument ''No HTTP version given.''))"
    by (simp add: CRLF_def CR_def LF_def request_outcome_def)
  let ?p = "replicate 1024 (CHR ''a'')"
  have "c_str ((''GET '' @ ?p @ '' HTTP'') @ [NUL]) = Inr (''GET '' @ ?p @ '' HTTP'')"
    by (rule c_str_append) (simp add: NUL_def)
  moreover have "split_on (CHR '' '') (''GET '' @ ?p @ '' HTTP'') = [''GET'', ?p, ''HTTP'']"
    using split_on_append [of "CHR '' ''" "''GET''" "?p @ '' HTTP''"]
      split_on_append [of "CHR '' ''" ?p "''HTTP''"] by simp
  moreover have "path_part ?p = ?p"
    by (simp add: path_part_def takeWhile_eq_all_conv)
  ultimately have "fst (parse_request (''GET '' @ ?p @ '' HTTP'' @ [NUL]) 1033 request_info_new) =
      Inl (UB Write_Out_Of_Bounds)"
    using parse_request_outcome [OF len, of "''GET '' @ ?p @ '' HTTP'' @ [NUL]" 1033]
    by (simp add: request_outcome_def MAX_PATH_LEN_def)
  with a show ?thesis by simp
qed

text \<open>C32. However parsing ends, \<^verbatim>\<open>_path\<close> keeps its length and a terminator, so \<^verbatim>\<open>path()\<close> is
  always a C string.\<close>

theorem parse_request_keeps_path:
  assumes "length (ri_path ri) = MAX_PATH_LEN" and "NUL \<in> set (ri_path ri)"
    and "parse_request request len ri = (r, ri')"
  shows "length (ri_path ri') = MAX_PATH_LEN \<and> (\<exists>p. request_path ri' = Inr p \<and> length p < MAX_PATH_LEN)"
proof -
  have "path_inv ri" using assms(1,2) by (simp add: path_inv_def)
  from keepsD [OF parse_request_path_inv this assms(3)]
  have inv: "length (ri_path ri') = MAX_PATH_LEN" "NUL \<in> set (ri_path ri')"
    by (simp_all add: path_inv_def)
  have "takeWhile (\<lambda>c. c \<noteq> NUL) (ri_path ri') \<noteq> ri_path ri'"
    using inv(2) by (auto simp: takeWhile_eq_all_conv)
  then have "length (takeWhile (\<lambda>c. c \<noteq> NUL) (ri_path ri')) < length (ri_path ri')"
    by (metis length_takeWhile_le nat_less_le take_all takeWhile_eq_take)
  with inv show ?thesis by (simp add: request_path_def c_str_def)
qed

theorem parse_request_keeps_path_witness:
  "\<exists>ri. parse_request [CHR ''P'', NUL] 5 request_info_new =
      (Inl (Throw (Invalid_Argument ''Unsupported request type.'')), ri)
    \<and> length (ri_path ri) = MAX_PATH_LEN"
proof -
  let ?r = "Inl (Throw (Invalid_Argument ''Unsupported request type.''))"
  have run: "parse_request [CHR ''P'', NUL] 5 request_info_new = (?r, request_info_new)"
    by (simp add: parse_request_def throw_invalid_def c_str_def NUL_def)
  have "length (ri_path request_info_new) = MAX_PATH_LEN" "NUL \<in> set (ri_path request_info_new)"
    by (simp_all add: request_info_new_def MAX_PATH_LEN_def)
  from parse_request_keeps_path [OF this run] run show ?thesis by blast
qed

end
