(* ===== verification/Posix_Socket.thy ===== *)
theory Posix_Socket
  imports Prelude
begin

text \<open>
  The system context a connection runs on: the abstract \<^verbatim>\<open>Socket\<close> of
  \<^verbatim>\<open>src/tcp/socks_system_context.hpp\<close>, its implementation \<^verbatim>\<open>SocketImpl\<close> and the quit
  condition of \<^verbatim>\<open>examples/system_context/system_posix.cpp\<close>.

  The kernel is outside the program. Its answers to the calls one connection makes are scripts in
  the state: each call takes the next answer of its script, and a call whose script is used up is
  \<open>Starved\<close>. What \<^verbatim>\<open>send\<close> and \<^verbatim>\<open>recv\<close> promise is built in: \<open>Sent n\<close> takes at most the
  bytes it was given, \<open>Received d\<close> fills at most the buffer. The bytes the kernel has taken for the
  peer are \<open>io_wire\<close>.
\<close>

section \<open>The state of a connection's input and output\<close>

datatype send_answer = Sent nat | Send_Failed errno
datatype recv_answer = Received "byte list" | Recv_Failed errno
datatype poll_answer = Poll_Ready "16 word" | Poll_Timeout | Poll_Failed errno

datatype log_line =
    Log_Error exn
  | Log_Unparsed_Request exn
  | Log_Request string string
  | Log_Open_Failed string
  | Log_Info string

record 'u io =
  io_sends :: "send_answer list"
  io_recvs :: "recv_answer list"
  io_polls :: "poll_answer list"
  io_wire :: "byte list"
  io_fd_open :: bool
  io_closed :: bool         \<comment> \<open>\<^verbatim>\<open>Connection::closed\<close>\<close>
  io_signalStatus :: int    \<comment> \<open>\<^verbatim>\<open>System::signalStatus\<close>, as this thread sees it\<close>
  io_log :: "log_line list"
  io_user :: 'u             \<comment> \<open>what the application's own handlers keep\<close>

text \<open>The state in which a connection starts, with the kernel's scripts and the application's own
  state: the descriptor is open, \<^verbatim>\<open>closed{false}\<close>, no signal, nothing sent.\<close>

definition io_start ::
  "send_answer list \<Rightarrow> recv_answer list \<Rightarrow> poll_answer list \<Rightarrow> 'u \<Rightarrow> 'u io"
where
  "io_start ss rs ps u =
     \<lparr>io_sends = ss, io_recvs = rs, io_polls = ps, io_wire = [], io_fd_open = True,
      io_closed = False, io_signalStatus = 0, io_log = [], io_user = u\<rparr>"

lemma io_start_simps [simp]:
  "io_sends (io_start ss rs ps u) = ss"
  "io_recvs (io_start ss rs ps u) = rs"
  "io_polls (io_start ss rs ps u) = ps"
  "io_wire (io_start ss rs ps u) = []"
  "io_fd_open (io_start ss rs ps u)"
  "\<not> io_closed (io_start ss rs ps u)"
  "io_signalStatus (io_start ss rs ps u) = 0"
  "io_log (io_start ss rs ps u) = []"
  "io_user (io_start ss rs ps u) = u"
  by (simp_all add: io_start_def)

definition log_io :: "log_line \<Rightarrow> ('u io, unit) act" where
  "log_io l = modA (\<lambda>s. s\<lparr>io_log := io_log s @ [l]\<rparr>)"

section \<open>SocketImpl\<close>

definition NUM_EOF :: int where "NUM_EOF = 0"
definition NUM_CONTINUE :: int where "NUM_CONTINUE = -1"

definition retriable :: "errno \<Rightarrow> bool" where
  "retriable e \<longleftrightarrow> e = EINTR \<or> e = EAGAIN"

definition MAX_SIZE :: nat where "MAX_SIZE = 4096"

text \<open>\<^verbatim>\<open>read\<close> fills the front of the caller's buffer and leaves the rest as it was.\<close>

definition sock_read :: "byte list \<Rightarrow> ('u io, int \<times> byte list) act" where
  "sock_read buf s =
     (case io_recvs s of
        [] \<Rightarrow> (Inl Starved, s)
      | Received d # rs \<Rightarrow>
          let got = take (length buf) d
          in (Inr (int (length got), got @ drop (length got) buf), s\<lparr>io_recvs := rs\<rparr>)
      | Recv_Failed e # rs \<Rightarrow>
          (if retriable e then Inr (NUM_CONTINUE, buf) else Inl (Throw (Errno_Error e)),
           s\<lparr>io_recvs := rs\<rparr>))"

definition sock_write :: "byte list \<Rightarrow> ('u io, int) act" where
  "sock_write buf s =
     (case io_sends s of
        [] \<Rightarrow> (Inl Starved, s)
      | Sent n # as \<Rightarrow>
          let taken = take n buf
          in (Inr (int (length taken)), s\<lparr>io_sends := as, io_wire := io_wire s @ taken\<rparr>)
      | Send_Failed e # as \<Rightarrow>
          (if retriable e then Inr NUM_CONTINUE else Inl (Throw (Errno_Error e)),
           s\<lparr>io_sends := as\<rparr>))"

definition POLLIN :: "16 word" where "POLLIN = 1"
definition POLLOUT :: "16 word" where "POLLOUT = 4"

definition internalPoll :: "16 word \<Rightarrow> ('u io, bool) act" where
  "internalPoll flags s =
     (case io_polls s of
        [] \<Rightarrow> (Inl Starved, s)
      | Poll_Timeout # ps \<Rightarrow> (Inr False, s\<lparr>io_polls := ps\<rparr>)
      | Poll_Ready revents # ps \<Rightarrow> (Inr (revents AND flags \<noteq> 0), s\<lparr>io_polls := ps\<rparr>)
      | Poll_Failed e # ps \<Rightarrow>
          (if retriable e then Inr False else Inl (Throw (Errno_Error e)), s\<lparr>io_polls := ps\<rparr>))"

definition isReadable :: "('u io, bool) act" where
  "isReadable = internalPoll POLLIN"

definition isWriteable :: "('u io, bool) act" where
  "isWriteable = internalPoll POLLOUT"

definition sock_close :: "('u io, unit) act" where
  "sock_close = modA (\<lambda>s. s\<lparr>io_fd_open := False\<rparr>)"

text \<open>The abstract class \<^verbatim>\<open>Socket\<close> of \<^verbatim>\<open>src/tcp/socks_system_context.hpp\<close> is the record of its virtual
  functions; connections and workers call them on the object they are given, a \<^verbatim>\<open>SocketImpl\<close>.\<close>

record 's socket =
  sk_read :: "byte list \<Rightarrow> ('s, int \<times> byte list) act"
  sk_write :: "byte list \<Rightarrow> ('s, int) act"
  sk_isReadable :: "('s, bool) act"
  sk_isWriteable :: "('s, bool) act"
  sk_close :: "('s, unit) act"

definition SocketImpl :: "'u io socket" where
  "SocketImpl =
     \<lparr>sk_read = sock_read, sk_write = sock_write, sk_isReadable = isReadable, sk_isWriteable = isWriteable,
      sk_close = sock_close\<rparr>"

lemma SocketImpl_simps [simp]:
  "sk_read SocketImpl = sock_read" "sk_write SocketImpl = sock_write" "sk_isReadable SocketImpl = isReadable"
  "sk_isWriteable SocketImpl = isWriteable" "sk_close SocketImpl = sock_close"
  by (simp_all add: SocketImpl_def)

section \<open>The quit condition\<close>

definition NO_SIGNAL :: int where "NO_SIGNAL = 0"

definition sigHandler :: "int \<Rightarrow> 'u io \<Rightarrow> 'u io" where
  "sigHandler sigNo s = s\<lparr>io_signalStatus := sigNo\<rparr>"

text \<open>The argument is the signal delivered since the last check, if any.\<close>

definition quitCondition :: "int option \<Rightarrow> ('u io, bool) act" where
  "quitCondition sig =
     bindA (modA (case sig of None \<Rightarrow> id | Some sigNo \<Rightarrow> sigHandler sigNo))
       (\<lambda>_. getA (\<lambda>s. io_signalStatus s \<noteq> NO_SIGNAL))"

section \<open>What each call keeps\<close>

text \<open>The part of the state that writing cannot touch.\<close>

definition io_rest :: "'u io \<Rightarrow> 'u io" where
  "io_rest s = s\<lparr>io_sends := [], io_wire := []\<rparr>"

lemma io_rest_update:
  "io_rest s' = io_rest s \<longleftrightarrow> s' = s\<lparr>io_sends := io_sends s', io_wire := io_wire s'\<rparr>"
  by (cases s; cases s') (auto simp: io_rest_def)

lemma io_restD:
  assumes "io_rest s' = io_rest s"
  shows "io_recvs s' = io_recvs s" "io_polls s' = io_polls s" "io_fd_open s' = io_fd_open s"
    "io_closed s' = io_closed s" "io_signalStatus s' = io_signalStatus s"
    "io_log s' = io_log s" "io_user s' = io_user s"
  using assms by (cases s; cases s'; simp add: io_rest_def)+

lemma sock_write_rest: "sock_write b s = (r, s') \<Longrightarrow> io_rest s' = io_rest s"
  by (auto simp: sock_write_def io_rest_def Let_def split: list.splits send_answer.splits)

lemma take_min_length [simp]: "take (min (length b) n) b = take n b"
  by (simp add: min_def)

lemma sock_write_Inr:
  "sock_write b s = (Inr k, s') \<Longrightarrow>
    length (io_sends s') < length (io_sends s) \<and>
    (k = NUM_CONTINUE \<and> io_wire s' = io_wire s \<or>
     0 \<le> k \<and> k \<le> int (length b) \<and> io_wire s' = io_wire s @ take (nat k) b)"
  by (auto simp: sock_write_def Let_def split: list.splits send_answer.splits if_splits)

lemma sock_write_Inl: "sock_write b s = (Inl e, s') \<Longrightarrow> io_wire s' = io_wire s"
  by (auto simp: sock_write_def Let_def split: list.splits send_answer.splits if_splits)

end
