(* ===== verification/Tcp_Connection.thy ===== *)
theory Tcp_Connection
  imports Posix_Socket
begin

text \<open>
  \<^verbatim>\<open>class Connection\<close> of \<^verbatim>\<open>src/tcp/socks_tcp_handler.hpp\<close>, the object every handler writes
  through.

  \<^verbatim>\<open>send\<close> loops over the virtual \<^verbatim>\<open>Socket::write\<close>, so the loop \<open>send_loop\<close> takes the write
  operation as an argument; \<open>conn_send\<close> is the loop over \<^verbatim>\<open>SocketImpl::write\<close>. The loop has
  fuel: one unit per write, and as every write uses up one answer of the kernel, one more than the
  number of answers is enough (\<open>send_loop_fuel\<close>).

  Two interfaces are locales here: \<open>stream_socket\<close>, what \<^verbatim>\<open>send\<close> relies on from a socket, and
  \<open>connection\<close>, what the HTTP and WebSocket layers rely on from a connection. Both are interpreted
  on the model's own definitions.
\<close>

section \<open>The code\<close>

fun send_loop ::
  "(byte list \<Rightarrow> ('s, int) act) \<Rightarrow> nat \<Rightarrow> bool \<Rightarrow> byte list \<Rightarrow> size_t \<Rightarrow> ('s, size_t) act"
where
  "send_loop wr 0 closed buf numWritten = failA Starved"
| "send_loop wr (Suc fuel) closed buf numWritten =
     (if \<not> closed \<and> unat numWritten < length buf
      then bindA (wr (drop (unat numWritten) buf))
             (\<lambda>k. send_loop wr fuel closed buf (numWritten + of_int k))
      else retA numWritten)"

definition conn_send :: "byte list \<Rightarrow> ('u io, size_t) act" where
  "conn_send buf s =
     send_loop (sk_write SocketImpl) (Suc (length (io_sends s))) (io_closed s) buf 0 s"

definition conn_send_chars :: "string \<Rightarrow> ('u io, size_t) act" where
  "conn_send_chars buf = conn_send (bytes_of buf)"

definition conn_close :: "('u io, unit) act" where
  "conn_close = modA (\<lambda>s. s\<lparr>io_closed := True\<rparr>)"

definition isClosed :: "('u io, bool) act" where
  "isClosed = getA io_closed"

section \<open>The interface of a socket\<close>

text \<open>What a write may do: take a front part of the bytes and say how many, or take none and
  return \<^verbatim>\<open>NUM_CONTINUE\<close> or throw; a write uses up some of a finite number of answers.
  \<open>steady s\<close> says that no \<^verbatim>\<open>NUM_CONTINUE\<close> is pending, \<open>willing n s\<close> that the next \<open>n\<close> writes
  take at least one byte each.\<close>

locale stream_socket =
  fixes wr :: "byte list \<Rightarrow> ('s, int) act"
    and wire :: "'s \<Rightarrow> byte list"
    and answers :: "'s \<Rightarrow> nat"
    and steady :: "'s \<Rightarrow> bool"
    and willing :: "nat \<Rightarrow> 's \<Rightarrow> bool"
  assumes write_Inr: "wr b s = (Inr k, s') \<Longrightarrow>
      k = NUM_CONTINUE \<and> wire s' = wire s \<or>
      0 \<le> k \<and> k \<le> int (length b) \<and> wire s' = wire s @ take (nat k) b"
    and write_Inl: "wr b s = (Inl e, s') \<Longrightarrow> wire s' = wire s"
    and write_supply: "wr b s = (Inr k, s') \<Longrightarrow> answers s' < answers s"
    and write_steady: "steady s \<Longrightarrow> wr b s = (Inr k, s') \<Longrightarrow> k \<noteq> NUM_CONTINUE \<and> steady s'"
    and write_willing: "willing (Suc n) s \<Longrightarrow> b \<noteq> [] \<Longrightarrow>
      \<exists>k s'. wr b s = (Inr k, s') \<and> 0 < k \<and> willing n s'"
    and willing_mono: "willing n s \<Longrightarrow> m \<le> n \<Longrightarrow> willing m s"
    and willing_steady: "willing n s \<Longrightarrow> steady s"
    and willing_supply: "willing n s \<Longrightarrow> n \<le> answers s"
begin

lemma send_loop_fuel:
  "answers s < fuel \<Longrightarrow> answers s < fuel' \<Longrightarrow>
   send_loop wr fuel closed buf n s = send_loop wr fuel' closed buf n s"
proof (induction fuel arbitrary: fuel' n s)
  case 0
  then show ?case by simp
next
  case (Suc fuel)
  obtain f where f: "fuel' = Suc f"
    using Suc.prems(2) by (cases fuel') auto
  show ?case
  proof (cases "wr (drop (unat n) buf) s")
    case (Pair r s')
    show ?thesis
    proof (cases r)
      case (Inl e)
      with Pair show ?thesis by (simp add: f bindA_Inl)
    next
      case (Inr k)
      with Pair have "answers s' < answers s" by (auto intro: write_supply)
      with Suc.prems f have "answers s' < fuel" and "answers s' < f" by simp_all
      then have "send_loop wr fuel closed buf (n + of_int k) s' =
          send_loop wr f closed buf (n + of_int k) s'"
        by (rule Suc.IH)
      with Pair Inr show ?thesis by (cases closed) (simp_all add: f bindA_Inr)
    qed
  qed
qed

text \<open>Whatever happens, on a steady socket the peer gets a front part of the rest of the buffer,
  and all of it if the loop returns.\<close>

lemma unat_advance:
  "unat (n :: size_t) < len \<Longrightarrow> len < 2 ^ 64 \<Longrightarrow> 0 \<le> k \<Longrightarrow> k \<le> int (len - unat n) \<Longrightarrow>
   unat (n + of_int k) = unat n + nat k"
proof -
  assume a: "unat n < len" "len < 2 ^ 64" "0 \<le> k" "k \<le> int (len - unat n)"
  then obtain m where m: "k = int m" and "m \<le> len - unat n"
    by (metis nonneg_int_cases of_nat_le_iff)
  with a have "unat n + m < 2 ^ 64" by linarith
  then have "unat (n + of_nat m) = unat n + m"
    by (simp add: unat_word_ariths unat_of_nat)
  then show ?thesis by (simp add: m)
qed

lemma send_loop_steady:
  "steady s \<Longrightarrow> length buf < 2 ^ 64 \<Longrightarrow> unat n \<le> length buf \<Longrightarrow>
   send_loop wr fuel False buf n s = (r, s') \<Longrightarrow>
   \<exists>m. unat n \<le> m \<and> m \<le> length buf \<and> wire s' = wire s @ take (m - unat n) (drop (unat n) buf)
     \<and> (\<forall>n'. r = Inr n' \<longrightarrow> unat n' = length buf \<and> m = length buf)"
proof (induction fuel arbitrary: n s)
  case 0
  then show ?case by auto
next
  case (Suc fuel)
  show ?case
  proof (cases "unat n < length buf")
    case False
    with Suc.prems show ?thesis by auto
  next
    case True
    let ?b = "drop (unat n) buf"
    obtain q s1 where w: "wr ?b s = (q, s1)" by fastforce
    show ?thesis
    proof (cases q)
      case (Inl e)
      with w True Suc.prems write_Inl show ?thesis
        by (intro exI [of _ "unat n"]) (auto simp: bindA_app)
    next
      case (Inr k)
      with w Suc.prems(1) have st: "k \<noteq> NUM_CONTINUE" "steady s1"
        by (auto dest: write_steady)
      with w Inr have k: "0 \<le> k" "k \<le> int (length buf - unat n)"
        "wire s1 = wire s @ take (nat k) ?b"
        using write_Inr [of ?b s k s1] by auto
      have adv: "unat (n + of_int k) = unat n + nat k"
        using True Suc.prems(2) k(1,2) by (intro unat_advance)
      with k(1,2) True have le: "unat (n + of_int k) \<le> length buf" by linarith
      have run: "send_loop wr fuel False buf (n + of_int k) s1 = (r, s')"
        using Suc.prems(4) w Inr True by (simp add: bindA_Inr)
      obtain m where m: "unat n + nat k \<le> m" "m \<le> length buf"
        "wire s' = wire s1 @ take (m - (unat n + nat k)) (drop (unat n + nat k) buf)"
        "\<forall>n'. r = Inr n' \<longrightarrow> unat n' = length buf \<and> m = length buf"
        using Suc.IH [OF st(2) Suc.prems(2) le run] adv by auto
      have "take (nat k) ?b @ take (m - (unat n + nat k)) (drop (unat n + nat k) buf) =
          take (m - unat n) ?b"
        using m(1) by (simp add: take_add [symmetric] add.commute flip: drop_drop)
      with m k(3) show ?thesis by (intro exI [of _ m]) simp
    qed
  qed
qed

lemma send_loop_willing:
  "willing (length buf - unat n + j) s \<Longrightarrow> length buf < 2 ^ 64 \<Longrightarrow> unat n \<le> length buf \<Longrightarrow>
   answers s < fuel \<Longrightarrow>
   \<exists>n' s'. send_loop wr fuel False buf n s = (Inr n', s') \<and> willing j s'"
proof (induction fuel arbitrary: n s)
  case 0
  then show ?case by simp
next
  case (Suc fuel)
  show ?case
  proof (cases "unat n < length buf")
    case False
    with Suc.prems show ?thesis by simp
  next
    case True
    let ?b = "drop (unat n) buf"
    have "Suc (length buf - unat n + j - 1) = length buf - unat n + j"
      using True by linarith
    then have "willing (Suc (length buf - unat n + j - 1)) s"
      using Suc.prems(1) by (simp only:)
    moreover have "?b \<noteq> []" using True by simp
    ultimately obtain k s1 where w: "wr ?b s = (Inr k, s1)" "0 < k"
      and will: "willing (length buf - unat n + j - 1) s1"
      using write_willing by blast
    with write_Inr [OF w(1)] have k: "0 \<le> k" "k \<le> int (length buf - unat n)"
      by (auto simp: NUM_CONTINUE_def)
    have adv: "unat (n + of_int k) = unat n + nat k"
      using True Suc.prems(2) k by (intro unat_advance)
    have le: "unat (n + of_int k) \<le> length buf"
      using adv k True by linarith
    have "willing (length buf - unat (n + of_int k) + j) s1"
      using will w(2) adv k True by (elim willing_mono) linarith
    moreover have "answers s1 < fuel"
      using write_supply [OF w(1)] Suc.prems(4) by simp
    ultimately obtain n' s' where
      "send_loop wr fuel False buf (n + of_int k) s1 = (Inr n', s')" "willing j s'"
      using Suc.IH [OF _ Suc.prems(2) le] by blast
    with w True show ?thesis by (simp add: bindA_Inr)
  qed
qed

lemma send_loop_closed: "send_loop wr (Suc fuel) True buf n s = (Inr n, s)"
  by simp

end

section \<open>The socket of the POSIX context\<close>

definition io_steady :: "'u io \<Rightarrow> bool" where
  "io_steady s \<longleftrightarrow> (\<forall>e. Send_Failed e \<in> set (io_sends s) \<longrightarrow> \<not> retriable e)"

definition io_willing :: "nat \<Rightarrow> 'u io \<Rightarrow> bool" where
  "io_willing n s \<longleftrightarrow> n \<le> length (io_sends s) \<and> (\<forall>a \<in> set (io_sends s). \<exists>k > 0. a = Sent k)"

interpretation posix: stream_socket sock_write io_wire "\<lambda>s. length (io_sends s)" io_steady io_willing
proof
  fix b and s s' :: "'u io" and k
  assume w: "sock_write b s = (Inr k, s')"
  then show "k = NUM_CONTINUE \<and> io_wire s' = io_wire s \<or>
      0 \<le> k \<and> k \<le> int (length b) \<and> io_wire s' = io_wire s @ take (nat k) b"
    and "length (io_sends s') < length (io_sends s)"
    using sock_write_Inr by blast+
  assume "io_steady s"
  with w show "k \<noteq> NUM_CONTINUE \<and> io_steady s'"
    by (auto simp: sock_write_def io_steady_def NUM_CONTINUE_def Let_def
        split: list.splits send_answer.splits if_splits)
next
  fix b and s s' :: "'u io" and e
  assume "sock_write b s = (Inl e, s')"
  then show "io_wire s' = io_wire s" by (rule sock_write_Inl)
next
  fix n and s :: "'u io" and b :: "byte list"
  assume "io_willing (Suc n) s" and "b \<noteq> []"
  then show "\<exists>k s'. sock_write b s = (Inr k, s') \<and> 0 < k \<and> io_willing n s'"
    by (cases "io_sends s") (auto simp: sock_write_def io_willing_def Let_def)
qed (auto simp: io_willing_def io_steady_def)

lemma send_loop_rest: "send_loop sock_write fuel closed buf n s = (r, s') \<Longrightarrow> io_rest s' = io_rest s"
proof (induction fuel arbitrary: n s)
  case 0
  then show ?case by simp
next
  case (Suc fuel)
  then show ?case
    by (auto simp: bindA_app split: if_splits prod.splits sum.splits dest!: sock_write_rest)
qed

lemma conn_send_rest: "conn_send b s = (r, s') \<Longrightarrow> io_rest s' = io_rest s"
  unfolding conn_send_def SocketImpl_simps by (rule send_loop_rest)

lemma conn_send_closed: "io_closed s \<Longrightarrow> conn_send b s = (Inr 0, s)"
  by (simp add: conn_send_def)

lemma conn_send_steady:
  assumes "io_steady s" and "length buf < 2 ^ 64" and "\<not> io_closed s"
    and "conn_send buf s = (r, s')"
  shows "\<exists>m \<le> length buf. io_wire s' = io_wire s @ take m buf
    \<and> (\<forall>n'. r = Inr n' \<longrightarrow> unat n' = length buf \<and> m = length buf)"
  using posix.send_loop_steady [OF assms(1,2), of 0] assms(3,4)
  by (auto simp: conn_send_def simp del: send_loop.simps)

lemma conn_send_willing:
  assumes "io_willing (length buf + j) s" and "length buf < 2 ^ 64" and "\<not> io_closed s"
  shows "\<exists>s'. conn_send buf s = (Inr (of_nat (length buf)), s') \<and> io_willing j s'
    \<and> io_wire s' = io_wire s @ buf \<and> io_rest s' = io_rest s"
proof -
  have "io_steady s" using assms(1) by (rule posix.willing_steady)
  moreover obtain n' s' where run: "conn_send buf s = (Inr n', s')" and will: "io_willing j s'"
    using posix.send_loop_willing [of buf 0 j s "Suc (length (io_sends s))"] assms
    by (auto simp: conn_send_def simp del: send_loop.simps)
  ultimately obtain m where "m \<le> length buf" "io_wire s' = io_wire s @ take m buf"
    "unat n' = length buf \<and> m = length buf"
    using conn_send_steady assms(2,3) by blast
  moreover from this have "n' = of_nat (length buf)"
    by (metis of_nat_unat ucast_id unsigned_of_nat unat_of_nat word_unat_eq_iff)
  ultimately show ?thesis
    using run will conn_send_rest [OF run] by simp
qed

section \<open>The interface of a connection\<close>

text \<open>\<open>delivers ready out rest m b\<close>: from any state that is ready to take \<open>b\<close> (and \<open>n\<close> bytes
  more), \<open>m\<close> returns, the bytes \<open>b\<close> and nothing else have gone out, it is ready for the \<open>n\<close> bytes,
  and nothing but the output has changed.\<close>

definition delivers ::
  "(nat \<Rightarrow> 's \<Rightarrow> bool) \<Rightarrow> ('s \<Rightarrow> byte list) \<Rightarrow> ('s \<Rightarrow> 's) \<Rightarrow> ('s, 'a) act \<Rightarrow> byte list \<Rightarrow> bool"
where
  "delivers ready out rest m b \<longleftrightarrow>
     (\<forall>n s. ready (length b + n) s \<longrightarrow>
       (\<exists>x s'. m s = (Inr x, s') \<and> out s' = out s @ b \<and> ready n s' \<and> rest s' = rest s))"

locale connection =
  fixes send :: "byte list \<Rightarrow> ('s, size_t) act"
    and close :: "('s, unit) act"
    and closed :: "'s \<Rightarrow> bool"
    and out :: "'s \<Rightarrow> byte list"
    and ready :: "nat \<Rightarrow> 's \<Rightarrow> bool"
    and rest :: "'s \<Rightarrow> 's"
  assumes send_ready: "ready (length b + n) s \<Longrightarrow> length b < 2 ^ 64 \<Longrightarrow>
      \<exists>s'. send b s = (Inr (of_nat (length b)), s') \<and> out s' = out s @ b \<and> ready n s' \<and> rest s' = rest s"
    and send_closed: "closed s \<Longrightarrow> send b s = (Inr 0, s)"
    and close_closed: "close s = (r, s') \<Longrightarrow> r = Inr () \<and> closed s' \<and> out s' = out s"
    and ready_open: "ready n s \<Longrightarrow> \<not> closed s"
begin

abbreviation sends :: "('s, 'a) act \<Rightarrow> byte list \<Rightarrow> bool" where
  "sends \<equiv> delivers ready out rest"

lemma sends_send [intro]: "length b < 2 ^ 64 \<Longrightarrow> sends (send b) b"
  using send_ready unfolding delivers_def by blast

lemma sends_ret [intro]: "sends (retA x) []"
  by (simp add: delivers_def)

lemma sends_bind [intro]:
  assumes "sends m b" and "\<And>x. sends (f x) c"
  shows "sends (bindA m f) (b @ c)"
  unfolding delivers_def
proof (intro allI impI)
  fix n s
  assume "ready (length (b @ c) + n) s"
  then obtain x s1 where m: "m s = (Inr x, s1)" "out s1 = out s @ b" "rest s1 = rest s"
    and r: "ready (length c + n) s1"
    using assms(1) unfolding delivers_def by (metis add.assoc length_append)
  obtain y s2 where f: "f x s1 = (Inr y, s2)" "out s2 = out s1 @ c" "ready n s2" "rest s2 = rest s1"
    using assms(2) r unfolding delivers_def by metis
  from m f show "\<exists>y s'. bindA m f s = (Inr y, s') \<and> out s' = out s @ b @ c \<and> ready n s' \<and> rest s' = rest s"
    by (simp add: bindA_Inr)
qed

lemma sends_then [intro]:
  assumes "sends m b" and "sends k c"
  shows "sends (thenA m k) (b @ c)"
  unfolding thenA_def using assms by (intro sends_bind)

lemma sends_run:
  assumes "sends m b" and "ready (length b) s"
  obtains x s' where "m s = (Inr x, s')" and "out s' = out s @ b" and "rest s' = rest s"
    and "ready 0 s'"
  using assms unfolding delivers_def by (metis add.right_neutral)

lemma send_after_close: "close s = (r, s') \<Longrightarrow> send b s' = (Inr 0, s')"
  using close_closed send_closed by blast

end

definition conn_ready :: "nat \<Rightarrow> 'u io \<Rightarrow> bool" where
  "conn_ready n s \<longleftrightarrow> \<not> io_closed s \<and> io_willing n s"

interpretation tcp: connection conn_send conn_close io_closed io_wire conn_ready io_rest
proof
  fix b :: "byte list" and n and s :: "'u io"
  assume "conn_ready (length b + n) s" and len: "length b < 2 ^ 64"
  then have "io_willing (length b + n) s" and "\<not> io_closed s"
    by (simp_all add: conn_ready_def)
  from conn_send_willing [OF this(1) len this(2)] obtain s' where
    "conn_send b s = (Inr (of_nat (length b)), s')" "io_willing n s'" "io_wire s' = io_wire s @ b"
    "io_rest s' = io_rest s"
    by blast
  moreover from this have "\<not> io_closed s'"
    using \<open>\<not> io_closed s\<close> io_restD(4) by metis
  ultimately show "\<exists>s'. conn_send b s = (Inr (of_nat (length b)), s') \<and> io_wire s' = io_wire s @ b
      \<and> conn_ready n s' \<and> io_rest s' = io_rest s"
    by (auto simp: conn_ready_def)
qed (auto simp: conn_send_closed conn_close_def conn_ready_def)

section \<open>Polite operations\<close>

text \<open>What a handler may do to its connection: anything but close or reopen the descriptor
  or read from it, which is the worker's, and nothing can take back \<^verbatim>\<open>close\<close>.\<close>

definition polite :: "('u io, 'a) act \<Rightarrow> bool" where
  "polite m \<longleftrightarrow> (\<forall>b. keeps (\<lambda>i. io_fd_open i = b) m)
     \<and> (\<forall>rs. keeps (\<lambda>i. io_recvs i = rs) m) \<and> keeps io_closed m"

lemma polite_fd: "polite m \<Longrightarrow> io_fd_open (snd (m i)) = io_fd_open i"
  unfolding polite_def keeps_def by blast

lemma polite_recvs: "polite m \<Longrightarrow> io_recvs (snd (m i)) = io_recvs i"
  unfolding polite_def keeps_def by blast

lemma polite_closed: "polite m \<Longrightarrow> io_closed i \<Longrightarrow> io_closed (snd (m i))"
  unfolding polite_def keeps_def by blast

lemma polite_basic [simp]:
  "polite (retA x)" "polite (failA e)" "polite (liftR r)" "polite (getA f)" "polite isClosed"
  "polite (log_io l)" "polite conn_close"
  by (simp_all add: polite_def isClosed_def log_io_def conn_close_def keeps_modA)

lemma polite_bindA [intro]: "polite m \<Longrightarrow> (\<And>x. polite (f x)) \<Longrightarrow> polite (bindA m f)"
  by (simp add: polite_def keeps_bindA)

lemma polite_thenA [intro]: "polite m \<Longrightarrow> polite k \<Longrightarrow> polite (thenA m k)"
  by (simp add: polite_def keeps_thenA)

lemma conn_send_keeps_fd:
  "io_fd_open (snd (conn_send b i)) = io_fd_open i \<and> io_closed (snd (conn_send b i)) = io_closed i
    \<and> io_recvs (snd (conn_send b i)) = io_recvs i"
proof -
  obtain r i' where run: "conn_send b i = (r, i')" by fastforce
  from io_restD(1,3,4) [OF conn_send_rest [OF run]] run show ?thesis by simp
qed

lemma polite_send [simp]: "polite (conn_send b)" "polite (conn_send_chars t)"
  by (simp_all add: polite_def keeps_def conn_send_chars_def conn_send_keeps_fd)

section \<open>Properties\<close>

text \<open>C10. \<^verbatim>\<open>send\<close> terminates and is complete: if the kernel takes at least one byte per call
  (and there are at least as many answers as bytes), the loop returns the length, the peer gets
  exactly the buffer, however the kernel cuts it up, and nothing else changes.\<close>

theorem conn_send_complete:
  assumes "\<not> io_closed s" and "length buf < 2 ^ 64" and "length buf \<le> length (io_sends s)"
    and "\<forall>a \<in> set (io_sends s). \<exists>k > 0. a = Sent k"
  shows "\<exists>s'. conn_send buf s = (Inr (of_nat (length buf)), s')
    \<and> io_wire s' = io_wire s @ buf \<and> io_rest s' = io_rest s"
proof -
  have "conn_ready (length buf + 0) s"
    using assms by (simp add: conn_ready_def io_willing_def)
  then show ?thesis
    using tcp.send_ready assms(2) by blast
qed

theorem conn_send_complete_witness:
  "\<exists>s'. conn_send [1, 2, 3] (io_start [Sent 1, Sent 9, Sent 1] [] [] ()) = (Inr 3, s') \<and> io_wire s' = [1, 2, 3]"
  using conn_send_complete [of "(io_start [Sent 1, Sent 9, Sent 1] [] [] ())" "[1, 2, 3]"]
  by auto

text \<open>C26. What the peer receives is always a front part of the buffer, in order and without a gap,
  also when \<^verbatim>\<open>send\<close> throws or has not returned, as long as no write is interrupted
  (\<^verbatim>\<open>EINTR\<close>, \<^verbatim>\<open>EAGAIN\<close>); if it returns, it is the whole buffer.\<close>

theorem conn_send_prefix:
  assumes "\<forall>e. Send_Failed e \<in> set (io_sends s) \<longrightarrow> \<not> retriable e"
    and "\<not> io_closed s" and "length buf < 2 ^ 64" and "conn_send buf s = (r, s')"
  shows "\<exists>m \<le> length buf. io_wire s' = io_wire s @ take m buf
    \<and> (\<forall>n. r = Inr n \<longrightarrow> unat n = length buf \<and> m = length buf)"
  using assms by (intro conn_send_steady) (simp_all add: io_steady_def)

theorem conn_send_prefix_witness:
  "\<exists>m \<le> 3. [1, 2 :: byte] = [] @ take m [1, 2, 3]"
proof -
  let ?s = "(io_start [Sent 2, Send_Failed (E_OTHER 104)] [] [] ())"
  have "conn_send [1, 2, 3] ?s =
      (Inl (Throw (Errno_Error (E_OTHER 104))), ?s\<lparr>io_sends := [], io_wire := [1, 2]\<rparr>)"
    by (simp add: conn_send_def sock_write_def bindA_app retriable_def)
  from conn_send_prefix [OF _ _ _ this] show ?thesis
    by (simp add: retriable_def numeral_3_eq_3)
qed

text \<open>A closed connection sends nothing: after \<^verbatim>\<open>close\<close> every \<^verbatim>\<open>send\<close> returns 0 and leaves
  the state alone.\<close>

theorem conn_send_after_close:
  "bindA conn_close (\<lambda>_. conn_send buf) s = (Inr 0, s\<lparr>io_closed := True\<rparr>)"
  by (simp add: conn_close_def conn_send_closed)

text \<open>An interrupted first write makes \<^verbatim>\<open>send\<close> report success without sending: the
  \<^verbatim>\<open>NUM_CONTINUE\<close> of \<^verbatim>\<open>write\<close>, -1, is added to the unsigned count, which becomes
  \<^verbatim>\<open>SIZE_MAX\<close> and ends the loop with nothing written.\<close>

theorem conn_send_interrupted:
  assumes "io_sends s = Send_Failed e # as" and "retriable e" and "\<not> io_closed s"
    and "buf \<noteq> []" and "length buf < 2 ^ 64"
  shows "conn_send buf s = (Inr (2 ^ 64 - 1), s\<lparr>io_sends := as\<rparr>)"
proof -
  have "\<not> unat (- 1 :: size_t) < length buf"
    using assms(5) by (simp add: unsigned_minus_1_eq_mask mask_eq_exp_minus_1)
  then show ?thesis
    using assms by (simp add: conn_send_def sock_write_def bindA_app NUM_CONTINUE_def)
qed

theorem conn_send_interrupted_witness:
  "\<exists>s'. conn_send [1, 2, 3] (io_start [Send_Failed EAGAIN] [] [] ()) = (Inr (2 ^ 64 - 1), s') \<and> io_wire s' = []"
  using conn_send_interrupted [of "(io_start [Send_Failed EAGAIN] [] [] ())" EAGAIN "[]" "[1, 2, 3]"]
  by (simp add: retriable_def)

text \<open>A write interrupted after \<open>k\<close> bytes have gone out moves the position one byte back: the
  peer gets the \<open>k\<close>-th byte twice, and \<^verbatim>\<open>send\<close> returns the length all the same.\<close>

theorem conn_send_duplicates:
  assumes "io_sends s = Sent k # Send_Failed e # Sent m # as" and "retriable e"
    and "\<not> io_closed s" and "0 < k" and "k < length buf" and "length buf < 2 ^ 64"
    and "length buf - k < m"
  shows "conn_send buf s = (Inr (of_nat (length buf)),
    s\<lparr>io_sends := as, io_wire := io_wire s @ take k buf @ drop (k - 1) buf\<rparr>)"
proof -
  have k: "unat (of_nat k :: size_t) = k"
    using assms(5,6) by (simp add: unat_of_nat)
  have "of_nat k - 1 = (of_nat (k - 1) :: size_t)"
    using assms(4) by (simp add: of_nat_diff)
  then have k1: "unat (of_nat k - 1 :: size_t) = k - 1"
    using assms(5,6) by (simp add: unat_of_nat)
  have m: "take m (drop (k - 1) buf) = drop (k - 1) buf"
    using assms(4,5,7) by simp
  have pos: "of_nat k - 1 + of_nat (length buf - (k - 1)) = (of_nat (length buf) :: size_t)"
    using assms(4,5) by (simp add: of_nat_diff)
  have len: "unat (of_nat (length buf) :: size_t) = length buf"
    using assms(6) by (simp add: unat_of_nat)
  have "k - 1 < length buf" and "buf \<noteq> []"
    using assms(5) by auto
  then show ?thesis
    using assms k k1 m pos len
    by (simp add: conn_send_def sock_write_def bindA_app NUM_CONTINUE_def Let_def)
qed

theorem conn_send_duplicates_witness:
  "\<exists>s'. conn_send [1, 2, 3] (io_start [Sent 2, Send_Failed EAGAIN, Sent 2] [] [] ()) = (Inr 3, s') \<and> io_wire s' = [1, 2, 2, 3]"
  using conn_send_duplicates [of "(io_start [Sent 2, Send_Failed EAGAIN, Sent 2] [] [] ())" 2 EAGAIN 2 "[]" "[1, 2, 3]"]
  by (simp add: retriable_def)

end
