(* ===== verification/Http_Handler.thy ===== *)
theory Http_Handler
  imports Http_Request Tcp_Connection
begin

text \<open>
  Answering a request: \<^verbatim>\<open>class HttpConnection\<close>, the handlers and the factories of
  \<^verbatim>\<open>src/http/socks_http_handler.hpp\<close> and \<^verbatim>\<open>socks_http_handler.cpp\<close>, and the handler of
  \<^verbatim>\<open>examples/http_simple/main.cpp\<close>.

  An \<^verbatim>\<open>HttpConnection\<close> only holds the pointer to the TCP connection, so its operations are
  actions on the connection's \<open>io\<close>; a handler is its \<^verbatim>\<open>do_GET\<close>, and a factory the action that
  makes one. The files a handler reads are the parameter \<open>fs\<close>: which paths open for reading and
  what they contain, and the position of their end, which \<^verbatim>\<open>get_file_size\<close> asks for in a second
  open. The files do not change while one request is answered.
\<close>

section \<open>The code\<close>

type_synonym 'u http_handler = "request_info \<Rightarrow> ('u io, unit) act"

definition NEWLINE :: string where "NEWLINE = CRLF"

definition end_headers :: "('u io, unit) act" where
  "end_headers = thenA (conn_send_chars NEWLINE) (retA ())"

definition http_response_code :: "string \<Rightarrow> ('u io, unit) act" where
  "http_response_code responseCode =
     thenA (conn_send_chars
              (HTTP_VERSION @ '' '' @ responseCode @ NEWLINE @ ''Server: CPP Socks'' @ NEWLINE))
           (retA ())"

text \<open>A \<^verbatim>\<open>std::streampos\<close> prints as a signed number.\<close>

definition dec_int :: "int \<Rightarrow> string" where
  "dec_int z = (if z < 0 then CHR ''-'' # dec (nat (- z)) else dec (nat z))"

definition http_200 :: "int \<Rightarrow> ('u io, unit) act" where
  "http_200 contentLength =
     thenA (http_response_code ''200 OK'')
    (thenA (conn_send_chars (''Content-Length: '' @ dec_int contentLength @ NEWLINE))
           end_headers)"

definition http_403 :: "('u io, unit) act" where
  "http_403 = http_response_code ''403 Forbidden''"

definition http_404 :: "('u io, unit) act" where
  "http_404 = http_response_code ''404 Not Found''"

definition http_500 :: "('u io, unit) act" where
  "http_500 = http_response_code ''500 Internal Server Error''"

definition http_write :: "byte list \<Rightarrow> ('u io, unit) act" where
  "http_write buf = thenA (conn_send buf) (retA ())"

record file_system =
  fs_open :: "string \<Rightarrow> byte list option"
  fs_end :: "string \<Rightarrow> int"

text \<open>\<^verbatim>\<open>tellg\<close> of a stream that failed to open is -1.\<close>

definition get_file_size :: "file_system \<Rightarrow> string \<Rightarrow> int" where
  "get_file_size fs path = (case fs_open fs path of None \<Rightarrow> -1 | Some _ \<Rightarrow> fs_end fs path)"

definition BUF_SIZE :: nat where "BUF_SIZE = 4096"

text \<open>The \<^verbatim>\<open>do\<close> loop over what is left of the file: a read takes at most \<^verbatim>\<open>BUF_SIZE\<close> bytes and
  \<^verbatim>\<open>gcount\<close> says how many; a read at the end takes none.\<close>

function send_file :: "byte list \<Rightarrow> ('u io, unit) act" where
  "send_file left =
     (let buf = take BUF_SIZE left; gcount = length buf in
      thenA (http_write buf) (if gcount > 0 then send_file (drop BUF_SIZE left) else retA ()))"
  by pat_completeness auto
termination
  by (relation "measure length") (auto simp: BUF_SIZE_def)

declare send_file.simps [simp del]

definition served_path :: "string \<Rightarrow> string" where
  "served_path path =
     (if path = [] \<or> path = ''/'' then ''index.html''
      else if hd path = CHR ''/'' then tl path
      else path)"

text \<open>\<^verbatim>\<open>HttpFileHandler::do_GET\<close>; the member \<^verbatim>\<open>basePath\<close> is there and is not used.\<close>

definition file_do_GET :: "file_system \<Rightarrow> string \<Rightarrow> 'u http_handler" where
  "file_do_GET fs basePath requestInfo =
     bindA (liftR (request_path requestInfo)) (\<lambda>path0.
     let path = served_path path0 in
     if find_str ''..'' path \<noteq> None then http_403
     else (case fs_open fs path of
             None \<Rightarrow> thenA (log_io (Log_Open_Failed path)) http_404
           | Some content \<Rightarrow>
               thenA (http_200 (get_file_size fs path)) (send_file content)))"

definition null_do_GET :: "'u http_handler" where
  "null_do_GET requestInfo = retA ()"

type_synonym 'u http_handler_factory = "('u io, 'u http_handler) act"

definition file_handler_factory :: "file_system \<Rightarrow> string \<Rightarrow> 'u http_handler_factory" where
  "file_handler_factory fs basePath = retA (file_do_GET fs basePath)"

definition null_handler_factory :: "'u http_handler_factory" where
  "null_handler_factory = retA null_do_GET"

text \<open>The handler of the example \<^verbatim>\<open>http_simple\<close>: \<^verbatim>\<open>at("Host")\<close> throws when there is no such
  field.\<close>

definition simple_MSG :: string where "simple_MSG = ''Hello, World!'' @ CRLF"

definition header_at :: "headers \<Rightarrow> string \<Rightarrow> string res" where
  "header_at headers key = (case headers key of None \<Rightarrow> Inl (Throw Out_Of_Range) | Some v \<Rightarrow> Inr v)"

definition simple_do_GET :: "'u http_handler" where
  "simple_do_GET requestInfo =
     bindA (liftR (request_path requestInfo)) (\<lambda>path.
     thenA (log_io (Log_Info (''Requested path: '' @ path)))
    (bindA (liftR (header_at (ri_headers requestInfo) ''Host'')) (\<lambda>host.
     thenA (log_io (Log_Info (''Host: '' @ host)))
    (thenA (http_200 (int (length simple_MSG)))
           (http_write (bytes_of simple_MSG))))))"

section \<open>What a response puts on the wire\<close>

definition response_head :: "string \<Rightarrow> string" where
  "response_head code = ''HTTP/1.1 '' @ code @ CRLF @ ''Server: CPP Socks'' @ CRLF"

definition ok_head :: "int \<Rightarrow> string" where
  "ok_head n = response_head ''200 OK'' @ ''Content-Length: '' @ dec_int n @ CRLF @ CRLF"

abbreviation (input) says :: "('u io, 'a) act \<Rightarrow> byte list \<Rightarrow> bool" where
  "says m b \<equiv> delivers conn_ready io_wire io_rest m b"

lemma says_chars: "length t < 2 ^ 64 \<Longrightarrow> says (thenA (conn_send_chars t) (retA ())) (bytes_of t)"
  using tcp.sends_then [OF tcp.sends_send tcp.sends_ret, of "bytes_of t" "()"]
  by (simp add: conn_send_chars_def)

lemma says_http_write: "length b < 2 ^ 64 \<Longrightarrow> says (http_write b) b"
  using tcp.sends_then [OF tcp.sends_send tcp.sends_ret, of b "()"] by (simp add: http_write_def)

lemma says_response_code:
  "length code < 2 ^ 63 \<Longrightarrow> says (http_response_code code) (bytes_of (response_head code))"
  using says_chars [of "response_head code"]
  by (simp add: http_response_code_def response_head_def NEWLINE_def HTTP_VERSION_def CRLF_def)

lemma dec_length: "length (dec n) \<le> Suc n"
proof (induction n rule: dec.induct)
  case (1 n)
  show ?case
  proof (cases "n < 10")
    case True
    then show ?thesis by (subst dec.simps) simp
  next
    case False
    with 1 have "length (dec (n div 10)) \<le> Suc (n div 10)" by simp
    with False show ?thesis by (subst dec.simps) simp
  qed
qed

lemma dec_int_length: "\<bar>z\<bar> < 2 ^ 63 \<Longrightarrow> length (dec_int z) < 2 ^ 63 + 2"
  using dec_length [of "nat \<bar>z\<bar>"] by (auto simp: dec_int_def)

lemma says_http_200:
  assumes "\<bar>n\<bar> < 2 ^ 63"
  shows "says (http_200 n) (bytes_of (ok_head n))"
proof -
  have head: "says (http_response_code ''200 OK'') (bytes_of (response_head ''200 OK''))"
    by (rule says_response_code)
      simp
  have len: "says (conn_send_chars (''Content-Length: '' @ dec_int n @ NEWLINE))
      (bytes_of (''Content-Length: '' @ dec_int n @ NEWLINE))"
    unfolding conn_send_chars_def
    by (rule tcp.sends_send) (use dec_int_length [OF assms] in \<open>simp add: NEWLINE_def CRLF_def\<close>)
  have "says end_headers (bytes_of NEWLINE)"
    unfolding end_headers_def by (rule says_chars) (simp add: NEWLINE_def CRLF_def)
  from tcp.sends_then [OF head tcp.sends_then [OF len this]] show ?thesis
    unfolding http_200_def ok_head_def NEWLINE_def bytes_of_append append_assoc .
qed

lemma BUF_SIZE_simps [simp]:
  "take BUF_SIZE xs = [] \<longleftrightarrow> xs = []" "length (take BUF_SIZE xs) < 2 ^ 64"
  by (simp_all add: BUF_SIZE_def min_def)

lemma send_file_Nil: "send_file [] = thenA (http_write []) (retA ())"
  by (subst send_file.simps) simp

lemma send_file_more:
  "left \<noteq> [] \<Longrightarrow>
   send_file left = thenA (http_write (take BUF_SIZE left)) (send_file (drop BUF_SIZE left))"
  by (subst send_file.simps) (simp add: Let_def BUF_SIZE_def)

lemma says_send_file: "says (send_file content) content"
proof (induction content rule: send_file.induct)
  case (1 left)
  have chunk: "says (http_write (take BUF_SIZE left)) (take BUF_SIZE left)"
    by (rule says_http_write) (rule BUF_SIZE_simps)
  show ?case
  proof (cases "left = []")
    case True
    with tcp.sends_then [OF chunk tcp.sends_ret, of "()"] show ?thesis
      by (simp add: send_file_Nil)
  next
    case False
    then have "0 < length (take BUF_SIZE left)"
      unfolding length_greater_0_conv BUF_SIZE_simps .
    from tcp.sends_then [OF chunk "1.IH" [OF refl refl this]] show ?thesis
      using False by (simp add: send_file_more)
  qed
qed

section \<open>The file handler\<close>

text \<open>Enough answers for \<open>n\<close> bytes, each taking at least one.\<close>

lemma conn_readyI:
  "\<not> io_closed s \<Longrightarrow> n \<le> length (io_sends s) \<Longrightarrow> \<forall>a \<in> set (io_sends s). \<exists>k > 0. a = Sent k \<Longrightarrow>
   conn_ready n s"
  by (simp add: conn_ready_def io_willing_def)

lemma conn_ready_log [simp]: "conn_ready n (s\<lparr>io_log := l\<rparr>) = conn_ready n s"
  by (simp add: conn_ready_def io_willing_def)

lemma file_do_GET_forbidden:
  "request_path ri = Inr path \<Longrightarrow> find_str ''..'' (served_path path) \<noteq> None \<Longrightarrow>
   file_do_GET fs basePath ri = http_403"
  unfolding file_do_GET_def by (simp only: bindA_simps Let_def if_True simp_thms)

lemma file_do_GET_missing:
  "request_path ri = Inr path \<Longrightarrow> find_str ''..'' (served_path path) = None \<Longrightarrow>
   fs_open fs (served_path path) = None \<Longrightarrow>
   file_do_GET fs basePath ri = thenA (log_io (Log_Open_Failed (served_path path))) http_404"
  unfolding file_do_GET_def by (simp only: bindA_simps Let_def if_False simp_thms option.case)

lemma file_do_GET_found:
  "request_path ri = Inr path \<Longrightarrow> find_str ''..'' (served_path path) = None \<Longrightarrow>
   fs_open fs (served_path path) = Some content \<Longrightarrow>
   file_do_GET fs basePath ri = thenA (http_200 (fs_end fs (served_path path))) (send_file content)"
  unfolding file_do_GET_def get_file_size_def
  by (simp only: bindA_simps Let_def if_False simp_thms option.case)

lemma says_file:
  assumes "request_path ri = Inr path" and "find_str ''..'' (served_path path) = None"
    and "fs_open fs (served_path path) = Some content" and "\<bar>fs_end fs (served_path path)\<bar> < 2 ^ 63"
  shows "says (file_do_GET fs basePath ri) (bytes_of (ok_head (fs_end fs (served_path path))) @ content)"
  unfolding file_do_GET_found [OF assms(1-3)]
  using says_http_200 [OF assms(4)] says_send_file by (rule tcp.sends_then)

lemma says_unit_run:
  assumes "says m b" and "conn_ready (length b) s"
  shows "\<exists>s'. m s = (Inr (), s') \<and> io_wire s' = io_wire s @ b \<and> io_rest s' = io_rest s"
  using tcp.sends_run [OF assms] by (metis unit.exhaust)

lemma says_404: "says http_404 (bytes_of (response_head ''404 Not Found''))"
  unfolding http_404_def by (rule says_response_code) simp

lemma says_403: "says http_403 (bytes_of (response_head ''403 Forbidden''))"
  unfolding http_403_def by (rule says_response_code) simp

section \<open>Properties\<close>

text \<open>C20. Serving a file: when the path the request names can be opened and has no \<^verbatim>\<open>..\<close> in it,
  the peer gets the status line, the server field, the content length and the empty line, then
  every byte of the file, in chunks of 4096 the peer cannot tell apart; nothing but the output
  changes. A path of \<^verbatim>\<open>""\<close> or \<^verbatim>\<open>"/"\<close> is \<^verbatim>\<open>index.html\<close>.\<close>

theorem file_GET_serves:
  assumes "request_path ri = Inr path" and "find_str ''..'' (served_path path) = None"
    and "fs_open fs (served_path path) = Some content"
    and "fs_end fs (served_path path) = int (length content)" and "length content < 2 ^ 63"
    and "\<not> io_closed s" and "\<forall>a \<in> set (io_sends s). \<exists>k > 0. a = Sent k"
    and "length (ok_head (int (length content))) + length content \<le> length (io_sends s)"
  shows "\<exists>s'. file_do_GET fs basePath ri s = (Inr (), s')
    \<and> io_wire s' = io_wire s @ bytes_of (ok_head (int (length content))) @ content
    \<and> io_rest s' = io_rest s"
proof (rule says_unit_run)
  show "says (file_do_GET fs basePath ri) (bytes_of (ok_head (int (length content))) @ content)"
    using says_file [OF assms(1-3)] assms(4,5) by simp
  show "conn_ready (length (bytes_of (ok_head (int (length content))) @ content)) s"
    using assms(6-8) by (intro conn_readyI) simp_all
qed

definition request_for :: "string \<Rightarrow> request_info" where
  "request_for path =
     \<lparr>ri_requestType = GET, ri_path = path @ replicate (MAX_PATH_LEN - length path) NUL,
      ri_headers = Map.empty\<rparr>"

lemma request_path_request_for:
  "NUL \<notin> set path \<Longrightarrow> length path < MAX_PATH_LEN \<Longrightarrow> request_path (request_for path) = Inr path"
  using c_str_append [of path "replicate (MAX_PATH_LEN - Suc (length path)) NUL"]
  by (simp add: request_path_def request_for_def Suc_diff_Suc flip: replicate_Suc)

theorem file_GET_serves_witness:
  "\<exists>s'. file_do_GET \<lparr>fs_open = [''index.html'' \<mapsto> [104, 105]], fs_end = \<lambda>_. 2\<rparr> ''/tmp'' (request_for ''/'')
      (io_start (replicate 100 (Sent 1)) [] [] ()) = (Inr (), s')
    \<and> io_wire s' = bytes_of (ok_head 2) @ [104, 105]"
proof -
  have path: "request_path (request_for ''/'') = Inr ''/''"
    by (rule request_path_request_for) (simp_all add: NUL_def MAX_PATH_LEN_def)
  have "length (ok_head 2) \<le> 90"
    by (simp add: ok_head_def response_head_def CRLF_def dec_int_def dec.simps)
  with file_GET_serves [OF path, of "\<lparr>fs_open = [''index.html'' \<mapsto> [104, 105]], fs_end = \<lambda>_. 2\<rparr>"
      "[104, 105]" "io_start (replicate 100 (Sent 1)) [] [] ()" "''/tmp''"]
  show ?thesis by (auto simp: served_path_def)
qed

text \<open>C28. The two error answers: a path that cannot be opened is a 404 and is logged, one with
  \<^verbatim>\<open>..\<close> in it a 403. The bytes are the status line and the server field, with no empty line
  after them: the head of an error response never ends, the peer has to wait for the close.\<close>

theorem file_GET_errors:
  assumes "request_path ri = Inr path" and "\<not> io_closed s"
    and "\<forall>a \<in> set (io_sends s). \<exists>k > 0. a = Sent k" and "50 \<le> length (io_sends s)"
    and "find_str ''..'' (served_path path) \<noteq> None \<or> fs_open fs (served_path path) = None"
    and "code = (if find_str ''..'' (served_path path) = None then ''404 Not Found'' else ''403 Forbidden'')"
    and "lines = (if find_str ''..'' (served_path path) = None then [Log_Open_Failed (served_path path)] else [])"
  shows "(\<exists>s'. file_do_GET fs basePath ri s = (Inr (), s')
      \<and> io_wire s' = io_wire s @ bytes_of (response_head code)
      \<and> io_rest s' = io_rest (s\<lparr>io_log := io_log s @ lines\<rparr>))
    \<and> find_str (CRLF @ CRLF) (response_head code) = None"
proof (cases "find_str ''..'' (served_path path) = None")
  case True
  let ?s = "s\<lparr>io_log := io_log s @ [Log_Open_Failed (served_path path)]\<rparr>"
  have code: "code = ''404 Not Found''" and ls: "lines = [Log_Open_Failed (served_path path)]"
    using True assms(6,7) by (simp_all only: if_True simp_thms)
  have no_end: "find_str (CRLF @ CRLF) (response_head code) = None"
    unfolding code by code_simp
  have "conn_ready (length (bytes_of (response_head code))) ?s"
    unfolding conn_ready_log unfolding code
    using assms(2-4) by (intro conn_readyI) (simp_all add: response_head_def CRLF_def)
  then obtain s' where run: "http_404 ?s = (Inr (), s')"
    "io_wire s' = io_wire ?s @ bytes_of (response_head code)" "io_rest s' = io_rest ?s"
    using says_unit_run [OF says_404] unfolding code by blast
  have "fs_open fs (served_path path) = None"
    using True assms(5) by (simp only: simp_thms)
  then have "file_do_GET fs basePath ri s = http_404 ?s"
    unfolding file_do_GET_missing [OF assms(1) True \<open>fs_open fs (served_path path) = None\<close>]
    by (simp add: log_io_def)
  with run no_end ls show ?thesis by (intro conjI exI [of _ s']) simp_all
next
  case False
  have code: "code = ''403 Forbidden''" and ls: "lines = []"
    using False assms(6,7) by (simp_all only: if_False)
  have no_end: "find_str (CRLF @ CRLF) (response_head code) = None"
    unfolding code by code_simp
  have "conn_ready (length (bytes_of (response_head code))) s"
    unfolding code
    using assms(2-4) by (intro conn_readyI) (simp_all add: response_head_def CRLF_def)
  then obtain s' where "http_403 s = (Inr (), s')"
    "io_wire s' = io_wire s @ bytes_of (response_head code)" "io_rest s' = io_rest s"
    using says_unit_run [OF says_403] unfolding code by blast
  with no_end ls show ?thesis
    unfolding file_do_GET_forbidden [OF assms(1) False]
    by (intro conjI exI [of _ s']) simp_all
qed

theorem file_GET_errors_witness:
  "\<exists>s'. file_do_GET \<lparr>fs_open = Map.empty, fs_end = \<lambda>_. 0\<rparr> ''/tmp'' (request_for ''/a/../b'')
      (io_start (replicate 50 (Sent 1)) [] [] ()) = (Inr (), s')
    \<and> io_wire s' = bytes_of (response_head ''403 Forbidden'') \<and> io_log s' = []"
proof -
  let ?s = "io_start (replicate 50 (Sent 1)) [] [] ()"
  have path: "request_path (request_for ''/a/../b'') = Inr ''/a/../b''"
    by (rule request_path_request_for) (simp_all add: NUL_def MAX_PATH_LEN_def)
  have hit: "find_str ''..'' (served_path ''/a/../b'') \<noteq> None"
    by (simp add: served_path_def)
  then have "find_str ''..'' (served_path ''/a/../b'') = None \<longleftrightarrow> False" by simp
  note errors = file_GET_errors [OF path _ _ _ disjI1 [OF hit] refl refl, of ?s
      "\<lparr>fs_open = Map.empty, fs_end = \<lambda>_. 0\<rparr>" "''/tmp''", unfolded this if_False]
  then obtain s' where "file_do_GET \<lparr>fs_open = Map.empty, fs_end = \<lambda>_. 0\<rparr> ''/tmp'' (request_for ''/a/../b'') ?s = (Inr (), s')"
    "io_wire s' = io_wire ?s @ bytes_of (response_head ''403 Forbidden'')"
    "io_rest s' = io_rest (?s\<lparr>io_log := io_log ?s @ []\<rparr>)"
    by auto
  with io_restD(6) [OF this(3)] show ?thesis by (intro exI [of _ s']) simp
qed

text \<open>C29. \<^verbatim>\<open>do_GET\<close> looks at no more than one file, and at none whose name contains \<^verbatim>\<open>..\<close>: two
  file systems that agree on the served path cannot be told apart, and when that path contains
  \<^verbatim>\<open>..\<close> no two file systems can.\<close>

theorem file_GET_reads_one_file:
  assumes "request_path ri = Inr path"
    and "find_str ''..'' (served_path path) \<noteq> None \<or>
      fs_open fs (served_path path) = fs_open fs' (served_path path) \<and>
      fs_end fs (served_path path) = fs_end fs' (served_path path)"
  shows "file_do_GET fs basePath ri = file_do_GET fs' basePath ri"
proof (cases "find_str ''..'' (served_path path) = None")
  case False
  show ?thesis
    unfolding file_do_GET_forbidden [OF assms(1) False] ..
next
  case True
  with assms(2) have same: "fs_open fs (served_path path) = fs_open fs' (served_path path)"
    "fs_end fs (served_path path) = fs_end fs' (served_path path)" by (simp_all only: simp_thms)
  show ?thesis
  proof (cases "fs_open fs (served_path path)")
    case None
    with same(1) have None': "fs_open fs' (served_path path) = None" by simp
    show ?thesis
      unfolding file_do_GET_missing [OF assms(1) True None] file_do_GET_missing [OF assms(1) True None'] ..
  next
    case (Some content)
    with same(1) have Some': "fs_open fs' (served_path path) = Some content" by simp
    show ?thesis
      unfolding file_do_GET_found [OF assms(1) True Some] file_do_GET_found [OF assms(1) True Some']
        same(2) ..
  qed
qed

theorem file_GET_reads_one_file_witness:
  "file_do_GET \<lparr>fs_open = Map.empty, fs_end = \<lambda>_. 0\<rparr> ''/tmp'' (request_for ''/../k'') =
   file_do_GET \<lparr>fs_open = [''../k'' \<mapsto> [1]], fs_end = \<lambda>_. 1\<rparr> ''/tmp'' (request_for ''/../k'')"
proof -
  have path: "request_path (request_for ''/../k'') = Inr ''/../k''"
    by (rule request_path_request_for) (simp_all add: NUL_def MAX_PATH_LEN_def)
  have "find_str ''..'' (served_path ''/../k'') \<noteq> None"
    by (simp add: served_path_def)
  from file_GET_reads_one_file [OF path disjI1 [OF this]] show ?thesis .
qed

text \<open>The check does not confine the handler to a directory: of a path that begins with two
  slashes only the first is dropped, so the request reads the file of that absolute name, and
  \<^verbatim>\<open>basePath\<close> does not matter.\<close>

theorem file_GET_absolute_path:
  assumes "request_path ri = Inr (''//'' @ name)" and "find_str ''..'' (CHR ''/'' # name) = None"
    and "fs_open fs (CHR ''/'' # name) = Some content" and "\<bar>fs_end fs (CHR ''/'' # name)\<bar> < 2 ^ 63"
    and "\<not> io_closed s" and "\<forall>a \<in> set (io_sends s). \<exists>k > 0. a = Sent k"
    and "length (ok_head (fs_end fs (CHR ''/'' # name))) + length content \<le> length (io_sends s)"
  shows "\<exists>s'. file_do_GET fs basePath ri s = (Inr (), s')
    \<and> io_wire s' = io_wire s @ bytes_of (ok_head (fs_end fs (CHR ''/'' # name))) @ content"
proof -
  have path: "served_path (''//'' @ name) = CHR ''/'' # name"
    by (simp add: served_path_def)
  have "conn_ready (length (bytes_of (ok_head (fs_end fs (CHR ''/'' # name))) @ content)) s"
    using assms(5-7) by (intro conn_readyI) simp_all
  from says_unit_run [OF says_file [OF assms(1), unfolded path, OF assms(2-4)] this]
  show ?thesis by blast
qed

theorem file_GET_absolute_path_witness:
  "\<exists>s'. file_do_GET \<lparr>fs_open = [''/etc/passwd'' \<mapsto> [114]], fs_end = \<lambda>_. 1\<rparr> ''/tmp'' (request_for ''//etc/passwd'')
      (io_start (replicate 100 (Sent 1)) [] [] ()) = (Inr (), s')
    \<and> io_wire s' = bytes_of (ok_head 1) @ [114]"
proof -
  have path: "request_path (request_for ''//etc/passwd'') = Inr (''//'' @ ''etc/passwd'')"
    by (subst request_path_request_for) (simp_all add: NUL_def MAX_PATH_LEN_def)
  have "length (ok_head 1) \<le> 90"
    by (simp add: ok_head_def response_head_def CRLF_def dec_int_def dec.simps)
  with file_GET_absolute_path [OF path, of "\<lparr>fs_open = [''/etc/passwd'' \<mapsto> [114]], fs_end = \<lambda>_. 1\<rparr>"
      "[114]" "io_start (replicate 100 (Sent 1)) [] [] ()" "''/tmp''"]
  show ?thesis by auto
qed

text \<open>The handler of \<^verbatim>\<open>http_simple\<close> needs a \<^verbatim>\<open>Host\<close> field: with one it answers with its
  fifteen characters, without one \<^verbatim>\<open>at\<close> throws before anything has been sent.\<close>

theorem simple_GET:
  assumes "request_path ri = Inr path" and "\<not> io_closed s"
    and "\<forall>a \<in> set (io_sends s). \<exists>k > 0. a = Sent k" and "100 \<le> length (io_sends s)"
  shows "case ri_headers ri ''Host'' of
      None \<Rightarrow> simple_do_GET ri s =
        (Inl (Throw Out_Of_Range), s\<lparr>io_log := io_log s @ [Log_Info (''Requested path: '' @ path)]\<rparr>)
    | Some host \<Rightarrow> (\<exists>s'. simple_do_GET ri s = (Inr (), s')
        \<and> io_wire s' = io_wire s @ bytes_of (ok_head 15) @ bytes_of simple_MSG)"
proof (cases "ri_headers ri ''Host''")
  case None
  then show ?thesis
    using assms(1) by (simp add: simple_do_GET_def header_at_def log_io_def)
next
  case (Some host)
  have msg: "length (bytes_of simple_MSG) = 15"
    by (simp add: simple_MSG_def CRLF_def)
  have "says (http_200 15) (bytes_of (ok_head 15))"
    by (rule says_http_200) simp
  moreover have "says (http_write (bytes_of simple_MSG)) (bytes_of simple_MSG)"
    by (rule says_http_write) (simp add: simple_MSG_def CRLF_def)
  ultimately have says: "says (thenA (http_200 15) (http_write (bytes_of simple_MSG)))
      (bytes_of (ok_head 15) @ bytes_of simple_MSG)"
    by (rule tcp.sends_then)
  let ?s = "s\<lparr>io_log := (io_log s @ [Log_Info (''Requested path: '' @ path)]) @ [Log_Info (''Host: '' @ host)]\<rparr>"
  have head: "length (ok_head 15) \<le> 85"
    by (simp add: ok_head_def response_head_def CRLF_def dec_int_def dec.simps)
  have "conn_ready (length (bytes_of (ok_head 15) @ bytes_of simple_MSG)) ?s"
    unfolding conn_ready_log using assms(2-4) head msg by (intro conn_readyI) simp_all
  from says_unit_run [OF says this] obtain s' where
    run: "thenA (http_200 15) (http_write (bytes_of simple_MSG)) ?s = (Inr (), s')"
    "io_wire s' = io_wire s @ bytes_of (ok_head 15) @ bytes_of simple_MSG" by auto
  have "simple_do_GET ri s = thenA (http_200 15) (http_write (bytes_of simple_MSG)) ?s"
    using assms(1) Some msg by (simp add: simple_do_GET_def header_at_def log_io_def)
  with run Some show ?thesis by simp
qed

theorem simple_GET_witness:
  "\<exists>s'. simple_do_GET (request_for ''/'') (io_start (replicate 100 (Sent 1)) [] [] ()) =
    (Inl (Throw Out_Of_Range), s')"
proof -
  have path: "request_path (request_for ''/'') = Inr ''/''"
    by (rule request_path_request_for) (simp_all add: NUL_def MAX_PATH_LEN_def)
  from simple_GET [OF path, of "io_start (replicate 100 (Sent 1)) [] [] ()"] show ?thesis
    by (simp add: request_for_def)
qed

end
