(* ===== verification/Byte_Order.thy ===== *)
theory Byte_Order
  imports Prelude
begin

text \<open>
  Network byte order: \<^verbatim>\<open>ntoh<T>\<close> and \<^verbatim>\<open>hton<T>\<close> of
  \<^verbatim>\<open>src/tcp/socks_tcp_util.hpp\<close>. The template parameter \<^verbatim>\<open>T\<close> is the word type \<open>'a\<close>, and
  \<^verbatim>\<open>sizeof(T)\<close> is \<open>LENGTH('a) div 8\<close>. A pointer argument is an array and an offset.

  The reference meaning is \<open>be_val\<close>, the big-endian value of a byte list: reading is proved
  equal to it, writing to its inverse \<open>be_bytes\<close>, and both round trips follow.
\<close>

section \<open>The code\<close>

function ntoh_loop :: "byte list \<Rightarrow> nat \<Rightarrow> nat \<Rightarrow> 'a::len word \<Rightarrow> 'a word res" where
  "ntoh_loop data off cnt result =
     (if cnt < LENGTH('a) div 8
      then bindR (load data (off + cnt))
        (\<lambda>b. ntoh_loop data off (Suc cnt)
               (result + push_bit ((LENGTH('a) div 8 - cnt - 1) * 8) (ucast b)))
      else Inr result)"
  by pat_completeness auto
termination
  by (relation "measure (\<lambda>(data, off, cnt, result :: 'a word). LENGTH('a) div 8 - cnt)") auto

definition ntoh :: "byte list \<Rightarrow> nat \<Rightarrow> 'a::len word res" where
  "ntoh data off = ntoh_loop data off 0 0"

function hton_loop :: "byte list \<Rightarrow> nat \<Rightarrow> 'a::len word \<Rightarrow> nat \<Rightarrow> byte list res" where
  "hton_loop data off value cnt =
     (if cnt < LENGTH('a) div 8
      then bindR (store data (off + cnt)
                   (ucast (drop_bit ((LENGTH('a) div 8 - 1 - cnt) * 8) value AND 0xff)))
        (\<lambda>data'. hton_loop data' off value (Suc cnt))
      else Inr data)"
  by pat_completeness auto
termination
  by (relation "measure (\<lambda>(data, off, value :: 'a word, cnt). LENGTH('a) div 8 - cnt)") auto

definition hton :: "byte list \<Rightarrow> nat \<Rightarrow> 'a::len word \<Rightarrow> byte list res" where
  "hton data off value = hton_loop data off value 0"

declare ntoh_loop.simps [simp del] hton_loop.simps [simp del]

section \<open>Big-endian values\<close>

definition be_val :: "byte list \<Rightarrow> nat" where
  "be_val bs = horner_sum unat 256 (rev bs)"

fun be_bytes :: "nat \<Rightarrow> nat \<Rightarrow> byte list" where
  "be_bytes 0 x = []"
| "be_bytes (Suc n) x = of_nat (x div 256 ^ n) # be_bytes n x"

lemma be_val_Nil [simp]: "be_val [] = 0"
  by (simp add: be_val_def)

lemma be_val_Cons [simp]: "be_val (b # bs) = unat b * 256 ^ length bs + be_val bs"
  by (simp add: be_val_def horner_sum_append mult.commute)

lemma length_be_bytes [simp]: "length (be_bytes n x) = n"
  by (induction n) simp_all

lemma be_val_less: "be_val bs < 256 ^ length bs"
proof (induction bs)
  case Nil
  show ?case by simp
next
  case (Cons b bs)
  have "unat b < 2 ^ LENGTH(8)"
    by (rule unsigned_less)
  then have "Suc (unat b) \<le> 256" by simp
  then have "Suc (unat b) * 256 ^ length bs \<le> 256 * 256 ^ length bs"
    by (rule mult_le_mono1)
  moreover have "be_val (b # bs) < Suc (unat b) * 256 ^ length bs"
    using Cons by simp
  ultimately have "be_val (b # bs) < 256 * 256 ^ length bs"
    by (rule order_less_le_trans [rotated])
  then show ?case by simp
qed

lemma be_val_take_less: "be_val (take n bs) < 256 ^ n"
proof -
  have "(256 :: nat) ^ length (take n bs) \<le> 256 ^ n"
    by (intro power_increasing) simp_all
  then show ?thesis
    by (rule order_less_le_trans [OF be_val_less])
qed

lemma be_val_be_bytes: "be_val (be_bytes n x) = x mod 256 ^ n"
proof (induction n)
  case 0
  show ?case by simp
next
  case (Suc n)
  have "unat (of_nat (x div 256 ^ n) :: byte) = x div 256 ^ n mod 256"
    by (simp add: unat_of_nat)
  with Suc show ?case
    by (simp add: mod_mult2_eq [of x "256 ^ n" 256, symmetric, simplified]
        mod_mult2_eq mult.commute)
qed

lemma be_bytes_add_mult: "be_bytes n (x + y * 256 ^ n) = be_bytes n x"
proof (induction n arbitrary: y)
  case 0
  show ?case by simp
next
  case (Suc n)
  have eq: "x + y * 256 ^ Suc n = x + (y * 256) * 256 ^ n"
    by simp
  have zero: "(256 :: byte) = 0"
    by simp
  have "(of_nat (x div 256 ^ n + y * 256) :: byte) = of_nat (x div 256 ^ n)"
    unfolding of_nat_add of_nat_mult of_nat_numeral zero by simp
  with Suc [of "y * 256"] show ?case
    unfolding eq by simp
qed

lemma be_bytes_be_val: "be_bytes (length bs) (be_val bs) = bs"
proof (induction bs)
  case Nil
  show ?case by simp
next
  case (Cons b bs)
  then show ?case
    using be_val_less [of bs] be_bytes_add_mult [of "length bs" "be_val bs" "unat b"]
    by (simp add: add.commute)
qed

section \<open>The code reads and writes big-endian values\<close>

lemma ntoh_loop_be:
  "off + LENGTH('a::len) div 8 \<le> length data \<Longrightarrow> cnt \<le> LENGTH('a) div 8 \<Longrightarrow>
   ntoh_loop data off cnt (result :: 'a word) =
     Inr (result + of_nat (be_val (take (LENGTH('a) div 8 - cnt) (drop (off + cnt) data))))"
proof (induction data off cnt result rule: ntoh_loop.induct)
  case (1 data off cnt result)
  show ?case
  proof (cases "cnt < LENGTH('a) div 8")
    case False
    with "1.prems" show ?thesis by (subst ntoh_loop.simps) simp
  next
    case True
    let ?k = "LENGTH('a) div 8 - cnt - 1"
    let ?b = "data ! (off + cnt)"
    from True "1.prems" have in_range: "off + cnt < length data" by simp
    have split: "take (LENGTH('a) div 8 - cnt) (drop (off + cnt) data) =
        ?b # take ?k (drop (off + Suc cnt) data)"
      using True in_range
      by (simp add: Cons_nth_drop_Suc [symmetric] take_Cons' del: Cons_nth_drop_Suc)
    have len: "length (take ?k (drop (off + Suc cnt) data)) = ?k"
      using True "1.prems" by simp
    have "push_bit (?k * 8) (ucast ?b :: 'a word) = of_nat (unat ?b * 256 ^ ?k)"
      by (simp add: push_bit_eq_mult power_mult mult.commute [of _ 8])
    with True in_range "1.prems" "1.IH" [of ?b] split len show ?thesis
      by (simp add: ntoh_loop.simps [of data off cnt] add.assoc)
  qed
qed

lemma ntoh_be:
  "off + LENGTH('a::len) div 8 \<le> length data \<Longrightarrow>
   (ntoh data off :: 'a word res) = Inr (of_nat (be_val (take (LENGTH('a) div 8) (drop off data))))"
  by (simp add: ntoh_def ntoh_loop_be)

lemma low_byte: "ucast (drop_bit k v AND 0xff) = (of_nat (unat v div 2 ^ k) :: byte)"
  for v :: "'a::len word"
proof -
  have "(0xff :: 'a word) = mask 8"
    by (simp add: mask_eq_exp_minus_1)
  then have "drop_bit k v AND 0xff = take_bit 8 (drop_bit k v)"
    by (simp only: take_bit_eq_mask)
  then have "unat (ucast (drop_bit k v AND 0xff) :: byte) = take_bit 8 (drop_bit k (unat v))"
    by (simp only: unsigned_ucast_eq unsigned_take_bit_eq unat_drop_bit_eq) simp
  then show ?thesis
    by (simp add: word_unat_eq_iff unsigned_of_nat drop_bit_eq_div)
qed

lemma hton_loop_be:
  "off + LENGTH('a::len) div 8 \<le> length data \<Longrightarrow> cnt \<le> LENGTH('a) div 8 \<Longrightarrow>
   hton_loop data off (value :: 'a word) cnt =
     Inr (take (off + cnt) data @ be_bytes (LENGTH('a) div 8 - cnt) (unat value)
          @ drop (off + LENGTH('a) div 8) data)"
proof (induction data off "value" cnt rule: hton_loop.induct)
  case (1 data off "value" cnt)
  show ?case
  proof (cases "cnt < LENGTH('a) div 8")
    case False
    with "1.prems" show ?thesis by (subst hton_loop.simps) simp
  next
    case True
    let ?k = "LENGTH('a) div 8 - Suc cnt"
    let ?b = "of_nat (unat value div 256 ^ ?k) :: byte"
    from True "1.prems" have in_range: "off + cnt < length data" by simp
    have byte: "ucast (drop_bit ((LENGTH('a) div 8 - 1 - cnt) * 8) value AND 0xff) = ?b"
      by (simp add: low_byte power_mult mult.commute [of _ 8])
    have digits: "be_bytes (LENGTH('a) div 8 - cnt) (unat value) = ?b # be_bytes ?k (unat value)"
      using True by (simp add: Suc_diff_Suc [symmetric] del: Suc_diff_Suc)
    have "hton_loop data off value cnt = hton_loop (data[off + cnt := ?b]) off value (Suc cnt)"
      using True in_range byte by (subst hton_loop.simps) simp
    also have "\<dots> = Inr (take (off + Suc cnt) (data[off + cnt := ?b])
        @ be_bytes ?k (unat value) @ drop (off + LENGTH('a) div 8) (data[off + cnt := ?b]))"
      using True in_range "1.prems" byte by (intro "1.IH") simp_all
    finally show ?thesis
      using True in_range digits by (simp add: take_Suc_conv_app_nth)
  qed
qed

lemma hton_be:
  "off + LENGTH('a::len) div 8 \<le> length data \<Longrightarrow>
   hton data off (value :: 'a word) =
     Inr (take off data @ be_bytes (LENGTH('a) div 8) (unat value)
          @ drop (off + LENGTH('a) div 8) data)"
  by (simp add: hton_def hton_loop_be)

lemma length_hton: "hton data off v = Inr d \<Longrightarrow> off + LENGTH('a) div 8 \<le> length data \<Longrightarrow> length d = length data"
  for v :: "'a::len word"
  by (auto simp: hton_be)

lemma ntoh_loop_out:
  "length data < off + LENGTH('a::len) div 8 \<Longrightarrow> cnt \<le> LENGTH('a) div 8 \<Longrightarrow> off + cnt \<le> length data \<Longrightarrow>
   ntoh_loop data off cnt (result :: 'a word) = Inl (UB Read_Out_Of_Bounds)"
proof (induction data off cnt result rule: ntoh_loop.induct)
  case (1 data off cnt result)
  then have True: "cnt < LENGTH('a) div 8" by linarith
  show ?case
  proof (cases "off + cnt < length data")
    case False
    with True show ?thesis by (subst ntoh_loop.simps) (simp add: load_out)
  next
    case in_range: True
    with True "1.prems" have "ntoh_loop data off (Suc cnt)
        (result + push_bit ((LENGTH('a) div 8 - cnt - 1) * 8) (ucast (data ! (off + cnt)))) =
        Inl (UB Read_Out_Of_Bounds)"
      by (intro "1.IH") simp_all
    with True in_range show ?thesis by (subst ntoh_loop.simps) simp
  qed
qed

lemma ntoh_out:
  "off \<le> length data \<Longrightarrow> length data < off + LENGTH('a::len) div 8 \<Longrightarrow>
   (ntoh data off :: 'a word res) = Inl (UB Read_Out_Of_Bounds)"
  by (simp add: ntoh_def ntoh_loop_out)

section \<open>Round trips\<close>

text \<open>Writing a value in network order and reading it back gives the value, for every
  unsigned type whose width is a whole number of bytes; the write stays inside its
  \<^verbatim>\<open>sizeof(T)\<close> bytes.\<close>

theorem hton_ntoh:
  fixes v :: "'a::len word"
  assumes "8 dvd LENGTH('a)" and "off + LENGTH('a) div 8 \<le> length data"
  shows "\<exists>data'. hton data off v = Inr data' \<and> ntoh data' off = Inr v
    \<and> length data' = length data
    \<and> take off data' = take off data
    \<and> drop (off + LENGTH('a) div 8) data' = drop (off + LENGTH('a) div 8) data"
proof -
  let ?n = "LENGTH('a) div 8"
  let ?d = "take off data @ be_bytes ?n (unat v) @ drop (off + ?n) data"
  have "(256 :: nat) ^ ?n = 2 ^ LENGTH('a)"
    using assms(1) power_mult [of "2 :: nat" 8 ?n] by simp
  then have "of_nat (be_val (be_bytes ?n (unat v))) = v"
    by (simp add: be_val_be_bytes)
  then have "ntoh ?d off = Inr v"
    using assms(2) by (subst ntoh_be) simp_all
  then show ?thesis
    using assms(2) by (simp add: hton_be)
qed

theorem hton_ntoh_witness:
  "hton [9, 9, 9, 9] 1 (0x0102 :: 16 word) = Inr [9, 1, 2, 9]
   \<and> ntoh [9, 1, 2, 9] 1 = Inr (0x0102 :: 16 word)"
proof -
  have "hton [9, 9, 9, 9] 1 (0x0102 :: 16 word) = Inr [9, 1, 2, 9]"
    by code_simp
  with hton_ntoh [where v = "0x0102 :: 16 word" and off = 1 and data = "[9, 9, 9, 9]"]
  show ?thesis by simp
qed

text \<open>Reading a value in network order and writing it back leaves the memory as it was:
  no byte of the encoding is lost.\<close>

theorem ntoh_hton:
  assumes "off + LENGTH('a::len) div 8 \<le> length data"
  shows "\<exists>v :: 'a word. ntoh data off = Inr v \<and> hton data off v = Inr data"
proof -
  let ?n = "LENGTH('a) div 8"
  let ?bs = "take ?n (drop off data)"
  have len: "length ?bs = ?n"
    using assms by simp
  have "(256 :: nat) ^ ?n = 2 ^ (8 * ?n)"
    by (simp add: power_mult)
  also have "\<dots> \<le> 2 ^ LENGTH('a)"
    by (intro power_increasing) simp_all
  finally have "be_val ?bs < 2 ^ LENGTH('a)"
    using be_val_less [of ?bs] len by simp
  then have "be_bytes ?n (unat (of_nat (be_val ?bs) :: 'a word)) = ?bs"
    using be_bytes_be_val [of ?bs] len by (simp add: unat_of_nat)
  moreover have "take off data @ ?bs @ drop (off + ?n) data = data"
    by (metis add.commute append_take_drop_id drop_drop)
  ultimately show ?thesis
    using assms by (simp add: ntoh_be hton_be)
qed

theorem ntoh_hton_witness:
  "\<exists>v :: 32 word. ntoh [1, 2, 3, 4] 0 = Inr v \<and> hton [1, 2, 3, 4] 0 v = Inr [1, 2, 3, 4]"
  using ntoh_hton [where 'a = 32, of 0 "[1, 2, 3, 4]"] by simp

end
