(* ===== verification/Ws_Frame.thy ===== *)
theory Ws_Frame
  imports Byte_Order
begin

text \<open>
  WebSocket frames: \<^verbatim>\<open>class WebSocketFrame\<close> of \<^verbatim>\<open>src/http/socks_ws_frame.hpp\<close> and
  \<^verbatim>\<open>socks_ws_frame.cpp\<close>.

  The class's one member is the vector \<^verbatim>\<open>data_\<close>. The constructors build an outgoing frame,
  the accessors read it back, and the static \<^verbatim>\<open>decode\<close> parses an incoming frame out of a
  receive buffer and appends its payload to a vector. The reference meaning is \<open>rfc_frame\<close>, the
  base framing of RFC 6455, with or without a masking key.

  \<open>decode\<close> takes the receive buffer as the whole array the pointer points into: the code never
  uses \<^verbatim>\<open>len\<close> again after its first check, so what it reads is decided by the array. The
  vector's allocation may fail for the sizes a peer can ask for; \<open>alloc n\<close> says whether a
  \<^verbatim>\<open>resize(n)\<close> succeeds.
\<close>

section \<open>The class\<close>

record ws_frame =
  frame_data :: "byte list"

definition OPCODE_CONTINUATION :: byte where "OPCODE_CONTINUATION = 0x00"
definition OPCODE_TEXT :: byte where "OPCODE_TEXT = 0x01"
definition OPCODE_BINARY :: byte where "OPCODE_BINARY = 0x02"
definition OPCODE_CONNECTION_CLOSE :: byte where "OPCODE_CONNECTION_CLOSE = 0x08"
definition OPCODE_CONNECTION_PING :: byte where "OPCODE_CONNECTION_PING = 0x09"
definition OPCODE_CONNECTION_PONG :: byte where "OPCODE_CONNECTION_PONG = 0x0A"

lemmas opcode_defs =
  OPCODE_CONTINUATION_def OPCODE_TEXT_def OPCODE_BINARY_def
  OPCODE_CONNECTION_CLOSE_def OPCODE_CONNECTION_PING_def OPCODE_CONNECTION_PONG_def

text \<open>The constructor from a payload pointer, its length, the FIN flag and the opcode.\<close>

definition ws_frame_new :: "byte list \<Rightarrow> nat \<Rightarrow> bool \<Rightarrow> byte \<Rightarrow> ws_frame res" where
  "ws_frame_new payload payloadLength fin opcode =
     (let d0 = [0, 0]; d1 = (if fin then d0[0 := 0x80] else d0)
      in if 15 < opcode
         then Inl (Throw (Invalid_Argument ''WebSocket opcode must not be bigger than 15.''))
         else
           let d2 = d1[0 := d1 ! 0 OR opcode]
           in bindR
             (if payloadLength < 126 then Inr (2, d2[1 := d2 ! 1 OR of_nat payloadLength])
              else if payloadLength \<le> 65535 then
                bindR (hton (resized (d2[1 := d2 ! 1 OR 126]) 4) 2 (of_nat payloadLength :: 16 word))
                  (\<lambda>d3. Inr (4, d3))
              else Inl (Throw (Invalid_Argument
                     ''Payload length > UINT16_MAX currently not supported.'')))
             (\<lambda>(headerSize, d4).
               bindR (memcpy (resized d4 (headerSize + payloadLength)) headerSize
                        payload 0 payloadLength)
                 (\<lambda>d5. Inr \<lparr>frame_data = d5\<rparr>)))"

text \<open>\<^verbatim>\<open>WebSocketFrame(payload, payloadLength, fin)\<close> and \<^verbatim>\<open>WebSocketFrame(char const*)\<close>;
  the latter takes the bytes before the terminating NUL.\<close>

definition ws_frame_new_binary :: "byte list \<Rightarrow> nat \<Rightarrow> bool \<Rightarrow> ws_frame res" where
  "ws_frame_new_binary payload payloadLength fin =
     ws_frame_new payload payloadLength fin OPCODE_BINARY"

definition strlen :: "byte list \<Rightarrow> nat res" where
  "strlen buf = (if 0 \<in> set buf then Inr (length (takeWhile (\<lambda>b. b \<noteq> 0) buf))
                 else Inl (UB Read_Out_Of_Bounds))"

definition ws_frame_new_text :: "byte list \<Rightarrow> ws_frame res" where
  "ws_frame_new_text payload =
     bindR (strlen payload) (\<lambda>n. ws_frame_new payload n True OPCODE_TEXT)"

definition createConnectionClose :: "16 word \<Rightarrow> ws_frame res" where
  "createConnectionClose reasonCode =
     bindR (hton [0, 0] 0 reasonCode)
       (\<lambda>bytes. ws_frame_new bytes 2 True OPCODE_CONNECTION_CLOSE)"

definition createPong :: "byte list \<Rightarrow> nat \<Rightarrow> ws_frame res" where
  "createPong buf len = ws_frame_new buf len True OPCODE_CONNECTION_PONG"

definition payloadLength :: "ws_frame \<Rightarrow> nat res" where
  "payloadLength f =
     bindR (load (frame_data f) 1) (\<lambda>b.
       let frameLen = unat (b AND 0x7f)
       in if frameLen = 127
          then Inl (Throw (Runtime_Error ''Length > UINT16_MAX not supported yet.''))
          else if frameLen = 126
          then bindR (ntoh (frame_data f) 2 :: 16 word res) (\<lambda>w. Inr (unat w))
          else Inr frameLen)"

text \<open>\<^verbatim>\<open>payload()\<close> is a pointer into \<^verbatim>\<open>data_\<close>: the array from there on.\<close>

definition frame_payload :: "ws_frame \<Rightarrow> byte list res" where
  "frame_payload f =
     bindR (payloadLength f) (\<lambda>n. Inr (drop (if n < 126 then 2 else 4) (frame_data f)))"

definition frame_length :: "ws_frame \<Rightarrow> nat" where
  "frame_length f = length (frame_data f)"

definition frame_fin :: "ws_frame \<Rightarrow> bool res" where
  "frame_fin f = bindR (load (frame_data f) 0) (\<lambda>b. Inr (b AND 0x80 = 0x80))"

definition frame_mask :: "ws_frame \<Rightarrow> bool res" where
  "frame_mask f = bindR (load (frame_data f) 1) (\<lambda>b. Inr (b AND 0x80 = 0x80))"

section \<open>Decoding\<close>

definition vec_resize :: "(nat \<Rightarrow> bool) \<Rightarrow> byte list \<Rightarrow> nat \<Rightarrow> byte list res" where
  "vec_resize alloc v n =
     (if 2 ^ 63 \<le> n then Inl (Throw Length_Error)
      else if \<not> alloc n then Inl (Throw Bad_Alloc)
      else Inr (resized v n))"

function unmask_loop ::
  "byte list \<Rightarrow> nat \<Rightarrow> byte list \<Rightarrow> nat \<Rightarrow> nat \<Rightarrow> nat \<Rightarrow> byte list \<Rightarrow> byte list res"
where
  "unmask_loop buf payloadOffset maskingKey oldPayloadSize frameLen cnt payloadBuf =
     (if cnt < frameLen
      then bindR (load buf (payloadOffset + 4 + cnt)) (\<lambda>b.
           bindR (store payloadBuf (oldPayloadSize + cnt) (b XOR maskingKey ! (cnt mod 4))) (\<lambda>p.
           unmask_loop buf payloadOffset maskingKey oldPayloadSize frameLen (Suc cnt) p))
      else Inr payloadBuf)"
  by pat_completeness auto
termination
  by (relation "measure (\<lambda>(buf, off, key, old, frameLen, cnt, p). frameLen - cnt)") auto

declare unmask_loop.simps [simp del]

text \<open>The payload length and the offset behind the length field, from the second header byte and
  the extended length that may follow it.\<close>

definition decode_length :: "byte list \<Rightarrow> byte \<Rightarrow> (size_t \<times> nat) res" where
  "decode_length buf b1 =
     (let frameLen = ucast (b1 AND 0x7f) :: size_t
      in if frameLen = 126
         then bindR (ntoh buf 2 :: 16 word res) (\<lambda>w. Inr (ucast w, 4))
         else if frameLen = 127
         then bindR (ntoh buf 2 :: 64 word res) (\<lambda>w. Inr (w, 10))
         else Inr (frameLen, 2))"

text \<open>The two ways the payload reaches the vector: unmasked behind the bytes it held, and as it is,
  with \<^verbatim>\<open>memcpy\<close> to the start of the vector.\<close>

definition decode_payload ::
  "byte list \<Rightarrow> bool \<Rightarrow> nat \<Rightarrow> nat \<Rightarrow> nat \<Rightarrow> byte list \<Rightarrow> byte list res"
where
  "decode_payload buf masked payloadOffset oldPayloadSize frameLen payloadBuf =
     (if masked then
        bindR (load buf payloadOffset) (\<lambda>k0. bindR (load buf (payloadOffset + 1)) (\<lambda>k1.
        bindR (load buf (payloadOffset + 2)) (\<lambda>k2. bindR (load buf (payloadOffset + 3)) (\<lambda>k3.
          unmask_loop buf payloadOffset [k0, k1, k2, k3] oldPayloadSize frameLen 0 payloadBuf))))
      else memcpy payloadBuf 0 buf payloadOffset frameLen)"

text \<open>The result: the FIN flag, the grown payload vector and the opcode output parameter. The
  sum \<^verbatim>\<open>payloadBuf.size() + frameLen\<close> is taken in \<^verbatim>\<open>std::size_t\<close> and wraps.\<close>

definition decode ::
  "(nat \<Rightarrow> bool) \<Rightarrow> byte list \<Rightarrow> nat \<Rightarrow> byte list \<Rightarrow> (bool \<times> byte list \<times> byte) res"
where
  "decode alloc buf len payloadBuf =
     (if len < 2 then Inl (Throw (Invalid_Argument ''WebSocket header is missing.''))
      else
        bindR (load buf 1) (\<lambda>b1. bindR (load buf 0) (\<lambda>b0.
        bindR (decode_length buf b1) (\<lambda>(frameLen, payloadOffset).
          let oldPayloadSize = length payloadBuf
          in bindR (vec_resize alloc payloadBuf (unat (of_nat oldPayloadSize + frameLen))) (\<lambda>grown.
             bindR (decode_payload buf (b1 AND 0x80 = 0x80) payloadOffset oldPayloadSize
                      (unat frameLen) grown)
               (\<lambda>filled. Inr (b0 AND 0x80 = 0x80, filled, b0 AND 0x0f)))))))"

section \<open>The base framing of RFC 6455\<close>

definition rfc_header :: "bool \<Rightarrow> byte \<Rightarrow> bool \<Rightarrow> nat \<Rightarrow> byte list" where
  "rfc_header fin opcode masked n =
     (let m = (if masked then 0x80 else 0)
      in ((if fin then 0x80 else 0) OR opcode) #
         (if n < 126 then [m OR of_nat n]
          else if n \<le> 65535 then (m OR 126) # be_bytes 2 n
          else (m OR 127) # be_bytes 8 n))"

definition mask_bytes :: "byte list \<Rightarrow> byte list \<Rightarrow> byte list" where
  "mask_bytes key p = map (\<lambda>i. p ! i XOR key ! (i mod 4)) [0..<length p]"

definition rfc_frame :: "bool \<Rightarrow> byte \<Rightarrow> byte list option \<Rightarrow> byte list \<Rightarrow> byte list" where
  "rfc_frame fin opcode key p =
     rfc_header fin opcode (key \<noteq> None) (length p) @
     (case key of None \<Rightarrow> p | Some k \<Rightarrow> k @ mask_bytes k p)"

definition ext_len :: "nat \<Rightarrow> nat" where
  "ext_len n = (if n < 126 then 2 else if n \<le> 65535 then 4 else 10)"

lemma length_rfc_header [simp]: "length (rfc_header fin opcode masked n) = ext_len n"
  by (simp add: rfc_header_def ext_len_def Let_def)

lemma length_mask_bytes [simp]: "length (mask_bytes key p) = length p"
  by (simp add: mask_bytes_def)

lemma length_rfc_frame:
  "length (rfc_frame fin opcode key p) =
     ext_len (length p) + (case key of None \<Rightarrow> 0 | Some k \<Rightarrow> length k) + length p"
  by (simp add: rfc_frame_def split: option.split)

lemma ext_len_ge_2: "2 \<le> ext_len n"
  by (simp add: ext_len_def)

lemma bit_0x80: "bit (0x80 :: byte) n \<longleftrightarrow> n = 7"
proof -
  have eq: "(0x80 :: byte) = 2 ^ 7" by simp
  show ?thesis
    unfolding eq by (simp only: bit_exp_iff) auto
qed

lemma high_bit: "b AND 0x80 = 0x80 \<longleftrightarrow> bit b 7" for b :: byte
proof
  assume eq: "b AND 0x80 = 0x80"
  have "bit (b AND 0x80) 7 = bit (0x80 :: byte) 7" by (simp only: eq)
  then show "bit b 7" by (simp only: bit_and_iff bit_0x80 simp_thms)
next
  assume "bit b 7"
  then show "b AND 0x80 = 0x80"
    by (intro bit_word_eqI) (auto simp only: bit_and_iff bit_0x80)
qed

lemma low7: "b AND 0x7f = take_bit 7 b" for b :: byte
  by (simp add: take_bit_eq_mask mask_eq_exp_minus_1)

lemma low4: "b AND 0x0f = take_bit 4 b" for b :: byte
  by (simp add: take_bit_eq_mask mask_eq_exp_minus_1)

lemma take_bit_small: "unat b < 2 ^ n \<Longrightarrow> take_bit n b = b" for b :: byte
  by (metis take_bit_nat_eq_self_iff unsigned_take_bit_eq word_unat_eq_iff)

lemma take_bit_small_bit: "unat b < 2 ^ n \<Longrightarrow> n \<le> k \<Longrightarrow> \<not> bit b k" for b :: byte
  by (metis bit_take_bit_iff leD take_bit_small)

lemma flag_bit:
  "unat b < 128 \<Longrightarrow> bit ((if f then 0x80 else 0) OR b) 7 \<longleftrightarrow> f" for b :: byte
  using take_bit_small_bit [of b 7 7] by (simp add: bit_or_iff bit_0x80)

lemma flag_low7:
  "unat b < 128 \<Longrightarrow> take_bit 7 ((if f then 0x80 else 0) OR b) = b" for b :: byte
  using take_bit_small [of b 7] by (simp add: take_bit_or)

lemma flag_low4:
  "unat b < 16 \<Longrightarrow> take_bit 4 ((if f then 0x80 else 0) OR b) = b" for b :: byte
  using take_bit_small [of b 4] by (simp add: take_bit_or)

lemma unat_le_15: "b \<le> 15 \<Longrightarrow> unat b < 16" for b :: byte
  by (simp add: word_le_nat_alt)

section \<open>Building a frame\<close>

lemma hton_16_at_2:
  "n \<le> 65535 \<Longrightarrow>
   hton (a # b # replicate 2 0) 2 (of_nat n :: 16 word) = Inr (a # b # be_bytes 2 n)"
  by (subst hton_be) (simp_all add: unat_of_nat)

definition len7 :: "nat \<Rightarrow> byte" where
  "len7 n = (if n < 126 then of_nat n else if n \<le> 65535 then 126 else 127)"

lemma unat_len7: "unat (len7 n) = (if n < 126 then n else if n \<le> 65535 then 126 else 127)"
  by (simp add: len7_def unat_of_nat)

lemma rfc_frame_0 [simp]:
  "(rfc_frame fin opcode key p @ rest) ! 0 = (if fin then 0x80 else 0) OR opcode"
  by (simp add: rfc_frame_def rfc_header_def Let_def)

lemma rfc_frame_1 [simp]:
  "(rfc_frame fin opcode key p @ rest) ! Suc 0 =
     (if key \<noteq> None then 0x80 else 0) OR len7 (length p)"
  by (simp add: rfc_frame_def rfc_header_def Let_def len7_def)

lemma ws_frame_new_ok:
  assumes "opcode \<le> 15" and "n \<le> 65535" and "n \<le> length payload"
  shows "ws_frame_new payload n fin opcode =
    Inr \<lparr>frame_data = rfc_frame fin opcode None (take n payload)\<rparr>"
proof (cases "n < 126")
  case True
  with assms show ?thesis
    by (simp add: ws_frame_new_def Let_def not_less resized_def memcpy_def rfc_frame_def rfc_header_def)
next
  case False
  have "length (be_bytes 2 n) = 2" by (rule length_be_bytes)
  with False assms show ?thesis
    by (simp add: ws_frame_new_def Let_def not_less resized_grow hton_16_at_2 memcpy_def
        rfc_frame_def rfc_header_def)
qed

lemma ws_frame_new_bad_opcode:
  "15 < opcode \<Longrightarrow> ws_frame_new payload n fin opcode =
     Inl (Throw (Invalid_Argument ''WebSocket opcode must not be bigger than 15.''))"
  by (simp add: ws_frame_new_def Let_def)

lemma ws_frame_new_too_long:
  "opcode \<le> 15 \<Longrightarrow> 65535 < n \<Longrightarrow> ws_frame_new payload n fin opcode =
     Inl (Throw (Invalid_Argument ''Payload length > UINT16_MAX currently not supported.''))"
  by (simp add: ws_frame_new_def Let_def not_less)

lemma ws_frame_new_Inr:
  assumes "ws_frame_new payload n fin opcode = Inr f" and "n \<le> length payload"
  shows "opcode \<le> 15 \<and> n \<le> 65535 \<and> f = \<lparr>frame_data = rfc_frame fin opcode None (take n payload)\<rparr>"
  using assms ws_frame_new_bad_opcode [of opcode payload n fin]
    ws_frame_new_too_long [of opcode n payload fin] ws_frame_new_ok [of opcode n payload fin]
  by (cases "15 < opcode"; cases "65535 < n") (simp_all add: not_less)

text \<open>The length field, as both the accessor and the decoder read it.\<close>

lemma rfc_frame_ext:
  "126 \<le> length p \<Longrightarrow> drop 2 (rfc_frame fin opcode key p @ rest) =
     be_bytes (ext_len (length p) - 2) (length p) @
     (case key of None \<Rightarrow> p | Some k \<Rightarrow> k @ mask_bytes k p) @ rest"
  by (simp add: rfc_frame_def rfc_header_def Let_def ext_len_def)

lemma ntoh_16_rfc_frame:
  assumes "126 \<le> length p" and "length p \<le> 65535"
  shows "ntoh (rfc_frame fin opcode key p @ rest) 2 = Inr (of_nat (length p) :: 16 word)"
  using assms rfc_frame_ext [of p fin opcode key rest]
  by (subst ntoh_be) (simp_all add: ext_len_def be_val_be_bytes length_rfc_frame)

lemma ntoh_64_rfc_frame:
  assumes "65535 < length p" and "length p < 2 ^ 64"
  shows "ntoh (rfc_frame fin opcode key p @ rest) 2 = Inr (of_nat (length p) :: 64 word)"
  using assms rfc_frame_ext [of p fin opcode key rest]
  by (subst ntoh_be) (simp_all add: ext_len_def be_val_be_bytes length_rfc_frame)

lemma payloadLength_rfc_frame:
  assumes "length p \<le> 65535"
  shows "payloadLength \<lparr>frame_data = rfc_frame fin opcode key p\<rparr> = Inr (length p)"
proof -
  have b1: "rfc_frame fin opcode key p ! Suc 0 = (if key \<noteq> None then 0x80 else 0) OR len7 (length p)"
    using rfc_frame_1 [of fin opcode key p "[]"] by simp
  have len: "1 < length (rfc_frame fin opcode key p)"
    using ext_len_ge_2 [of "length p"] by (simp add: length_rfc_frame)
  have "take_bit 7 (rfc_frame fin opcode key p ! Suc 0) = len7 (length p)"
    unfolding b1 by (rule flag_low7) (simp add: unat_len7)
  then have low: "unat (rfc_frame fin opcode key p ! Suc 0 AND 0x7f) =
      (if length p < 126 then length p else 126)"
    using assms by (simp add: low7 unat_len7)
  show ?thesis
    using len low assms ntoh_16_rfc_frame [of p fin opcode key "[]"]
    by (simp add: payloadLength_def Let_def unat_of_nat)
qed

lemma decode_length_rfc_frame:
  assumes "length p < 2 ^ 64"
  shows "decode_length (rfc_frame fin opcode key p @ rest)
      ((if key \<noteq> None then 0x80 else 0) OR len7 (length p)) =
    Inr (of_nat (length p), ext_len (length p))"
proof -
  let ?b1 = "(if key \<noteq> None then 0x80 else 0) OR len7 (length p)"
  have low: "?b1 AND 0x7f = len7 (length p)"
    unfolding low7 by (rule flag_low7) (simp add: unat_len7)
  consider "length p < 126" | "126 \<le> length p" "length p \<le> 65535" | "65535 < length p"
    by linarith
  then show ?thesis
  proof cases
    case 1
    then have "(ucast (len7 (length p)) :: size_t) = of_nat (length p)"
      and "(of_nat (length p) :: size_t) \<noteq> 126" and "(of_nat (length p) :: size_t) \<noteq> 127"
      by (simp_all add: word_unat_eq_iff unsigned_ucast_eq unat_len7 unat_of_nat take_bit_nat_eq_self_iff)
    with 1 show ?thesis unfolding decode_length_def low by (simp add: Let_def ext_len_def)
  next
    case 2
    then have "len7 (length p) = 126"
      and "(ucast (of_nat (length p) :: 16 word) :: size_t) = of_nat (length p)"
      by (simp_all add: len7_def word_unat_eq_iff unsigned_ucast_eq unat_of_nat take_bit_nat_eq_self_iff)
    with 2 show ?thesis unfolding decode_length_def low
      by (simp add: Let_def ext_len_def ntoh_16_rfc_frame)
  next
    case 3
    then have "len7 (length p) = 127" by (simp add: len7_def)
    with 3 assms show ?thesis unfolding decode_length_def low
      by (simp add: Let_def ext_len_def ntoh_64_rfc_frame)
  qed
qed

section \<open>Reading the payload\<close>

lemma xor_twice: "(a XOR k) XOR k = a" for a k :: byte
  by (simp add: xor.assoc)

lemma mask_bytes_twice: "mask_bytes key (mask_bytes key p) = p"
  by (auto simp: mask_bytes_def xor_twice intro: nth_equalityI)

lemma unmask_loop_in:
  "off + 4 + fl \<le> length buf \<Longrightarrow> old + fl \<le> length pl \<Longrightarrow> cnt \<le> fl \<Longrightarrow>
   unmask_loop buf off key old fl cnt pl =
     Inr (take (old + cnt) pl @ map (\<lambda>i. buf ! (off + 4 + i) XOR key ! (i mod 4)) [cnt..<fl]
          @ drop (old + fl) pl)"
proof (induction buf off key old fl cnt pl rule: unmask_loop.induct)
  case (1 buf off key old fl cnt pl)
  show ?case
  proof (cases "cnt < fl")
    case False
    with "1.prems" show ?thesis by (subst unmask_loop.simps) simp
  next
    case True
    let ?b = "buf ! (off + 4 + cnt) XOR key ! (cnt mod 4)"
    have "unmask_loop buf off key old fl cnt pl =
        unmask_loop buf off key old fl (Suc cnt) (pl[old + cnt := ?b])"
      using True "1.prems" by (subst unmask_loop.simps) simp
    also have "\<dots> = Inr (take (old + Suc cnt) (pl[old + cnt := ?b]) @
        map (\<lambda>i. buf ! (off + 4 + i) XOR key ! (i mod 4)) [Suc cnt..<fl] @
        drop (old + fl) (pl[old + cnt := ?b]))"
      using True "1.prems" by (intro "1.IH") simp_all
    finally show ?thesis
      using True "1.prems" by (simp add: take_Suc_conv_app_nth upt_conv_Cons)
  qed
qed

lemma unmask_loop_out:
  "length buf < off + 4 + fl \<Longrightarrow> off + 4 \<le> length buf \<Longrightarrow> old + fl \<le> length pl \<Longrightarrow>
   off + 4 + cnt \<le> length buf \<Longrightarrow>
   unmask_loop buf off key old fl cnt pl = Inl (UB Read_Out_Of_Bounds)"
proof (induction buf off key old fl cnt pl rule: unmask_loop.induct)
  case (1 buf off key old fl cnt pl)
  then have True: "cnt < fl" by linarith
  show ?case
  proof (cases "off + 4 + cnt < length buf")
    case False
    with True show ?thesis by (subst unmask_loop.simps) (simp add: load_out)
  next
    case in_range: True
    let ?b = "buf ! (off + 4 + cnt) XOR key ! (cnt mod 4)"
    have "unmask_loop buf off key old fl cnt pl =
        unmask_loop buf off key old fl (Suc cnt) (pl[old + cnt := ?b])"
      using True in_range "1.prems" by (subst unmask_loop.simps) simp
    also have "\<dots> = Inl (UB Read_Out_Of_Bounds)"
      using True in_range "1.prems" by (intro "1.IH") simp_all
    finally show ?thesis .
  qed
qed

lemma decode_payload_masked:
  assumes "off + 4 + fl \<le> length buf" and "length pl = old + fl"
  shows "decode_payload buf True off old fl pl =
    Inr (take old pl @ mask_bytes (take 4 (drop off buf)) (take fl (drop (off + 4) buf)))"
proof -
  let ?key = "[buf ! off, buf ! (off + 1), buf ! (off + 2), buf ! (off + 3)]"
  have key: "take 4 (drop off buf) = ?key"
    using assms by (intro nth_equalityI) (auto simp: less_Suc_eq numeral_eq_Suc)
  have "map (\<lambda>i. buf ! (off + 4 + i) XOR ?key ! (i mod 4)) [0..<fl] =
      mask_bytes ?key (take fl (drop (off + 4) buf))"
    using assms by (simp add: mask_bytes_def)
  with assms key show ?thesis
    by (simp add: decode_payload_def unmask_loop_in)
qed

lemma decode_payload_plain:
  assumes "off + fl \<le> length buf" and "fl \<le> length pl"
  shows "decode_payload buf False off old fl pl = Inr (take fl (drop off buf) @ drop fl pl)"
  using assms by (simp add: decode_payload_def memcpy_def)

lemma vec_resize_ok:
  "alloc n \<Longrightarrow> n < 2 ^ 63 \<Longrightarrow> vec_resize alloc v n = Inr (resized v n)"
  by (simp add: vec_resize_def)

text \<open>Decoding a whole RFC 6455 frame.\<close>

lemma decode_rfc_frame:
  assumes "2 \<le> len" and "opcode \<le> 15" and "length old + length p < 2 ^ 63"
    and "alloc (length old + length p)"
  shows "decode alloc (rfc_frame fin opcode key p @ rest) len old =
    bindR (decode_payload (rfc_frame fin opcode key p @ rest) (key \<noteq> None)
             (ext_len (length p)) (length old) (length p) (old @ replicate (length p) 0))
      (\<lambda>filled. Inr (fin, filled, opcode))"
proof -
  let ?f = "rfc_frame fin opcode key p @ rest"
  let ?b1 = "(if key \<noteq> None then 0x80 else 0) OR len7 (length p)"
  have long: "Suc 0 < length ?f"
    using ext_len_ge_2 [of "length p"] by (simp add: length_rfc_frame)
  have sum: "unat (of_nat (length old) + of_nat (length p) :: size_t) = length old + length p"
    using assms(3) by (simp add: unat_of_nat flip: of_nat_add)
  have len: "unat (of_nat (length p) :: size_t) = length p"
    using assms(3) by (simp add: unat_of_nat)
  have "length p < 2 ^ 64" using assms(3) by simp
  then have dl: "decode_length ?f ?b1 = Inr (of_nat (length p), ext_len (length p))"
    by (rule decode_length_rfc_frame)
  have b0: "((if fin then 0x80 else 0) OR opcode) AND 0x80 = 0x80 \<longleftrightarrow> fin"
    "((if fin then 0x80 else 0) OR opcode) AND 0x0f = opcode"
    using unat_le_15 [OF assms(2)] flag_bit [of opcode fin] flag_low4 [of opcode fin]
    by (simp_all add: high_bit low4)
  have b1: "?b1 AND 0x80 = 0x80 \<longleftrightarrow> key \<noteq> None"
    unfolding high_bit by (rule flag_bit) (simp add: unat_len7)
  show ?thesis
    unfolding decode_def
    using assms long by (simp only: load_in One_nat_def bindR_simps rfc_frame_0 rfc_frame_1 dl b0 b1)
      (simp add: sum len vec_resize_ok resized_grow load_in)
qed

lemma decode_masked:
  assumes "2 \<le> len" and "opcode \<le> 15" and "length old + length p < 2 ^ 63"
    and "alloc (length old + length p)" and "length key = 4"
  shows "decode alloc (rfc_frame fin opcode (Some key) p @ rest) len old = Inr (fin, old @ p, opcode)"
proof -
  let ?f = "rfc_frame fin opcode (Some key) p @ rest"
  have "drop (ext_len (length p)) ?f = key @ mask_bytes key p @ rest"
    and "drop (ext_len (length p) + 4) ?f = mask_bytes key p @ rest"
    using assms(5) by (simp_all add: rfc_frame_def)
  with assms show ?thesis
    by (subst decode_rfc_frame) (simp_all add: decode_payload_masked length_rfc_frame mask_bytes_twice)
qed

lemma decode_plain:
  assumes "2 \<le> len" and "opcode \<le> 15" and "length old + length p < 2 ^ 63"
    and "alloc (length old + length p)"
  shows "decode alloc (rfc_frame fin opcode None p @ rest) len old =
    Inr (fin, p @ drop (length p) (old @ replicate (length p) 0), opcode)"
  using assms
  by (subst decode_rfc_frame) (simp_all add: decode_payload_plain length_rfc_frame rfc_frame_def)

lemma decode_len_irrelevant:
  "2 \<le> len \<Longrightarrow> 2 \<le> len' \<Longrightarrow> decode alloc buf len old = decode alloc buf len' old"
  by (simp add: decode_def)

section \<open>Properties\<close>

text \<open>A frame built by the constructor is the RFC 6455 frame of its arguments: FIN bit and
  opcode, the payload length in 7 or in 7+16 bits, no mask, then the payload.\<close>

theorem ws_frame_new_rfc:
  assumes "opcode \<le> 15" and "n \<le> 65535" and "n \<le> length payload"
  shows "ws_frame_new payload n fin opcode =
    Inr \<lparr>frame_data = rfc_frame fin opcode None (take n payload)\<rparr>"
  using assms by (rule ws_frame_new_ok)

theorem ws_frame_new_rfc_witness:
  "ws_frame_new [1, 2] 2 True OPCODE_CONNECTION_PONG =
     Inr \<lparr>frame_data = [0x8A, 0x02, 0x01, 0x02]\<rparr>"
  using ws_frame_new_rfc [of OPCODE_CONNECTION_PONG 2 "[1, 2]" True]
  by (simp add: rfc_frame_def rfc_header_def opcode_defs)

text \<open>The constructor refuses an opcode above 15 and, after that, a payload longer than 65535
  bytes, and refuses nothing else.\<close>

theorem ws_frame_new_errors:
  assumes "n \<le> length payload"
  shows "ws_frame_new payload n fin opcode = Inl e \<longleftrightarrow>
    (if 15 < opcode
     then e = Throw (Invalid_Argument ''WebSocket opcode must not be bigger than 15.'')
     else 65535 < n \<and>
       e = Throw (Invalid_Argument ''Payload length > UINT16_MAX currently not supported.''))"
  using assms ws_frame_new_bad_opcode [of opcode payload n fin]
    ws_frame_new_too_long [of opcode n payload fin] ws_frame_new_ok [of opcode n payload fin]
  by (cases "15 < opcode"; cases "65535 < n") (auto simp: not_less)

theorem ws_frame_new_errors_witness:
  "ws_frame_new [7] 1 True 16 =
     Inl (Throw (Invalid_Argument ''WebSocket opcode must not be bigger than 15.''))"
  using ws_frame_new_errors [of 1 "[7]" True 16] by simp

text \<open>The accessors read back what the constructor was given: the FIN flag, a clear mask bit,
  the payload length and the payload, and the frame is 2 or 4 bytes longer than its payload.\<close>

theorem ws_frame_accessors:
  assumes "ws_frame_new payload n fin opcode = Inr f" and "n \<le> length payload"
  shows "frame_fin f = Inr fin \<and> frame_mask f = Inr False \<and> payloadLength f = Inr n
    \<and> frame_payload f = Inr (take n payload)
    \<and> frame_length f = (if n < 126 then 2 else 4) + n"
proof -
  let ?d = "rfc_frame fin opcode None (take n payload)"
  have f: "f = \<lparr>frame_data = ?d\<rparr>" and op: "unat opcode < 16" and n: "n \<le> 65535"
    using ws_frame_new_Inr [OF assms] unat_le_15 by auto
  have len: "length ?d = ext_len n + n"
    using assms(2) by (simp add: length_rfc_frame)
  have long: "0 < length ?d" "Suc 0 < length ?d"
    using ext_len_ge_2 [of n] len by simp_all
  have pl: "payloadLength f = Inr n"
    using payloadLength_rfc_frame [of "take n payload" fin opcode None] n assms(2) f by simp
  have fin: "frame_fin f = Inr fin"
    using long rfc_frame_0 [of fin opcode None "take n payload" "[]"] flag_bit [of opcode fin] op
    by (simp add: f frame_fin_def high_bit)
  have "\<not> bit (len7 n) 7"
    using flag_bit [of "len7 n" False] by (simp add: unat_len7)
  then have mask: "frame_mask f = Inr False"
    using long rfc_frame_1 [of fin opcode None "take n payload" "[]"] assms(2)
    by (simp add: f frame_mask_def high_bit)
  show ?thesis
    using pl fin mask len n assms(2)
    by (auto simp: frame_payload_def frame_length_def f rfc_frame_def ext_len_def)
qed

theorem ws_frame_accessors_witness:
  "\<exists>f. ws_frame_new [1, 2] 2 True OPCODE_CONNECTION_PONG = Inr f \<and> frame_fin f = Inr True
     \<and> payloadLength f = Inr 2 \<and> frame_payload f = Inr [1, 2] \<and> frame_length f = 4"
proof -
  have "ws_frame_new [1, 2] 2 True OPCODE_CONNECTION_PONG =
      Inr \<lparr>frame_data = [0x8A, 0x02, 0x01, 0x02]\<rparr>"
    by code_simp
  from ws_frame_accessors [OF this] this show ?thesis by simp
qed

text \<open>C24. What the constructor encodes, the decoder decodes: from a buffer that starts with the
  frame, into an empty vector, it yields the FIN flag, the payload and the opcode.\<close>

theorem frame_roundtrip:
  assumes "ws_frame_new payload n fin opcode = Inr f" and "n \<le> length payload"
    and "alloc n" and "2 \<le> len"
  shows "decode alloc (frame_data f @ rest) len [] = Inr (fin, take n payload, opcode)"
  using ws_frame_new_Inr [OF assms(1,2)] assms decode_plain [of len opcode "[]" "take n payload" alloc]
  by simp

theorem frame_roundtrip_witness:
  "decode (\<lambda>n. n \<le> 100) ([0x8A, 0x02, 0x01, 0x02] @ [7, 7]) 4 [] = Inr (True, [1, 2], 0x0A)"
proof -
  have "ws_frame_new [1, 2] 2 True 0x0A = Inr \<lparr>frame_data = [0x8A, 0x02, 0x01, 0x02]\<rparr>"
    by code_simp
  from frame_roundtrip [OF this, of "\<lambda>n. n \<le> 100" 4 "[7, 7]"] show ?thesis by simp
qed

text \<open>C8. A frame of a client (RFC 6455: masked, any of the three length forms) is unmasked and
  its payload appended to the vector, so a message arrives whole however it is fragmented.\<close>

theorem decode_client_frame:
  assumes "2 \<le> len" and "opcode \<le> 15" and "length key = 4"
    and "length old + length p < 2 ^ 63" and "alloc (length old + length p)"
  shows "decode alloc (rfc_frame fin opcode (Some key) p @ rest) len old = Inr (fin, old @ p, opcode)"
  using assms by (intro decode_masked)

theorem decode_client_frame_witness:
  "decode (\<lambda>n. n \<le> 100) ([0x81, 0x82, 1, 2, 3, 4, 0x49, 0x6B] @ []) 8 [9] = Inr (True, [9, 72, 105], 1)"
proof -
  have "rfc_frame True 1 (Some [1, 2, 3, 4]) [72, 105] = [0x81, 0x82, 1, 2, 3, 4, 0x49, 0x6B]"
    by code_simp
  with decode_client_frame [of 8 1 "[1, 2, 3, 4]" "[9]" "[72, 105]" "\<lambda>n. n \<le> 100" True "[]"]
  show ?thesis by simp
qed

text \<open>An unmasked frame is copied to the start of the vector and not behind the bytes it
  holds: a second fragment overwrites the first, and zeros take the place where it belongs.\<close>

theorem decode_unmasked_overwrites:
  assumes "2 \<le> len" and "opcode \<le> 15" and "length old + length p < 2 ^ 63"
    and "alloc (length old + length p)" and "length p \<le> length old"
  shows "decode alloc (rfc_frame fin opcode None p @ rest) len old =
    Inr (fin, p @ drop (length p) old @ replicate (length p) 0, opcode)"
  using assms by (simp add: decode_plain)

theorem decode_unmasked_overwrites_witness:
  "decode (\<lambda>n. n \<le> 100) ([0x80, 0x02, 3, 4] @ []) 4 [1, 2] = Inr (True, [3, 4, 0, 0], 0)"
proof -
  have "rfc_frame True 0 None [3, 4] = [0x80, 0x02, 3, 4]"
    by code_simp
  with decode_unmasked_overwrites [of 4 0 "[1, 2]" "[3, 4]" "\<lambda>n. n \<le> 100" True "[]"]
  show ?thesis by simp
qed

text \<open>The decoder trusts the length field of the frame and not the number of bytes received:
  of a masked frame of which only the header and the key have arrived, the payload is whatever the
  receive buffer holds behind them (XORed with the key the peer chose).\<close>

theorem decode_reads_stale_bytes:
  assumes "opcode \<le> 15" and "length key = 4"
    and "length stale < 2 ^ 63" and "alloc (length stale)"
    and "received = rfc_header fin opcode True (length stale) @ key"
  shows "decode alloc (received @ stale @ rest) (length received) [] =
    Inr (fin, mask_bytes key stale, opcode)"
proof -
  have "received @ stale @ rest = rfc_frame fin opcode (Some key) (mask_bytes key stale) @ rest"
    by (simp add: assms(5) rfc_frame_def mask_bytes_twice)
  moreover have "2 \<le> length received"
    using ext_len_ge_2 [of "length stale"] by (simp add: assms(5))
  then have "decode alloc (rfc_frame fin opcode (Some key) (mask_bytes key stale) @ rest)
      (length received) [] = Inr (fin, [] @ mask_bytes key stale, opcode)"
    using assms(1-4) by (intro decode_masked) simp_all
  ultimately show ?thesis by (simp only: append_Nil)
qed

theorem decode_reads_stale_bytes_witness:
  "decode (\<lambda>n. n \<le> 100) ([0x82, 0x83, 0, 0, 0, 0] @ [115, 101, 99] @ []) 6 [] =
     Inr (True, [115, 101, 99], 2)"
proof -
  have received: "[0x82, 0x83, 0, 0, 0, 0] =
      rfc_header True 2 True (length [115, 101, 99 :: byte]) @ [0, 0, 0, 0]"
    and six: "(6 :: nat) = Suc (Suc (Suc (Suc (Suc (Suc 0)))))"
    and unmasked: "mask_bytes [0, 0, 0, 0] [115, 101, 99] = [115, 101, 99]"
    by (code_simp, simp, code_simp)
  from decode_reads_stale_bytes [where received = "[0x82, 0x83, 0, 0, 0, 0]" and rest = "[]"
      and alloc = "\<lambda>n. n \<le> 100", OF _ _ _ _ received] unmasked
  show ?thesis by (simp add: six)
qed

section \<open>Which frames the decoder may read\<close>

text \<open>The bytes a frame claims to occupy: header, masking key and payload.\<close>

definition claimed_length :: "byte list \<Rightarrow> nat" where
  "claimed_length buf =
     (let l = unat (buf ! 1 AND 0x7f)
      in if l = 126 then be_val (take 2 (drop 2 buf))
         else if l = 127 then be_val (take 8 (drop 2 buf)) else l)"

definition header_length :: "byte list \<Rightarrow> nat" where
  "header_length buf =
     (let l = unat (buf ! 1 AND 0x7f) in if l = 126 then 4 else if l = 127 then 10 else 2)"

definition frame_extent :: "byte list \<Rightarrow> nat" where
  "frame_extent buf =
     header_length buf + (if buf ! 1 AND 0x80 = 0x80 then 4 else 0) + claimed_length buf"

lemma claimed_length_less: "claimed_length buf < 2 ^ 64"
proof -
  have "unat (buf ! 1 AND 0x7f) < 2 ^ LENGTH(8)"
    by (rule unsigned_less)
  then show ?thesis
    using be_val_take_less [of 2 "drop 2 buf"] be_val_take_less [of 8 "drop 2 buf"]
    by (simp add: claimed_length_def Let_def)
qed

lemma decode_length_claimed:
  assumes "10 \<le> length buf"
  shows "decode_length buf (buf ! 1) = Inr (of_nat (claimed_length buf), header_length buf)"
proof -
  let ?l = "buf ! 1 AND 0x7f"
  have small: "unat ?l < 2 ^ LENGTH(8)"
    by (rule unsigned_less)
  then have tb: "take_bit 64 (unat ?l) = unat ?l"
    by (simp add: take_bit_nat_eq_self_iff)
  have eqs: "(ucast ?l :: size_t) = 126 \<longleftrightarrow> unat ?l = 126" "(ucast ?l :: size_t) = 127 \<longleftrightarrow> unat ?l = 127"
    using tb by (simp_all add: word_unat_eq_iff unsigned_ucast_eq)
  have u16: "(ucast (of_nat (be_val (take 2 (drop 2 buf))) :: 16 word) :: size_t) =
      of_nat (be_val (take 2 (drop 2 buf)))"
    using be_val_take_less [of 2 "drop 2 buf"]
    by (simp add: word_unat_eq_iff unsigned_ucast_eq unat_of_nat take_bit_nat_eq_self_iff)
  have "(ntoh buf 2 :: 16 word res) = Inr (of_nat (be_val (take 2 (drop 2 buf))))"
    and "(ntoh buf 2 :: 64 word res) = Inr (of_nat (be_val (take 8 (drop 2 buf))))"
    using assms by (simp_all add: ntoh_be)
  with u16 eqs show ?thesis
    by (simp add: decode_length_def claimed_length_def header_length_def Let_def word_unat_eq_iff
        unsigned_ucast_eq tb)
qed

lemma decode_claimed:
  assumes "2 \<le> len" and "10 \<le> length buf"
  shows "decode alloc buf len old =
    bindR (vec_resize alloc old ((length old + claimed_length buf) mod 2 ^ 64)) (\<lambda>grown.
    bindR (decode_payload buf (buf ! 1 AND 0x80 = 0x80) (header_length buf) (length old)
             (claimed_length buf) grown)
      (\<lambda>filled. Inr (buf ! 0 AND 0x80 = 0x80, filled, buf ! 0 AND 0x0f)))"
proof -
  have len: "unat (of_nat (claimed_length buf) :: size_t) = claimed_length buf"
    using claimed_length_less [of buf] by (simp add: unat_of_nat)
  have sum: "unat (of_nat (length old) + of_nat (claimed_length buf) :: size_t) =
      (length old + claimed_length buf) mod 2 ^ 64"
    by (simp add: unat_of_nat flip: of_nat_add)
  have "1 < length buf" and "0 < length buf" using assms(2) by linarith+
  then show ?thesis
    unfolding decode_def using assms
    by (simp only: load_in bindR_simps decode_length_claimed) (simp add: Let_def len sum)
qed

lemma header_length_le_10: "header_length buf \<le> 10"
  by (simp add: header_length_def Let_def)

lemma decode_payload_outcome:
  assumes "off \<le> length buf" and "length pl = old + fl"
  shows "if off + (if m then 4 else 0) + fl \<le> length buf
    then \<exists>p. decode_payload buf m off old fl pl = Inr p
    else decode_payload buf m off old fl pl = Inl (UB Read_Out_Of_Bounds)"
proof (cases "m \<and> off + 4 \<le> length buf")
  case True
  with assms show ?thesis
    using decode_payload_masked [of off fl buf pl old] unmask_loop_out [of buf off fl old pl 0]
    by (auto simp: decode_payload_def)
next
  case False
  then show ?thesis
    using assms by (auto simp: decode_payload_def load_def memcpy_def)
qed

text \<open>C25. The exact limit of memory safety: provided the buffer holds the longest header and the
  vector can be grown, decoding is undefined behaviour precisely when the frame's own length field
  claims more bytes than the receive buffer has; it is a read out of bounds, and otherwise the
  decoder returns.\<close>

theorem decode_memory_safe_iff:
  assumes "2 \<le> len" and "10 \<le> length buf"
    and "length old + claimed_length buf < 2 ^ 63" and "alloc (length old + claimed_length buf)"
  shows "if frame_extent buf \<le> length buf
    then \<exists>r. decode alloc buf len old = Inr r
    else decode alloc buf len old = Inl (UB Read_Out_Of_Bounds)"
  using assms decode_payload_outcome [of "header_length buf" buf
      "old @ replicate (claimed_length buf) 0" "length old" "claimed_length buf"
      "buf ! 1 AND 0x80 = 0x80"] header_length_le_10 [of buf]
  by (auto simp: decode_claimed vec_resize_ok resized_grow frame_extent_def split: if_splits)

theorem decode_memory_safe_iff_witness:
  "decode (\<lambda>n. n \<le> 100) [0x82, 0x0B, 1, 2, 3, 4, 5, 6, 7, 8] 10 [] = Inl (UB Read_Out_Of_Bounds)"
proof -
  have "claimed_length [0x82, 0x0B, 1, 2, 3, 4, 5, 6, 7, 8] = 11"
    and "frame_extent [0x82, 0x0B, 1, 2, 3, 4, 5, 6, 7, 8] = 13"
    by code_simp+
  with decode_memory_safe_iff [of 10 "[0x82, 0x0B, 1, 2, 3, 4, 5, 6, 7, 8]" "[]" "\<lambda>n. n \<le> 100"]
  show ?thesis by simp
qed

text \<open>The sum of the vector's size and the claimed length wraps around: a masked continuation
  frame that claims nearly \<open>2\<^sup>6\<^sup>4\<close> bytes makes the vector shorter than it was, and the first
  unmasked byte is written out of its bounds.\<close>

theorem decode_length_wraps:
  assumes "2 \<le> len" and "10 \<le> length buf" and "header_length buf + 4 < length buf"
    and "buf ! 1 AND 0x80 = 0x80" and "length old < 2 ^ 63"
    and "2 ^ 64 \<le> length old + claimed_length buf"
    and "alloc (length old + claimed_length buf - 2 ^ 64)"
  shows "decode alloc buf len old = Inl (UB Write_Out_Of_Bounds)"
proof -
  let ?n = "length old + claimed_length buf - 2 ^ 64"
  have "(2 :: nat) ^ 63 < 2 ^ 64" by simp
  then have less: "?n < length old" and nz: "0 < claimed_length buf"
    using claimed_length_less [of buf] assms(5,6) by linarith+
  have wrap: "(length old + claimed_length buf) mod 2 ^ 64 = ?n"
    using assms(5,6) less by (subst le_mod_geq) simp_all
  have "unmask_loop buf (header_length buf) key (length old) (claimed_length buf) 0 (resized old ?n)
      = Inl (UB Write_Out_Of_Bounds)" for key
    using assms(3) nz less by (subst unmask_loop.simps) (simp add: store_out)
  with assms less show ?thesis
    by (simp only: decode_claimed wrap) (simp add: vec_resize_ok decode_payload_def)
qed

theorem decode_length_wraps_witness:
  "decode (\<lambda>n. n \<le> 100) [0x80, 0xFF, 255, 255, 255, 255, 255, 255, 255, 254, 0, 0, 0, 0, 7] 15 [1, 2, 3]
     = Inl (UB Write_Out_Of_Bounds)"
proof -
  let ?buf = "[0x80, 0xFF, 255, 255, 255, 255, 255, 255, 255, 254, 0, 0, 0, 0, 7] :: byte list"
  have "claimed_length ?buf = 18446744073709551614" and "header_length ?buf = 10"
    by (simp_all add: claimed_length_def header_length_def Let_def)
  with decode_length_wraps [of 15 ?buf "[1, 2, 3]" "\<lambda>n. n \<le> 100"]
  show ?thesis by simp
qed

end
