(* ===== verification/Ws_Handler.thy ===== *)
theory Ws_Handler
  imports Ws_Frame Tcp_Connection
begin

text \<open>
  The application's side of a WebSocket: \<^verbatim>\<open>class WsConnection\<close>, \<^verbatim>\<open>WsHandler\<close> and the factories
  of \<^verbatim>\<open>src/http/socks_ws_handler.hpp\<close> and \<^verbatim>\<open>socks_ws_handler.cpp\<close>, and the handler of
  \<^verbatim>\<open>examples/ws_echo/main.cpp\<close>.

  A \<^verbatim>\<open>WsConnection\<close> only holds the pointer to the TCP connection, so its operations are actions
  on that connection's \<open>io\<close>; a handler is the record of its virtual functions, its own data are in
  \<open>io_user\<close>. Two connections appear in one place only: the function-local static of
  \<^verbatim>\<open>WsHandlerNullFactory\<close>, which is modelled over a map from addresses to connections.
\<close>

section \<open>The code\<close>

definition ws_send_data :: "byte list \<Rightarrow> nat \<Rightarrow> ('u io, nat) act" where
  "ws_send_data buf len =
     bindA (liftR (ws_frame_new buf len True OPCODE_BINARY)) (\<lambda>response.
     thenA (conn_send (frame_data response)) (liftR (payloadLength response)))"

definition ws_send_text :: "byte list \<Rightarrow> ('u io, nat) act" where
  "ws_send_text buf =
     bindA (liftR (ws_frame_new_text buf)) (\<lambda>response.
     thenA (conn_send (frame_data response)) (liftR (payloadLength response)))"

definition ws_close :: "('u io, unit) act" where
  "ws_close =
     bindA (liftR (createConnectionClose 0)) (\<lambda>message.
     thenA (conn_send (frame_data message)) conn_close)"

record 'u ws_handler =
  wh_onConnect :: "('u io, unit) act"
  wh_onData :: "byte list \<Rightarrow> nat \<Rightarrow> ('u io, unit) act"
  wh_onText :: "byte list \<Rightarrow> ('u io, unit) act"
  wh_onDisconnect :: "('u io, unit) act"
  wh_subprotocol :: string

text \<open>The default \<^verbatim>\<open>onText\<close> hands the text to \<^verbatim>\<open>onData\<close>, the default \<^verbatim>\<open>subprotocol\<close> is
  empty.\<close>

definition default_onText ::
  "(byte list \<Rightarrow> nat \<Rightarrow> ('u io, unit) act) \<Rightarrow> byte list \<Rightarrow> ('u io, unit) act"
where
  "default_onText onData buf = bindA (liftR (strlen buf)) (\<lambda>n. onData buf n)"

definition default_subprotocol :: string where "default_subprotocol = ''''"

type_synonym 'u ws_handler_factory = "('u io, 'u ws_handler) act"

definition null_onData :: "byte list \<Rightarrow> nat \<Rightarrow> ('u io, unit) act" where
  "null_onData buf len = retA ()"

definition ws_handler_null :: "'u ws_handler" where
  "ws_handler_null =
     \<lparr>wh_onConnect = retA (), wh_onData = null_onData, wh_onText = default_onText null_onData,
      wh_onDisconnect = retA (), wh_subprotocol = default_subprotocol\<rparr>"

definition echo_onData :: "byte list \<Rightarrow> nat \<Rightarrow> ('u io, unit) act" where
  "echo_onData buf len = thenA (ws_send_data buf len) (retA ())"

definition echo_onText :: "byte list \<Rightarrow> ('u io, unit) act" where
  "echo_onText buf = thenA (ws_send_text buf) (retA ())"

definition ws_echo_handler :: "'u ws_handler" where
  "ws_echo_handler =
     \<lparr>wh_onConnect = log_io (Log_Info ''WebSocket connect.''),
      wh_onData = echo_onData, wh_onText = echo_onText,
      wh_onDisconnect = log_io (Log_Info ''WebSocket disconnect.''),
      wh_subprotocol = default_subprotocol\<rparr>"

text \<open>\<^verbatim>\<open>WsHandlerFactoryDefault<T>\<close>: a new \<open>T\<close> for every connection.\<close>

definition ws_factory_default :: "'u ws_handler \<Rightarrow> 'u ws_handler_factory" where
  "ws_factory_default T = retA T"

subsection \<open>The null factory's static handler\<close>

text \<open>An address is a natural number; a connection that has been destroyed is \<open>None\<close>, and an
  operation through a pointer to it is undefined.\<close>

type_synonym 'u connections = "nat \<Rightarrow> 'u io option"

definition at_conn :: "nat \<Rightarrow> ('u io, 'a) act \<Rightarrow> ('u connections, 'a) act" where
  "at_conn c m conns =
     (case conns c of
        None \<Rightarrow> (Inl (UB Dangling_Pointer), conns)
      | Some i \<Rightarrow> (case m i of (r, i') \<Rightarrow> (r, conns(c \<mapsto> i'))))"

text \<open>The state is the static \<^verbatim>\<open>wsHandlerNull\<close>: the address its \<^verbatim>\<open>connection_\<close> holds, once it is
  initialised. The result is the address the returned handler's \<^verbatim>\<open>connection()\<close> holds.\<close>

definition null_createWsHandler :: "nat \<Rightarrow> (nat option, nat) act" where
  "null_createWsHandler tcpConnection wsHandlerNull =
     (case wsHandlerNull of
        None \<Rightarrow> (Inr tcpConnection, Some tcpConnection)
      | Some c \<Rightarrow> (Inr c, Some c))"

section \<open>What a frame puts on the wire\<close>

lemma payloadLength_new:
  "ws_frame_new p n fin opcode = Inr f \<Longrightarrow> n \<le> length p \<Longrightarrow> payloadLength f = Inr n"
  using ws_frame_new_Inr [of p n fin opcode f] payloadLength_rfc_frame [of "take n p" fin opcode None]
  by simp

lemma length_frame_small: "length p \<le> 65535 \<Longrightarrow> length (rfc_frame fin opcode None p) < 2 ^ 64"
  by (simp add: length_rfc_frame ext_len_def)

lemma send_frame:
  assumes "opcode \<le> 15" and "length p \<le> 65535"
    and "conn_ready (length (rfc_frame True opcode None p) + n) i"
  shows "\<exists>i'. conn_send (rfc_frame True opcode None p) i =
      (Inr (of_nat (length (rfc_frame True opcode None p))), i')
    \<and> io_wire i' = io_wire i @ rfc_frame True opcode None p
    \<and> conn_ready n i' \<and> io_rest i' = io_rest i"
  using tcp.send_ready [OF assms(3) length_frame_small [OF assms(2)]] by blast

lemma strlen_terminated: "0 \<notin> set p \<Longrightarrow> strlen (p @ 0 # q) = Inr (length p)"
  by (auto simp: strlen_def takeWhile_append)

lemma ws_frame_new_text_ok:
  "0 \<notin> set p \<Longrightarrow> length p \<le> 65535 \<Longrightarrow>
   ws_frame_new_text (p @ 0 # q) = Inr \<lparr>frame_data = rfc_frame True OPCODE_TEXT None p\<rparr>"
  by (simp add: ws_frame_new_text_def strlen_terminated ws_frame_new_ok OPCODE_TEXT_def)

lemma ws_send_text_ready:
  assumes "0 \<notin> set p" and "length p \<le> 65535"
    and "conn_ready (length (rfc_frame True OPCODE_TEXT None p) + n) i"
  shows "\<exists>i'. ws_send_text (p @ 0 # q) i = (Inr (length p), i')
    \<and> io_wire i' = io_wire i @ rfc_frame True OPCODE_TEXT None p
    \<and> conn_ready n i' \<and> io_rest i' = io_rest i"
proof -
  have op: "OPCODE_TEXT \<le> 15" by (simp add: OPCODE_TEXT_def)
  have "payloadLength \<lparr>frame_data = rfc_frame True OPCODE_TEXT None p\<rparr> = Inr (length p)"
    by (rule payloadLength_new [of p _ True OPCODE_TEXT])
      (simp_all add: ws_frame_new_ok op assms(2))
  with send_frame [OF op assms(2,3)] show ?thesis
    by (auto simp: ws_send_text_def ws_frame_new_text_ok assms(1,2) thenA_app)
qed

lemma ws_send_data_ready:
  assumes "length p \<le> 65535"
    and "conn_ready (length (rfc_frame True OPCODE_BINARY None p) + n) i"
  shows "\<exists>i'. ws_send_data (p @ q) (length p) i = (Inr (length p), i')
    \<and> io_wire i' = io_wire i @ rfc_frame True OPCODE_BINARY None p
    \<and> conn_ready n i' \<and> io_rest i' = io_rest i"
proof -
  have op: "OPCODE_BINARY \<le> 15" by (simp add: OPCODE_BINARY_def)
  have new: "ws_frame_new (p @ q) (length p) True OPCODE_BINARY =
      Inr \<lparr>frame_data = rfc_frame True OPCODE_BINARY None p\<rparr>"
    using ws_frame_new_ok [OF op assms(1), of "p @ q" True] by simp
  have "payloadLength \<lparr>frame_data = rfc_frame True OPCODE_BINARY None p\<rparr> = Inr (length p)"
    by (rule payloadLength_new [OF new]) simp
  with send_frame [OF op assms(1,2)] new show ?thesis
    by (auto simp: ws_send_data_def thenA_app)
qed

lemma ws_send_data_too_long:
  "65535 < len \<Longrightarrow> ws_send_data buf len i =
    (Inl (Throw (Invalid_Argument ''Payload length > UINT16_MAX currently not supported.'')), i)"
  by (simp add: ws_send_data_def ws_frame_new_too_long OPCODE_BINARY_def)

definition close_frame :: "byte list" where
  "close_frame = [0x88, 0x02, 0x00, 0x00]"

lemma createConnectionClose_0: "createConnectionClose 0 = Inr \<lparr>frame_data = close_frame\<rparr>"
  by code_simp

lemma ws_close_ready:
  assumes "conn_ready (4 + n) i"
  shows "\<exists>i'. ws_close i = (Inr (), i'\<lparr>io_closed := True\<rparr>)
    \<and> io_wire i' = io_wire i @ close_frame \<and> conn_ready n i' \<and> io_rest i' = io_rest i"
proof -
  have "length close_frame = 4" by (simp add: close_frame_def)
  with assms have "conn_ready (length close_frame + n) i" "length close_frame < 2 ^ 64"
    by simp_all
  from tcp.send_ready [OF this] show ?thesis
    by (auto simp: ws_close_def createConnectionClose_0 thenA_app conn_close_def)
qed

section \<open>The interface of a handler\<close>

text \<open>What the WebSocket state relies on: every callback is polite.\<close>

locale polite_ws_handler =
  fixes handler :: "'u ws_handler"
  assumes onConnect_polite: "polite (wh_onConnect handler)"
    and onData_polite: "polite (wh_onData handler buf len)"
    and onText_polite: "polite (wh_onText handler buf)"
    and onDisconnect_polite: "polite (wh_onDisconnect handler)"

lemma polite_ws_operations [simp]:
  "polite (ws_send_data buf len)" "polite (ws_send_text buf)" "polite ws_close"
  unfolding ws_send_data_def ws_send_text_def ws_close_def
  by (intro polite_bindA polite_thenA polite_basic polite_send)+

interpretation ws_echo: polite_ws_handler ws_echo_handler
  by unfold_locales (auto simp: ws_echo_handler_def echo_onData_def echo_onText_def)

interpretation ws_null: polite_ws_handler ws_handler_null
  by unfold_locales (auto simp: ws_handler_null_def null_onData_def default_onText_def)

section \<open>Properties\<close>

text \<open>Sending a message: \<^verbatim>\<open>WsConnection::send\<close> puts one unmasked RFC 6455 frame with FIN set
  on the wire, a text frame with the characters before the terminator or a binary frame with the
  given bytes, and returns the payload length; a binary message of more than 65535 bytes is
  refused with nothing sent.\<close>

theorem ws_send_frames:
  assumes "\<not> io_closed i" and "\<forall>a \<in> set (io_sends i). \<exists>k > 0. a = Sent k"
    and "length p + 4 \<le> length (io_sends i)"
  shows "if length p \<le> 65535
    then (\<exists>i'. ws_send_data (p @ q) (length p) i = (Inr (length p), i')
        \<and> io_wire i' = io_wire i @ rfc_frame True OPCODE_BINARY None p)
      \<and> (0 \<notin> set p \<longrightarrow> (\<exists>i'. ws_send_text (p @ 0 # q) i = (Inr (length p), i')
        \<and> io_wire i' = io_wire i @ rfc_frame True OPCODE_TEXT None p))
    else ws_send_data (p @ q) (length p) i =
      (Inl (Throw (Invalid_Argument ''Payload length > UINT16_MAX currently not supported.'')), i)"
proof (cases "length p \<le> 65535")
  case True
  have "conn_ready (length (rfc_frame True opcode None p) + 0) i" for opcode
    using assms True by (auto simp: conn_ready_def io_willing_def length_rfc_frame ext_len_def)
  with True ws_send_data_ready [OF True] ws_send_text_ready [OF _ True] show ?thesis
    by (simp only: if_True) blast
next
  case False
  then show ?thesis by (simp add: ws_send_data_too_long)
qed

theorem ws_send_frames_witness:
  "\<exists>i'. ws_send_text [104, 105, 0] (io_start (replicate 6 (Sent 1)) [] [] ()) = (Inr 2, i')
    \<and> io_wire i' = [0x81, 0x02, 104, 105]"
proof -
  have "rfc_frame True OPCODE_TEXT None [104, 105] = [0x81, 0x02, 104, 105]"
    by code_simp
  with ws_send_frames [of "io_start (replicate 6 (Sent 1)) [] [] ()" "[104, 105]" "[]"]
  show ?thesis by (auto simp flip: numeral_2_eq_2)
qed

text \<open>The null factory hands every connection the handler of the first one: a close through the
  handler of connection \<open>b\<close> writes the close frame to \<open>a\<close> and closes \<open>a\<close>, \<open>b\<close> stays as it is; once
  \<open>a\<close> has been destroyed it follows a dangling pointer.\<close>

theorem null_factory_shares_first:
  assumes "a \<noteq> b"
  shows "\<exists>ha hb st. null_createWsHandler a None = (Inr ha, st)
    \<and> fst (null_createWsHandler b st) = Inr hb
    \<and> (\<forall>conns :: 'u connections. snd (at_conn hb ws_close conns) b = conns b)
    \<and> (\<forall>(conns :: 'u connections) i. conns a = Some i \<longrightarrow> snd (at_conn hb ws_close conns) a = Some (snd (ws_close i)))
    \<and> (\<forall>conns :: 'u connections. conns a = None \<longrightarrow> fst (at_conn hb ws_close conns) = Inl (UB Dangling_Pointer))"
  using assms
  by (auto simp: null_createWsHandler_def at_conn_def split: option.split prod.split)

theorem null_factory_shares_first_witness:
  "\<exists>hb. fst (null_createWsHandler 2 (snd (null_createWsHandler 1 None))) = Inr hb
    \<and> fst (at_conn hb ws_close [2 \<mapsto> io_start [] [] [] ()]) = Inl (UB Dangling_Pointer)"
  using null_factory_shares_first [of 1 2, where 'u = unit] by (auto simp del: One_nat_def)

end
