(* ===== verification/Tcp_Worker.thy ===== *)
theory Tcp_Worker
  imports Tcp_Connection
begin

text \<open>
  The thread that serves one connection: \<^verbatim>\<open>class ServerHandler\<close> of
  \<^verbatim>\<open>src/tcp/socks_tcp_handler.hpp\<close>, the interface it calls, and \<^verbatim>\<open>class ClientWorker\<close> of
  \<^verbatim>\<open>src/tcp/socks_tcp_worker.hpp\<close> and \<^verbatim>\<open>socks_tcp_worker.cpp\<close>.

  A handler class is the record of its virtual functions, acting on its own state \<open>'h\<close> and the
  connection's \<open>io\<close>. The loop polls the quit condition once per iteration; its list argument holds,
  for each iteration, the signal delivered before that check, so it is also what bounds the loop:
  a loop that has seen all of the list is \<open>Starved\<close>, not finished.
\<close>

section \<open>The code\<close>

record ('h, 'u) server_handler =
  sh_onConnect :: "('h \<times> 'u io, unit) act"
  sh_onReceive :: "byte list \<Rightarrow> nat \<Rightarrow> ('h \<times> 'u io, unit) act"
  sh_onDisconnect :: "('h \<times> 'u io, unit) act"

text \<open>An operation of the connection, seen from the handler.\<close>

definition on_io :: "('u io, 'a) act \<Rightarrow> ('h \<times> 'u io, 'a) act" where
  "on_io m = (\<lambda>(h, i). case m i of (r, i') \<Rightarrow> (r, (h, i')))"

fun worker_loop ::
  "('h, 'u) server_handler \<Rightarrow> int option list \<Rightarrow> byte list \<Rightarrow> ('h \<times> 'u io, unit) act"
where
  "worker_loop handler [] buf = failA Starved"
| "worker_loop handler (sig # sigs) buf =
     bindA (on_io (quitCondition sig)) (\<lambda>quit.
     if quit then retA ()
     else bindA (on_io isClosed) (\<lambda>closed.
     if closed then retA ()
     else bindA (on_io (sk_isReadable SocketImpl)) (\<lambda>readable.
     if \<not> readable then worker_loop handler sigs buf
     else bindA (on_io (sk_read SocketImpl buf)) (\<lambda>(len, buf').
     if len = NUM_EOF then retA ()
     else if len = NUM_CONTINUE then worker_loop handler sigs buf'
     else thenA (sh_onReceive handler buf' (nat len)) (worker_loop handler sigs buf')))))"

record ('h, 'u) worker =
  wk_state :: "'h \<times> 'u io"
  wk_isActive :: bool

text \<open>The constructor calls \<^verbatim>\<open>start\<close>, which sets \<^verbatim>\<open>_isActive\<close> before the thread exists.\<close>

definition worker_start :: "'h \<Rightarrow> 'u io \<Rightarrow> ('h, 'u) worker" where
  "worker_start h i = \<lparr>wk_state = (h, i), wk_isActive = True\<rparr>"

definition run_body ::
  "('h, 'u) server_handler \<Rightarrow> int option list \<Rightarrow> byte list \<Rightarrow> ('h \<times> 'u io, unit) act"
where
  "run_body handler sigs buf =
     thenA (sh_onConnect handler)
    (thenA (worker_loop handler sigs buf)
    (thenA (sh_onDisconnect handler)
           (on_io (sk_close SocketImpl))))"

definition worker_run ::
  "('h, 'u) server_handler \<Rightarrow> int option list \<Rightarrow> byte list \<Rightarrow> (('h, 'u) worker, unit) act"
where
  "worker_run handler sigs buf w =
     (case tryA (run_body handler sigs buf) (\<lambda>exc. on_io (log_io (Log_Error exc))) (wk_state w) of
        (Inr _, st) \<Rightarrow> (Inr (), w\<lparr>wk_state := st, wk_isActive := False\<rparr>)
      | (Inl e, st) \<Rightarrow> (Inl e, w\<lparr>wk_state := st\<rparr>))"

section \<open>Running operations of the connection\<close>

lemma on_io_app: "on_io m (h, i) = (fst (m i), (h, snd (m i)))"
  by (simp add: on_io_def split: prod.split)

lemma on_io_Inr: "m i = (r, i') \<Longrightarrow> on_io m (h, i) = (r, (h, i'))"
  by (simp add: on_io_app)

lemma quitCondition_None [simp]:
  "quitCondition None i = (Inr (io_signalStatus i \<noteq> 0), i)"
  by (simp add: quitCondition_def NO_SIGNAL_def)

lemma quitCondition_Some [simp]:
  "quitCondition (Some n) i = (Inr (n \<noteq> 0), i\<lparr>io_signalStatus := n\<rparr>)"
  by (simp add: quitCondition_def NO_SIGNAL_def sigHandler_def)

lemma isClosed_app [simp]: "isClosed i = (Inr (io_closed i), i)"
  by (simp add: isClosed_def)

lemma isReadable_ready:
  "io_polls i = Poll_Ready r # ps \<Longrightarrow> isReadable i = (Inr (r AND POLLIN \<noteq> 0), i\<lparr>io_polls := ps\<rparr>)"
  by (simp add: isReadable_def internalPoll_def)

lemma isReadable_timeout:
  "io_polls i = Poll_Timeout # ps \<Longrightarrow> isReadable i = (Inr False, i\<lparr>io_polls := ps\<rparr>)"
  by (simp add: isReadable_def internalPoll_def)

lemma fd_of_system_calls [simp]:
  "io_fd_open (snd (quitCondition sig i)) = io_fd_open i"
  "io_fd_open (snd (isReadable i)) = io_fd_open i"
  "io_fd_open (snd (sock_read buf i)) = io_fd_open i"
  by (cases sig; simp)
    (simp_all add: isReadable_def internalPoll_def sock_read_def Let_def
      split: list.split poll_answer.split recv_answer.split)

text \<open>A run in which every callback returns, and one that ends with an exception.\<close>

lemma worker_run_returns:
  assumes "sh_onConnect handler (wk_state w) = (Inr (), st1)"
    and "worker_loop handler sigs buf st1 = (Inr (), st2)"
    and "sh_onDisconnect handler st2 = (Inr (), (h, i))"
  shows "worker_run handler sigs buf w =
    (Inr (), w\<lparr>wk_state := (h, i\<lparr>io_fd_open := False\<rparr>), wk_isActive := False\<rparr>)"
proof -
  have "run_body handler sigs buf (wk_state w) = (Inr (), (h, i\<lparr>io_fd_open := False\<rparr>))"
    by (simp add: run_body_def thenA_app assms on_io_app sock_close_def)
  then show ?thesis
    by (simp add: worker_run_def tryA_Inr)
qed

lemma worker_run_throws:
  assumes "run_body handler sigs buf (wk_state w) = (Inl (Throw e), (h, i))"
  shows "worker_run handler sigs buf w =
    (Inr (), w\<lparr>wk_state := (h, i\<lparr>io_log := io_log i @ [Log_Error e]\<rparr>), wk_isActive := False\<rparr>)"
  by (simp add: worker_run_def tryA_Throw [where m = "run_body handler sigs buf", OF assms] on_io_app log_io_def)

text \<open>One iteration, by what the environment answers.\<close>

lemma worker_loop_quit:
  "n \<noteq> 0 \<Longrightarrow> worker_loop vt (Some n # sigs) buf (h, i) = (Inr (), (h, i\<lparr>io_signalStatus := n\<rparr>))"
  by (simp add: on_io_app bindA_app)

lemma worker_loop_closed:
  "io_closed i \<Longrightarrow> worker_loop vt (None # sigs) buf (h, i) = (Inr (), (h, i))"
  by (simp add: on_io_app bindA_app)

lemma worker_loop_idle:
  "io_signalStatus i = 0 \<Longrightarrow> \<not> io_closed i \<Longrightarrow> io_polls i = Poll_Timeout # ps \<Longrightarrow>
   worker_loop vt (None # sigs) buf (h, i) = worker_loop vt sigs buf (h, i\<lparr>io_polls := ps\<rparr>)"
  by (simp add: on_io_app bindA_app isReadable_timeout)

lemma worker_loop_receive:
  assumes "io_signalStatus i = 0" and "\<not> io_closed i" and "io_polls i = Poll_Ready POLLIN # ps"
    and "io_recvs i = Received d # rs" and "d \<noteq> []" and "length d \<le> length buf"
  shows "worker_loop vt (None # sigs) buf (h, i) =
    thenA (sh_onReceive vt (d @ drop (length d) buf) (length d))
      (worker_loop vt sigs (d @ drop (length d) buf)) (h, i\<lparr>io_polls := ps, io_recvs := rs\<rparr>)"
  using assms
  by (simp add: on_io_app bindA_app isReadable_ready sock_read_def Let_def POLLIN_def
      NUM_EOF_def NUM_CONTINUE_def)

lemma worker_loop_eof:
  assumes "io_signalStatus i = 0" and "\<not> io_closed i" and "io_polls i = Poll_Ready POLLIN # ps"
    and "io_recvs i = Received [] # rs"
  shows "worker_loop vt (None # sigs) buf (h, i) = (Inr (), (h, i\<lparr>io_polls := ps, io_recvs := rs\<rparr>))"
  using assms
  by (simp add: on_io_app bindA_app isReadable_ready sock_read_def Let_def POLLIN_def NUM_EOF_def)

section \<open>The interface of a server handler\<close>

text \<open>What the worker relies on from the callbacks: an invariant \<open>I\<close> that they keep, also when they
  throw, and that the calls of the loop itself cannot break.\<close>

locale callbacks_keep =
  fixes handler :: "('h, 'u) server_handler"
    and I :: "'h \<times> 'u io \<Rightarrow> bool"
  assumes connect_keeps: "I st \<Longrightarrow> I (snd (sh_onConnect handler st))"
    and receive_keeps: "I st \<Longrightarrow> length buf = MAX_SIZE \<Longrightarrow> 0 < len \<Longrightarrow> len \<le> MAX_SIZE \<Longrightarrow>
      I (snd (sh_onReceive handler buf len st))"
    and disconnect_keeps: "I st \<Longrightarrow> I (snd (sh_onDisconnect handler st))"
    and system_keeps: "I (h, i) \<Longrightarrow> io_sends i' = io_sends i \<Longrightarrow> io_wire i' = io_wire i \<Longrightarrow>
      io_closed i' = io_closed i \<Longrightarrow> io_user i' = io_user i \<Longrightarrow> io_fd_open i' = io_fd_open i \<Longrightarrow>
      I (h, i')"
begin

lemma quit_keeps: "keeps I (on_io (quitCondition sig))"
  by (rule keepsI, cases sig) (auto simp: on_io_app elim!: system_keeps)

lemma closed_keeps: "keeps I (on_io isClosed)"
  by (rule keepsI) (auto simp: on_io_app)

lemma readable_keeps: "keeps I (on_io isReadable)"
  by (rule keepsI)
    (auto simp: on_io_app isReadable_def internalPoll_def elim!: system_keeps
      split: list.split poll_answer.split)

lemma read_keeps: "keeps I (on_io (sock_read buf))"
  by (rule keepsI)
    (auto simp: on_io_app sock_read_def Let_def elim!: system_keeps
      split: list.split recv_answer.split)

lemma read_buffer:
  assumes "on_io (sock_read buf) st = (Inr (len, buf'), st')"
  shows "length buf' = length buf \<and> (len = NUM_CONTINUE \<or> 0 \<le> len \<and> len \<le> int (length buf))"
  using assms by (cases st)
    (auto simp: on_io_def sock_read_def Let_def split: list.splits recv_answer.splits if_splits)

lemma loop_keeps: "I st \<Longrightarrow> length buf = MAX_SIZE \<Longrightarrow> I (snd (worker_loop handler sigs buf st))"
proof (induction sigs arbitrary: buf st)
  case Nil
  then show ?case by simp
next
  case (Cons sig sigs)
  let ?rest = "\<lambda>(len, buf'). if len = NUM_EOF then retA ()
     else if len = NUM_CONTINUE then worker_loop handler sigs buf'
     else thenA (sh_onReceive handler buf' (nat len)) (worker_loop handler sigs buf')"
  have rest: "I (snd (bindA (on_io (sock_read buf)) ?rest st))" if "I st" for st
  proof -
    obtain r st1 where Pair: "on_io (sock_read buf) st = (r, st1)"
      by (metis surj_pair)
    with that have st1: "I st1" by (auto dest: keepsD [OF read_keeps])
    show ?thesis
    proof (cases r)
      case (Inl e)
      with Pair st1 show ?thesis by (simp add: bindA_Inl)
    next
      case (Inr x)
      obtain len buf' where x: "x = (len, buf')" by (cases x)
      have b: "length buf' = MAX_SIZE" "len = NUM_CONTINUE \<or> 0 \<le> len \<and> len \<le> int MAX_SIZE"
        using read_buffer Pair Inr x Cons.prems(2) by fastforce+
      have "I (snd (thenA (sh_onReceive handler buf' (nat len)) (worker_loop handler sigs buf') st1))"
        if "len \<noteq> NUM_EOF" "len \<noteq> NUM_CONTINUE"
      proof -
        have "I (snd (sh_onReceive handler buf' (nat len) st1))"
          using receive_keeps [OF st1 b(1), of "nat len"] b(2) that by (auto simp: NUM_EOF_def)
        then show ?thesis
          using Cons.IH [OF _ b(1)]
          by (auto simp: thenA_app split: prod.split sum.split)
      qed
      then show ?thesis
        using Pair Inr x st1 Cons.IH [OF st1 b(1)] by (simp add: bindA_Inr)
    qed
  qed
  have "keeps I (\<lambda>st. bindA (on_io (sock_read buf)) ?rest st)"
    using rest by (rule keepsI)
  moreover have "keeps I (worker_loop handler sigs buf)"
    using Cons.IH Cons.prems(2) by (intro keepsI)
  ultimately have "keeps I (worker_loop handler (sig # sigs) buf)"
    by (simp add: keeps_bindA quit_keeps closed_keeps readable_keeps)
  with Cons.prems(1) show ?case unfolding keeps_def by blast
qed

lemma session_keeps:
  assumes "length buf = MAX_SIZE"
  shows "keeps I (thenA (sh_onConnect handler)
    (thenA (worker_loop handler sigs buf) (sh_onDisconnect handler)))"
  using connect_keeps disconnect_keeps loop_keeps assms by (intro kept) (simp_all add: keeps_def)

lemma log_keeps: "keeps I (on_io (log_io l))"
  by (rule keepsI) (auto simp: on_io_app log_io_def elim!: system_keeps)

end

text \<open>A server handler proper: the callbacks leave the descriptor to the worker, and the invariant
  does not speak of it.\<close>

locale server_callbacks = callbacks_keep +
  assumes connect_fd: "I st \<Longrightarrow> io_fd_open (snd (snd (sh_onConnect handler st))) = io_fd_open (snd st)"
    and receive_fd: "I st \<Longrightarrow> length buf = MAX_SIZE \<Longrightarrow> 0 < len \<Longrightarrow> len \<le> MAX_SIZE \<Longrightarrow>
      io_fd_open (snd (snd (sh_onReceive handler buf len st))) = io_fd_open (snd st)"
    and disconnect_fd: "I st \<Longrightarrow>
      io_fd_open (snd (snd (sh_onDisconnect handler st))) = io_fd_open (snd st)"
    and close_keeps: "I (h, i) \<Longrightarrow> I (h, i\<lparr>io_fd_open := b\<rparr>)"

text \<open>The same laws with the descriptor fixed: what \<open>callbacks_keep\<close> proves of the loop then says
  that a session does not touch it.\<close>

sublocale server_callbacks \<subseteq> fd: callbacks_keep handler "\<lambda>st. I st \<and> io_fd_open (snd st) = b" for b
proof
  fix h and i i' :: "'b io"
  assume "I (h, i) \<and> io_fd_open (snd (h, i)) = b" "io_sends i' = io_sends i" "io_wire i' = io_wire i"
    "io_closed i' = io_closed i" "io_user i' = io_user i" "io_fd_open i' = io_fd_open i"
  then show "I (h, i') \<and> io_fd_open (snd (h, i')) = b"
    using system_keeps [of h i i'] by simp
qed (auto simp: connect_keeps receive_keeps disconnect_keeps connect_fd receive_fd disconnect_fd)

context server_callbacks
begin

lemma run_keeps:
  assumes "length buf = MAX_SIZE"
  shows "keeps I (tryA (run_body handler sigs buf) (\<lambda>e. on_io (log_io (Log_Error e))))"
proof -
  have "keeps I (on_io sock_close)"
    by (rule keepsI) (auto simp: on_io_app sock_close_def close_keeps)
  with session_keeps [OF assms] show ?thesis
    unfolding run_body_def by (simp add: keeps_tryA keeps_thenA log_keeps flip: thenA_assoc)
qed

lemma worker_run_keeps:
  assumes "I (wk_state w)" and "length buf = MAX_SIZE" and "worker_run handler sigs buf w = (r, w')"
  shows "I (wk_state w')"
proof -
  have "I (snd (tryA (run_body handler sigs buf) (\<lambda>e. on_io (log_io (Log_Error e))) (wk_state w)))"
    using run_keeps [OF assms(2)] assms(1) unfolding keeps_def by blast
  with assms(3) show ?thesis
    by (auto simp: worker_run_def split: prod.splits sum.splits)
qed

lemma run_body_fd:
  assumes "run_body handler sigs buf st = (r, st')" and "I st" and "length buf = MAX_SIZE"
  shows "io_fd_open (snd st') \<longleftrightarrow> (case r of Inr _ \<Rightarrow> False | Inl _ \<Rightarrow> io_fd_open (snd st))"
proof -
  let ?m = "thenA (sh_onConnect handler)
    (thenA (worker_loop handler sigs buf) (sh_onDisconnect handler))"
  have run: "run_body handler sigs buf = thenA ?m (on_io sock_close)"
    by (simp add: run_body_def thenA_assoc)
  have "io_fd_open (snd (snd (?m st))) = io_fd_open (snd st)"
    using fd.session_keeps [OF assms(3), of "io_fd_open (snd st)"] assms(2)
    unfolding keeps_def by blast
  with assms(1) show ?thesis
    by (auto simp: run thenA_app on_io_def sock_close_def split: prod.splits sum.splits)
qed

text \<open>A worker's thread ends inactive, and its descriptor is closed unless something threw.\<close>

lemma worker_run_fd:
  assumes "I (wk_state w)" and "length buf = MAX_SIZE" and "io_fd_open (snd (wk_state w))"
    and "worker_run handler sigs buf w = (Inr (), w')"
  shows "\<not> wk_isActive w' \<and> (io_fd_open (snd (wk_state w')) \<longleftrightarrow>
    (\<exists>e st. run_body handler sigs buf (wk_state w) = (Inl (Throw e), st)))"
proof -
  obtain r st where run: "run_body handler sigs buf (wk_state w) = (r, st)"
    by (metis surj_pair)
  from run_body_fd [OF run assms(1,2)] assms(3,4) run show ?thesis
    by (cases r)
      (auto simp: worker_run_def tryA_def on_io_def log_io_def split: prod.splits sum.splits stop.splits)
qed

end

section \<open>Conversations\<close>

text \<open>What the environment does in each iteration: nothing (the poll times out) or bytes arrive.
  After the last one the poll script goes on with \<open>ps\<close> and the input with \<open>rs\<close>.\<close>

definition poll_script :: "byte list option list \<Rightarrow> poll_answer list" where
  "poll_script evs = map (\<lambda>e. case e of None \<Rightarrow> Poll_Timeout | Some _ \<Rightarrow> Poll_Ready POLLIN) evs"

definition received :: "byte list option list \<Rightarrow> byte list list" where
  "received evs = map the (filter (\<lambda>e. e \<noteq> None) evs)"

definition recv_script :: "byte list option list \<Rightarrow> recv_answer list" where
  "recv_script evs = map Received (received evs)"

lemma received_simps [simp]:
  "received [] = []"
  "received (None # evs) = received evs"
  "received (Some d # evs) = d # received evs"
  by (simp_all add: received_def)

lemma script_simps [simp]:
  "poll_script [] = []"
  "poll_script (None # evs) = Poll_Timeout # poll_script evs"
  "poll_script (Some d # evs) = Poll_Ready POLLIN # poll_script evs"
  "recv_script [] = []"
  "recv_script (None # evs) = recv_script evs"
  "recv_script (Some d # evs) = Received d # recv_script evs"
  by (simp_all add: poll_script_def recv_script_def)

lemma replicate_None_Suc: "replicate (Suc n) None = replicate n None @ [None]"
  by (simp add: replicate_append_same)

text \<open>A conversation: \<open>C ds st\<close> says that the handler is in state \<open>st\<close> with the segments \<open>ds\<close> still to
  come. Every segment is answered and leaves the rest of the conversation; the input scripts do not
  matter to it.\<close>

locale conversation =
  fixes handler :: "('h, 'u) server_handler"
    and C :: "byte list list \<Rightarrow> 'h \<times> 'u io \<Rightarrow> bool"
  assumes segment: "C (d # ds) (h, i) \<Longrightarrow> length buf = MAX_SIZE \<Longrightarrow> take (length d) buf = d \<Longrightarrow>
      \<exists>h' i'. sh_onReceive handler buf (length d) (h, i) = (Inr (), (h', i')) \<and> C ds (h', i')
        \<and> io_polls i' = io_polls i \<and> io_recvs i' = io_recvs i
        \<and> io_signalStatus i' = io_signalStatus i"
    and still_open: "C (d # ds) (h, i) \<Longrightarrow> \<not> io_closed i"
    and segment_size: "C (d # ds) (h, i) \<Longrightarrow> d \<noteq> [] \<and> length d \<le> MAX_SIZE"
    and scripts: "C ds (h, i) \<Longrightarrow> C ds (h, i\<lparr>io_polls := ps, io_recvs := rs\<rparr>)"
begin

text \<open>The loop runs the conversation, with any pauses before and between the segments, and after the
  last one if the connection is still open then.\<close>

lemma loop:
  assumes "C (received evs) (h, i)" and "length buf = MAX_SIZE"
    and "evs = [] \<or> last evs \<noteq> None \<or> (\<forall>h i. C [] (h, i) \<longrightarrow> \<not> io_closed i)"
    and "io_polls i = poll_script evs @ ps" and "io_recvs i = recv_script evs @ rs"
    and "io_signalStatus i = 0"
  shows "\<exists>h' i' buf'. worker_loop handler (replicate (length evs) None @ sigs) buf (h, i) =
      worker_loop handler sigs buf' (h', i')
    \<and> C [] (h', i') \<and> io_polls i' = ps \<and> io_recvs i' = rs \<and> io_signalStatus i' = 0
    \<and> length buf' = MAX_SIZE"
  using assms
proof (induction evs arbitrary: h i buf)
  case Nil
  then show ?case by auto
next
  case (Cons e evs)
  have last: "evs = [] \<or> last evs \<noteq> None \<or> (\<forall>h i. C [] (h, i) \<longrightarrow> \<not> io_closed i)"
    using Cons.prems(3) by (auto split: if_splits)
  show ?case
  proof (cases e)
    case None
    have "\<not> io_closed i"
    proof (cases "received evs")
      case Nil
      then have "\<forall>e \<in> set evs. e = None"
        by (auto simp: received_def filter_empty_conv)
      then have "\<forall>h i. C [] (h, i) \<longrightarrow> \<not> io_closed i"
        using Cons.prems(3) None by (cases "evs = []") auto
      then show ?thesis using Cons.prems(1) None Nil by simp
    next
      case (Cons d ds)
      then show ?thesis using Cons.prems(1) None by (auto dest: still_open)
    qed
    then have step: "worker_loop handler (replicate (length (e # evs)) None @ sigs) buf (h, i) =
        worker_loop handler (replicate (length evs) None @ sigs) buf
          (h, i\<lparr>io_polls := poll_script evs @ ps\<rparr>)"
      using Cons.prems(4,6) None by (simp add: worker_loop_idle del: worker_loop.simps)
    have "C (received evs) (h, i\<lparr>io_polls := poll_script evs @ ps\<rparr>)"
      using scripts [of "received evs" h i, where ps = "poll_script evs @ ps" and rs = "io_recvs i"] Cons.prems(1) None by simp
    then show ?thesis
      unfolding step using Cons.prems None last by (intro Cons.IH) auto
  next
    case (Some d)
    let ?buf = "d @ drop (length d) buf"
    let ?i = "i\<lparr>io_polls := poll_script evs @ ps, io_recvs := recv_script evs @ rs\<rparr>"
    have C: "C (d # received evs) (h, i)" using Cons.prems(1) Some by simp
    then have d: "d \<noteq> []" "length d \<le> length buf"
      using segment_size Cons.prems(2) by auto
    have step: "worker_loop handler (replicate (length (e # evs)) None @ sigs) buf (h, i) =
        thenA (sh_onReceive handler ?buf (length d))
          (worker_loop handler (replicate (length evs) None @ sigs) ?buf) (h, ?i)"
      using Cons.prems(4-6) still_open [OF C] d Some
      by (simp add: worker_loop_receive del: worker_loop.simps)
    obtain h1 i1 where one: "sh_onReceive handler ?buf (length d) (h, ?i) = (Inr (), (h1, i1))"
      "C (received evs) (h1, i1)" "io_polls i1 = poll_script evs @ ps"
      "io_recvs i1 = recv_script evs @ rs" "io_signalStatus i1 = 0"
      using segment [OF scripts [OF C], of ?buf] d(2) Cons.prems(2,6) by fastforce
    then show ?thesis
      unfolding step thenA_app one(1) using Cons.IH [OF one(2) _ last one(3-5), of ?buf] Cons.prems(2) d by simp
  qed
qed

text \<open>A conversation that ends with the connection closed ends the loop.\<close>

lemma loop_closing:
  assumes "C (received evs) (h, i)" and "length buf = MAX_SIZE" and "last evs \<noteq> None"
    and "io_polls i = poll_script evs @ ps" and "io_recvs i = recv_script evs @ rs"
    and "io_signalStatus i = 0" and "\<And>h i. C [] (h, i) \<Longrightarrow> io_closed i"
  shows "\<exists>h' i'. worker_loop handler (replicate (Suc (length evs)) None) buf (h, i) = (Inr (), (h', i'))
    \<and> C [] (h', i')"
proof -
  from loop [OF assms(1,2) disjI2 [OF disjI1 [OF assms(3)]] assms(4-6), of "[None]"]
  obtain h' i' buf' where
    run: "worker_loop handler (replicate (length evs) None @ [None]) buf (h, i) =
      worker_loop handler [None] buf' (h', i')"
    and C: "C [] (h', i')"
    by blast
  then have "worker_loop handler (replicate (Suc (length evs)) None) buf (h, i) = (Inr (), (h', i'))"
    unfolding replicate_None_Suc run using assms(7) [OF C] by (intro worker_loop_closed)
  with C show ?thesis by blast
qed

end

text \<open>One conversation after the other.\<close>

definition conversation_then ::
  "(byte list list \<Rightarrow> 's \<Rightarrow> bool) \<Rightarrow> byte list list \<Rightarrow> (byte list list \<Rightarrow> 's \<Rightarrow> bool)
   \<Rightarrow> byte list list \<Rightarrow> 's \<Rightarrow> bool"
where
  "conversation_then C1 ds2 C2 ds st \<longleftrightarrow>
     (\<exists>ds1. ds1 \<noteq> [] \<and> ds = ds1 @ ds2 \<and> C1 ds1 st) \<or> C2 ds st"

lemma conversation_then:
  assumes c1: "conversation handler C1" and c2: "conversation handler C2"
    and pass: "\<And>st. C1 [] st \<Longrightarrow> C2 ds2 st"
  shows "conversation handler (conversation_then C1 ds2 C2)"
proof
  fix d ds h i buf
  assume C: "conversation_then C1 ds2 C2 (d # ds) (h, i)"
    and buf: "length buf = MAX_SIZE" "take (length d) buf = d"
  show "\<exists>h' i'. sh_onReceive handler buf (length d) (h, i) = (Inr (), (h', i'))
      \<and> conversation_then C1 ds2 C2 ds (h', i') \<and> io_polls i' = io_polls i \<and> io_recvs i' = io_recvs i
      \<and> io_signalStatus i' = io_signalStatus i"
  proof (cases "C2 (d # ds) (h, i)")
    case True
    from conversation.segment [OF c2 this buf] show ?thesis
      by (auto simp: conversation_then_def)
  next
    case False
    with C obtain ds1 where ds1: "ds1 \<noteq> []" "d # ds = ds1 @ ds2" "C1 ds1 (h, i)"
      by (auto simp: conversation_then_def)
    then obtain ds1' where ds1': "ds1 = d # ds1'" "ds = ds1' @ ds2"
      by (cases ds1) auto
    with ds1(3) have "C1 (d # ds1') (h, i)" by simp
    from conversation.segment [OF c1 this buf] obtain h' i' where
      run: "sh_onReceive handler buf (length d) (h, i) = (Inr (), (h', i'))"
      "io_polls i' = io_polls i" "io_recvs i' = io_recvs i" "io_signalStatus i' = io_signalStatus i"
      and C1: "C1 ds1' (h', i')" by blast
    have "conversation_then C1 ds2 C2 ds (h', i')"
      using C1 ds1'(2) pass by (cases "ds1' = []") (auto simp: conversation_then_def)
    with run show ?thesis by blast
  qed
next
  fix d ds h i
  assume C: "conversation_then C1 ds2 C2 (d # ds) (h, i)"
  have first: "\<exists>ds'. C1 (d # ds') (h, i) \<or> C2 (d # ds') (h, i)"
    using C unfolding conversation_then_def by (metis append_Cons list.exhaust list.inject)
  then show "\<not> io_closed i"
    using conversation.still_open [OF c1] conversation.still_open [OF c2] by blast
  show "d \<noteq> [] \<and> length d \<le> MAX_SIZE"
    using first conversation.segment_size [OF c1] conversation.segment_size [OF c2] by blast
next
  fix ds h i ps rs
  assume "conversation_then C1 ds2 C2 ds (h, i)"
  then show "conversation_then C1 ds2 C2 ds (h, i\<lparr>io_polls := ps, io_recvs := rs\<rparr>)"
    unfolding conversation_then_def
    using conversation.scripts [OF c1] conversation.scripts [OF c2] by blast
qed

section \<open>Properties\<close>

text \<open>C27. A worker's thread always ends inactive, so the server can join it; but its descriptor is
  closed only if nothing threw. If a callback, \<^verbatim>\<open>read\<close> or \<^verbatim>\<open>poll\<close> throws, the handler of
  \<^verbatim>\<open>run\<close> logs the exception and the descriptor stays open for good.\<close>

theorem worker_run_descriptor:
  assumes "\<And>st. io_fd_open (snd (snd (sh_onConnect handler st))) = io_fd_open (snd st)"
    and "\<And>buf len st. io_fd_open (snd (snd (sh_onReceive handler buf len st))) = io_fd_open (snd st)"
    and "\<And>st. io_fd_open (snd (snd (sh_onDisconnect handler st))) = io_fd_open (snd st)"
    and "io_fd_open (snd (wk_state w))" and "length buf = MAX_SIZE"
    and "worker_run handler sigs buf w = (Inr (), w')"
  shows "\<not> wk_isActive w' \<and> (io_fd_open (snd (wk_state w')) \<longleftrightarrow>
    (\<exists>e st. run_body handler sigs buf (wk_state w) = (Inl (Throw e), st)))"
proof -
  have "server_callbacks handler (\<lambda>_. True)"
    by unfold_locales (simp_all add: assms(1-3))
  from server_callbacks.worker_run_fd [OF this _ assms(5,4,6)] show ?thesis by simp
qed

theorem worker_run_descriptor_witness:
  "\<exists>w'. worker_run \<lparr>sh_onConnect = retA (), sh_onReceive = \<lambda>_ _. retA (), sh_onDisconnect = retA ()\<rparr>
      [None] (replicate MAX_SIZE 0) (worker_start () (io_start [] [Recv_Failed (E_OTHER 104)] [Poll_Ready POLLIN] ())) =
      (Inr (), w') \<and> \<not> wk_isActive w' \<and> io_fd_open (snd (wk_state w'))"
proof -
  let ?h = "\<lparr>sh_onConnect = retA (), sh_onReceive = \<lambda>_ _. retA (), sh_onDisconnect = retA ()\<rparr>
    :: (unit, unit) server_handler"
  let ?w = "worker_start () (io_start [] [Recv_Failed (E_OTHER 104)] [Poll_Ready POLLIN] ())"
  obtain st where throws: "run_body ?h [None] (replicate MAX_SIZE 0) (wk_state ?w) =
      (Inl (Throw (Errno_Error (E_OTHER 104))), st)"
    by (simp add: run_body_def worker_start_def thenA_app bindA_app on_io_app isReadable_ready
        POLLIN_def sock_read_def retriable_def)
  then obtain w' where run: "worker_run ?h [None] (replicate MAX_SIZE 0) ?w = (Inr (), w')"
    using worker_run_throws [of ?h "[None]" "replicate MAX_SIZE 0" ?w] by (cases st) blast
  moreover from worker_run_descriptor [OF _ _ _ _ _ run] throws
  have "\<not> wk_isActive w' \<and> io_fd_open (snd (wk_state w'))"
    by (cases st) (auto simp: worker_start_def)
  ultimately show ?thesis by blast
qed

text \<open>Shutting down: a worker whose peer is silent leaves its loop at the first check after a
  signal, having called no callback and read nothing.\<close>

theorem worker_idle_shutdown:
  assumes "io_polls i = replicate n Poll_Timeout @ ps" and "sig \<noteq> 0"
    and "io_signalStatus i = 0" and "\<not> io_closed i"
  shows "worker_loop handler (replicate n None @ Some sig # sigs) buf (h, i) =
    (Inr (), (h, i\<lparr>io_polls := ps, io_signalStatus := sig\<rparr>))"
  using assms(1,3,4)
proof (induction n arbitrary: i)
  case 0
  then have "i\<lparr>io_polls := ps\<rparr> = i" by simp
  with assms(2) show ?case by (simp add: worker_loop_quit del: worker_loop.simps)
next
  case (Suc n)
  then show ?case
    using Suc.IH [of "i\<lparr>io_polls := replicate n Poll_Timeout @ ps\<rparr>"]
    by (simp add: worker_loop_idle del: worker_loop.simps)
qed

theorem worker_idle_shutdown_witness:
  "\<exists>i'. worker_loop \<lparr>sh_onConnect = retA (), sh_onReceive = \<lambda>_ _. retA (), sh_onDisconnect = retA ()\<rparr>
      [None, None, Some 15] [0] ((), io_start [] [] [Poll_Timeout, Poll_Timeout] ()) =
      (Inr (), ((), i')) \<and> io_signalStatus i' = 15"
  using worker_idle_shutdown [of "io_start [] [] [Poll_Timeout, Poll_Timeout] ()" 2 "[]" 15
      "\<lparr>sh_onConnect = retA (), sh_onReceive = \<lambda>_ _. retA (), sh_onDisconnect = retA ()\<rparr>"
      "[]" "[0]" "()"]
  by (simp add: numeral_2_eq_2 del: worker_loop.simps)

end
