(* ===== verification/Http_States.thy ===== *)
theory Http_States
  imports Http_Handler Ws_Handler Tcp_Worker
begin

text \<open>
  The state machine of an HTTP connection: \<^verbatim>\<open>HttpInitState\<close> and \<^verbatim>\<open>HttpGetState\<close> of
  \<^verbatim>\<open>src/http/socks_http_states.{hpp,cpp}\<close>, \<^verbatim>\<open>HttpWsState\<close> of
  \<^verbatim>\<open>socks_http_states_ws.{hpp,cpp}\<close>, and \<^verbatim>\<open>TcpServerHandler\<close> of \<^verbatim>\<open>socks_http.cpp\<close>, which
  holds the current and the next state and is the server handler the worker runs.

  A state object is a value of \<open>http_state\<close> with the fields of its class. SHA-1 and Base64
  (\<^verbatim>\<open>digestpp\<close>, \<^verbatim>\<open>cppcodec\<close>) and the allocator are parameters in \<open>http_server\<close>, beside the two
  handler factories.
\<close>

section \<open>The code\<close>

datatype 'u http_state =
    HttpInitState string nat                 \<comment> \<open>\<^verbatim>\<open>recvBuf\<close>, \<^verbatim>\<open>numRecv\<close>\<close>
  | HttpGetState "'u http_handler"           \<comment> \<open>\<^verbatim>\<open>handler\<close>\<close>
  | HttpWsState "'u ws_handler" byte "byte list"  \<comment> \<open>\<^verbatim>\<open>handler\<close>, \<^verbatim>\<open>opcode\<close>, \<^verbatim>\<open>inBuf\<close>\<close>

record 'u http_fsm =
  curState :: "'u http_state"
  nextState :: "'u http_state option"
  requestInfo :: request_info

record 'u http_server =
  httpHandlerFactory :: "'u http_handler_factory"
  wsHandlerFactory :: "'u ws_handler_factory"
  sha1 :: "string \<Rightarrow> byte list"
  base64 :: "byte list \<Rightarrow> string"
  alloc :: "nat \<Rightarrow> bool"

definition RECV_SIZE :: nat where "RECV_SIZE = 4096"

definition http_fsm_new :: "'u http_fsm" where
  "http_fsm_new =
     \<lparr>curState = HttpInitState (replicate RECV_SIZE NUL) 0, nextState = None,
      requestInfo = request_info_new\<rparr>"

definition set_cur :: "'u http_state \<Rightarrow> ('u http_fsm \<times> 'u io, unit) act" where
  "set_cur st = modA (\<lambda>(f, i). (f\<lparr>curState := st\<rparr>, i))"

definition on_requestInfo :: "(request_info, 'a) act \<Rightarrow> ('u http_fsm \<times> 'u io, 'a) act" where
  "on_requestInfo m = (\<lambda>(f, i). case m (requestInfo f) of (r, ri) \<Rightarrow> (r, (f\<lparr>requestInfo := ri\<rparr>, i)))"

definition get_requestInfo :: "('u http_fsm \<times> 'u io, request_info) act" where
  "get_requestInfo = getA (\<lambda>(f, i). requestInfo f)"

subsection \<open>Entering a state\<close>

definition WS_GUID :: string where "WS_GUID = ''258EAFA5-E914-47DA-95CA-C5AB0DC85B11''"

definition createAcceptKey :: "'u http_server \<Rightarrow> string \<Rightarrow> string" where
  "createAcceptKey srv client_key = base64 srv (sha1 srv (take 24 client_key @ WS_GUID))"

definition upgrade_response :: "'u http_server \<Rightarrow> string \<Rightarrow> string \<Rightarrow> string" where
  "upgrade_response srv subprotocol client_key =
     ''HTTP/1.1 101 Switching Protocols'' @ CRLF @ ''Upgrade: websocket'' @ CRLF
     @ ''Connection: Upgrade'' @ CRLF @ ''Sec-WebSocket-Version: 13'' @ CRLF
     @ (if subprotocol \<noteq> [] then ''Sec-WebSocket-Protocol: '' @ subprotocol @ CRLF else [])
     @ ''Sec-WebSocket-Accept: '' @ createAcceptKey srv client_key @ CRLF @ CRLF"

definition get_onEnter :: "'u http_handler \<Rightarrow> ('u http_fsm \<times> 'u io, unit) act" where
  "get_onEnter handler =
     bindA get_requestInfo (\<lambda>ri. thenA (on_io (handler ri)) (on_io conn_close))"

definition ws_onEnter :: "'u http_server \<Rightarrow> 'u ws_handler \<Rightarrow> ('u http_fsm \<times> 'u io, unit) act" where
  "ws_onEnter srv handler =
     bindA get_requestInfo (\<lambda>ri.
     bindA (liftR (header_at (ri_headers ri) ''Sec-WebSocket-Key'')) (\<lambda>client_key.
     thenA (on_io (conn_send_chars (upgrade_response srv (wh_subprotocol handler) client_key)))
           (on_io (wh_onConnect handler))))"

fun state_onEnter :: "'u http_server \<Rightarrow> 'u http_state \<Rightarrow> ('u http_fsm \<times> 'u io, unit) act" where
  "state_onEnter srv (HttpInitState recvBuf numRecv) =
     failA (Throw (Runtime_Error ''HttpInitState::onEnter() must not be called.''))"
| "state_onEnter srv (HttpGetState handler) = get_onEnter handler"
| "state_onEnter srv (HttpWsState handler opcode inBuf) = ws_onEnter srv handler"

definition setNextState :: "'u http_server \<Rightarrow> 'u http_state \<Rightarrow> ('u http_fsm \<times> 'u io, unit) act" where
  "setNextState srv st =
     thenA (state_onEnter srv st) (modA (\<lambda>(f, i). (f\<lparr>nextState := Some st\<rparr>, i)))"

subsection \<open>Receiving the request\<close>

definition TERMINATOR :: string where "TERMINATOR = CRLF @ CRLF"

text \<open>The condition under which the request is not complete: there is room left and the last four
  characters are not the terminator. With fewer than four characters the comparison starts before
  the buffer.\<close>

definition incomplete :: "string \<Rightarrow> nat \<Rightarrow> bool res" where
  "incomplete recvBuf numRecv =
     (if numRecv < length recvBuf
      then if numRecv < length TERMINATOR then Inl (UB Read_Out_Of_Bounds)
           else Inr (take (length TERMINATOR) (drop (numRecv - length TERMINATOR) recvBuf) \<noteq> TERMINATOR)
      else Inr False)"

text \<open>What follows once the request is complete; the result says whether the code returns or goes on
  to the \<^verbatim>\<open>close\<close> at the end.\<close>

definition HttpGetState_new :: "'u http_server \<Rightarrow> ('u http_fsm \<times> 'u io, 'u http_state) act" where
  "HttpGetState_new srv = bindA (on_io (httpHandlerFactory srv)) (\<lambda>handler. retA (HttpGetState handler))"

definition HttpWsState_new :: "'u http_server \<Rightarrow> ('u http_fsm \<times> 'u io, 'u http_state) act" where
  "HttpWsState_new srv = bindA (on_io (wsHandlerFactory srv)) (\<lambda>handler. retA (HttpWsState handler 0 []))"

definition init_dispatch :: "'u http_server \<Rightarrow> ('u http_fsm \<times> 'u io, bool) act" where
  "init_dispatch srv =
     bindA get_requestInfo (\<lambda>ri.
     bindA (liftR (request_path ri)) (\<lambda>path.
     thenA (on_io (log_io (Log_Request (if ri_requestType ri = GET then ''GET'' else ''GET_WS'') path)))
       (if ri_requestType ri = GET
        then bindA (HttpGetState_new srv) (\<lambda>st. thenA (setNextState srv st) (retA True))
        else if ri_requestType ri = GET_WS
        then bindA (HttpWsState_new srv) (\<lambda>st. thenA (setNextState srv st) (retA True))
        else retA False)))"

definition init_body ::
  "'u http_server \<Rightarrow> string \<Rightarrow> nat \<Rightarrow> byte list \<Rightarrow> nat \<Rightarrow> ('u http_fsm \<times> 'u io, bool) act"
where
  "init_body srv recvBuf numRecv buf len =
     bindA (liftR (memcpy recvBuf numRecv (chars_of buf) 0 len)) (\<lambda>recvBuf1.
     let numRecv1 = numRecv + len in
     thenA (set_cur (HttpInitState recvBuf1 numRecv1))
    (bindA (liftR (incomplete recvBuf1 numRecv1)) (\<lambda>inc.
     if inc then retA True
     else bindA (liftR (store recvBuf1 (length recvBuf1 - 1) NUL)) (\<lambda>recvBuf2.
          thenA (set_cur (HttpInitState recvBuf2 numRecv1))
         (thenA (on_requestInfo (parse_request recvBuf2 numRecv1))
                (init_dispatch srv))))))"

definition init_onReceive ::
  "'u http_server \<Rightarrow> string \<Rightarrow> nat \<Rightarrow> byte list \<Rightarrow> nat \<Rightarrow> ('u http_fsm \<times> 'u io, unit) act"
where
  "init_onReceive srv recvBuf numRecv buf len =
     bindA (tryA (init_body srv recvBuf numRecv buf len)
             (\<lambda>exc. thenA (on_io (log_io (Log_Unparsed_Request exc))) (retA False)))
       (\<lambda>returned. if returned then retA () else on_io conn_close)"

subsection \<open>Receiving WebSocket frames\<close>

definition is_invalid_argument :: "exn \<Rightarrow> bool" where
  "is_invalid_argument e = (case e of Invalid_Argument _ \<Rightarrow> True | _ \<Rightarrow> False)"

definition ws_dispatch ::
  "'u http_server \<Rightarrow> 'u ws_handler \<Rightarrow> byte \<Rightarrow> byte list \<Rightarrow> ('u http_fsm \<times> 'u io, unit) act"
where
  "ws_dispatch srv handler opcode inBuf =
     (if opcode = OPCODE_CONTINUATION then
        failA (Throw (Runtime_Error ''WebSocket opcode must not be 0 when FIN bit is set.''))
      else if opcode = OPCODE_CONNECTION_CLOSE then on_io ws_close
      else if opcode = OPCODE_CONNECTION_PING then
        bindA (liftR (createPong inBuf (length inBuf))) (\<lambda>response.
        bindA (liftR (frame_payload response)) (\<lambda>payload.
        bindA (liftR (payloadLength response)) (\<lambda>n.
        bindA (liftR (region payload n)) (\<lambda>bytes.
        thenA (on_io (conn_send bytes)) (retA ())))))
      else if opcode = OPCODE_BINARY then on_io (wh_onData handler inBuf (length inBuf))
      else if opcode = OPCODE_TEXT then
        bindA (liftR (vec_resize (alloc srv) inBuf (length inBuf + 1))) (\<lambda>inBuf1.
        bindA (liftR (store inBuf1 (length inBuf1 - 1) 0)) (\<lambda>inBuf2.
        thenA (set_cur (HttpWsState handler opcode inBuf2)) (on_io (wh_onText handler inBuf2))))
      else retA ())"

definition ws_onReceive ::
  "'u http_server \<Rightarrow> 'u ws_handler \<Rightarrow> byte \<Rightarrow> byte list \<Rightarrow> byte list \<Rightarrow> nat
   \<Rightarrow> ('u http_fsm \<times> 'u io, unit) act"
where
  "ws_onReceive srv handler opcode inBuf buf len =
     try_onlyA is_invalid_argument
       (bindA (liftR (decode (alloc srv) buf len inBuf)) (\<lambda>(fin, inBuf1, opcode0).
        let opcode1 = (if length inBuf = 0 then opcode0 else opcode) in
        thenA (set_cur (HttpWsState handler opcode1 inBuf1))
          (if \<not> fin then retA ()
           else thenA (ws_dispatch srv handler opcode1 inBuf1)
                      (set_cur (HttpWsState handler opcode1 [])))))
       (\<lambda>exc. retA ())"

subsection \<open>TcpServerHandler\<close>

fun state_onReceive ::
  "'u http_server \<Rightarrow> 'u http_state \<Rightarrow> byte list \<Rightarrow> nat \<Rightarrow> ('u http_fsm \<times> 'u io, unit) act"
where
  "state_onReceive srv (HttpInitState recvBuf numRecv) buf len =
     init_onReceive srv recvBuf numRecv buf len"
| "state_onReceive srv (HttpGetState handler) buf len = retA ()"
| "state_onReceive srv (HttpWsState handler opcode inBuf) buf len =
     ws_onReceive srv handler opcode inBuf buf len"

fun state_onDisconnect :: "'u http_state \<Rightarrow> ('u http_fsm \<times> 'u io, unit) act" where
  "state_onDisconnect (HttpWsState handler opcode inBuf) = on_io (wh_onDisconnect handler)"
| "state_onDisconnect _ = retA ()"

definition take_next :: "'u http_fsm \<times> 'u io \<Rightarrow> 'u http_fsm \<times> 'u io" where
  "take_next = (\<lambda>(f, i). case nextState f of
     None \<Rightarrow> (f, i) | Some st \<Rightarrow> (f\<lparr>curState := st, nextState := None\<rparr>, i))"

definition http_onReceive ::
  "'u http_server \<Rightarrow> byte list \<Rightarrow> nat \<Rightarrow> ('u http_fsm \<times> 'u io, unit) act"
where
  "http_onReceive srv buf len =
     bindA (getA (\<lambda>(f, i). curState f)) (\<lambda>st.
     thenA (state_onReceive srv st buf len) (modA take_next))"

definition http_onDisconnect :: "('u http_fsm \<times> 'u io, unit) act" where
  "http_onDisconnect = bindA (getA (\<lambda>(f, i). curState f)) state_onDisconnect"

definition http_handler :: "'u http_server \<Rightarrow> ('u http_fsm, 'u) server_handler" where
  "http_handler srv =
     \<lparr>sh_onConnect = retA (), sh_onReceive = http_onReceive srv,
      sh_onDisconnect = http_onDisconnect\<rparr>"

section \<open>The dispatch without the new states\<close>

lemma init_dispatch_eq:
  "init_dispatch srv =
     bindA get_requestInfo (\<lambda>ri.
     bindA (liftR (request_path ri)) (\<lambda>path.
     thenA (on_io (log_io (Log_Request (if ri_requestType ri = GET then ''GET'' else ''GET_WS'') path)))
       (if ri_requestType ri = GET
        then bindA (on_io (httpHandlerFactory srv)) (\<lambda>handler.
             thenA (setNextState srv (HttpGetState handler)) (retA True))
        else if ri_requestType ri = GET_WS
        then bindA (on_io (wsHandlerFactory srv)) (\<lambda>handler.
             thenA (setNextState srv (HttpWsState handler 0 [])) (retA True))
        else retA False)))"
  by (simp add: init_dispatch_def HttpGetState_new_def HttpWsState_new_def bindA_assoc cong: if_cong)

section \<open>The invariant\<close>

definition state_ok :: "bool \<Rightarrow> 'u http_state \<Rightarrow> bool" where
  "state_ok closed st =
     (case st of
        HttpInitState recvBuf numRecv \<Rightarrow> length recvBuf = RECV_SIZE \<and> numRecv \<le> RECV_SIZE
      | HttpGetState handler \<Rightarrow> closed
      | HttpWsState handler opcode inBuf \<Rightarrow> polite_ws_handler handler)"

definition fsm_ok :: "'u http_fsm \<times> 'u io \<Rightarrow> bool" where
  "fsm_ok = (\<lambda>(f, i). path_inv (requestInfo f) \<and> state_ok (io_closed i) (curState f)
     \<and> (\<forall>st. nextState f = Some st \<longrightarrow> state_ok (io_closed i) st))"

lemma fsm_ok_new: "fsm_ok (http_fsm_new, i)"
  by (simp add: fsm_ok_def http_fsm_new_def state_ok_def)

text \<open>The invariant together with the state of the descriptor and what is still to be received: what every
  operation keeps.\<close>

abbreviation fsm_fd :: "bool \<times> recv_answer list \<Rightarrow> 'u http_fsm \<times> 'u io \<Rightarrow> bool" where
  "fsm_fd b \<equiv> \<lambda>st. fsm_ok st \<and> (io_fd_open (snd st), io_recvs (snd st)) = b"

lemma state_ok_mono: "state_ok c st \<Longrightarrow> (c \<Longrightarrow> c') \<Longrightarrow> state_ok c' st"
  by (auto simp: state_ok_def split: http_state.splits)

lemma fsm_ok_io: "fsm_ok (f, i) \<Longrightarrow> (io_closed i \<Longrightarrow> io_closed i') \<Longrightarrow> fsm_ok (f, i')"
  by (auto simp: fsm_ok_def intro: state_ok_mono)

lemma fsm_on_io: "polite m \<Longrightarrow> keeps (fsm_fd b) (on_io m)"
  by (auto simp: keeps_def on_io_app polite_fd polite_recvs elim: fsm_ok_io polite_closed)

lemma fsm_set_cur: "(\<And>c. state_ok c st) \<Longrightarrow> keeps (fsm_fd b) (set_cur st)"
  by (auto simp: keeps_def set_cur_def fsm_ok_def)

lemma fsm_get_requestInfo [simp]: "keeps P get_requestInfo"
  by (simp add: get_requestInfo_def)

lemma fsm_parse: "keeps (fsm_fd b) (on_requestInfo (parse_request request len))"
proof -
  have "path_inv (snd (parse_request request len ri))" if "path_inv ri" for ri
    using parse_request_path_inv that unfolding keeps_def by blast
  then show ?thesis
    by (auto simp: keeps_def on_requestInfo_def fsm_ok_def case_prod_unfold)
qed

lemma fsm_take_next: "keeps (fsm_fd b) (modA take_next)"
  by (rule keeps_modA) (auto simp: take_next_def fsm_ok_def case_prod_unfold split: option.splits)

text \<open>The handler's factory and what it makes.\<close>

locale http_application =
  fixes srv :: "'u http_server"
  assumes http_factory_polite: "polite (httpHandlerFactory srv)"
    and do_GET_polite: "httpHandlerFactory srv i = (Inr h, i') \<Longrightarrow> polite (h ri)"
    and ws_factory_polite: "polite (wsHandlerFactory srv)"
    and ws_handler_polite: "wsHandlerFactory srv i = (Inr wh, i') \<Longrightarrow> polite_ws_handler wh"
begin

lemma enter_get:
  assumes "polite (h (requestInfo (fst st)))" and "fsm_fd b st"
  shows "fsm_fd b (snd (setNextState srv (HttpGetState h) st))"
proof -
  have "setNextState srv (HttpGetState h) =
      bindA get_requestInfo (\<lambda>ri. thenA (on_io (h ri))
        (thenA (on_io conn_close) (modA (\<lambda>(f, i). (f\<lparr>nextState := Some (HttpGetState h)\<rparr>, i)))))"
    by (simp add: setNextState_def get_onEnter_def thenA_def bindA_assoc)
  moreover have "keeps (fsm_fd b)
      (thenA (on_io conn_close) (modA (\<lambda>(f, i). (f\<lparr>nextState := Some (HttpGetState h)\<rparr>, i))))"
    by (auto simp: keeps_def thenA_app on_io_app conn_close_def fsm_ok_def state_ok_def
        split: http_state.splits)
  then have "keeps (fsm_fd b) (thenA (on_io (h (requestInfo (fst st))))
      (thenA (on_io conn_close) (modA (\<lambda>(f, i). (f\<lparr>nextState := Some (HttpGetState h)\<rparr>, i)))))"
    by (rule keeps_thenA [OF fsm_on_io [OF assms(1)]])
  then have "fsm_fd b (snd (thenA (on_io (h (requestInfo (fst st))))
      (thenA (on_io conn_close) (modA (\<lambda>(f, i). (f\<lparr>nextState := Some (HttpGetState h)\<rparr>, i)))) st))"
    using assms(2) unfolding keeps_def by blast
  ultimately show ?thesis
    by (simp add: get_requestInfo_def case_prod_unfold)
qed

lemma enter_ws:
  assumes "polite_ws_handler h"
  shows "keeps (fsm_fd b) (setNextState srv (HttpWsState h 0 []))"
proof -
  have "polite (wh_onConnect h)"
    using assms by (rule polite_ws_handler.onConnect_polite)
  then have "keeps (fsm_fd b) (ws_onEnter srv h)"
    unfolding ws_onEnter_def by (intro kept fsm_get_requestInfo fsm_on_io polite_send)
  moreover have "keeps (fsm_fd b) (modA (\<lambda>(f, i). (f\<lparr>nextState := Some (HttpWsState h 0 [])\<rparr>, i)))"
    using assms by (intro keeps_modA) (auto simp: fsm_ok_def state_ok_def)
  ultimately show ?thesis
    by (simp add: setNextState_def keeps_thenA)
qed

lemma dispatch_keeps: "keeps (fsm_fd b) (init_dispatch srv)"
proof -
  have get: "keeps (fsm_fd b) (bindA (on_io (httpHandlerFactory srv))
      (\<lambda>handler. thenA (setNextState srv (HttpGetState handler)) (retA True)))"
  proof (rule keepsI)
    fix st :: "'u http_fsm \<times> 'u io"
    assume ok: "fsm_fd b st"
    obtain f i where st: "st = (f, i)" by (cases st)
    obtain r i' where run: "httpHandlerFactory srv i = (r, i')" by fastforce
    have ok': "fsm_fd b (f, i')"
      using keepsD [OF fsm_on_io [OF http_factory_polite] ok, of r "(f, i')"] run st
      by (simp add: on_io_app)
    show "fsm_fd b (snd (bindA (on_io (httpHandlerFactory srv))
        (\<lambda>handler. thenA (setNextState srv (HttpGetState handler)) (retA True)) st))"
    proof (cases r)
      case (Inl e)
      with run ok' show ?thesis by (simp add: st bindA_app on_io_app)
    next
      case (Inr h)
      with run have "polite (h (requestInfo (fst (f, i'))))" by (blast intro: do_GET_polite)
      from enter_get [of h "(f, i')" b, OF this ok'] Inr run show ?thesis
        by (auto simp: st bindA_app on_io_app thenA_app split: prod.split sum.split)
    qed
  qed
  have ws: "keeps (fsm_fd b) (bindA (on_io (wsHandlerFactory srv))
      (\<lambda>handler. thenA (setNextState srv (HttpWsState handler 0 [])) (retA True)))"
  proof (rule keepsI)
    fix st :: "'u http_fsm \<times> 'u io"
    assume ok: "fsm_fd b st"
    obtain f i where st: "st = (f, i)" by (cases st)
    obtain r i' where run: "wsHandlerFactory srv i = (r, i')" by fastforce
    have ok': "fsm_fd b (f, i')"
      using keepsD [OF fsm_on_io [OF ws_factory_polite] ok, of r "(f, i')"] run st
      by (simp add: on_io_app)
    show "fsm_fd b (snd (bindA (on_io (wsHandlerFactory srv))
        (\<lambda>handler. thenA (setNextState srv (HttpWsState handler 0 [])) (retA True)) st))"
    proof (cases r)
      case (Inl e)
      with run ok' show ?thesis by (simp add: st bindA_app on_io_app)
    next
      case (Inr h)
      with run have "polite_ws_handler h" by (blast intro: ws_handler_polite)
      then have "fsm_fd b (snd (setNextState srv (HttpWsState h 0 []) (f, i')))"
        using enter_ws ok' unfolding keeps_def by blast
      with Inr run show ?thesis
        by (auto simp: st bindA_app on_io_app thenA_app split: prod.split sum.split)
    qed
  qed
  show ?thesis
    unfolding init_dispatch_eq
    by (intro keeps_bindA keeps_thenA keeps_if keeps_liftR keeps_retA fsm_get_requestInfo
        fsm_on_io polite_basic get ws)
qed

lemma init_keeps:
  assumes "length recvBuf = RECV_SIZE" and "numRecv \<le> RECV_SIZE"
  shows "keeps (fsm_fd b) (init_onReceive srv recvBuf numRecv buf len)"
proof -
  have body: "keeps (fsm_fd b) (init_body srv recvBuf numRecv buf len)"
  proof (cases "memcpy recvBuf numRecv (chars_of buf) 0 len")
    case (Inl e)
    then show ?thesis by (simp add: init_body_def)
  next
    case (Inr d)
    then have d: "length d = RECV_SIZE" "numRecv + len \<le> RECV_SIZE"
      using assms by (auto simp: memcpy_def split: if_splits)
    have rest: "keeps (fsm_fd b) (bindA (liftR (store d (length d - 1) NUL)) (\<lambda>recvBuf2.
          thenA (set_cur (HttpInitState recvBuf2 (numRecv + len)))
         (thenA (on_requestInfo (parse_request recvBuf2 (numRecv + len))) (init_dispatch srv))))"
      using d by (auto simp: store_def RECV_SIZE_def state_ok_def
          intro!: keeps_thenA fsm_set_cur fsm_parse dispatch_keeps)
    have cur: "keeps (fsm_fd b) (set_cur (HttpInitState d (numRecv + len)))"
      using d by (intro fsm_set_cur) (simp add: state_ok_def)
    show ?thesis
      unfolding init_body_def Inr bindA_simps Let_def
      by (intro keeps_thenA cur keeps_bindA [OF keeps_liftR] keeps_if keeps_retA rest)
  qed
  show ?thesis
    unfolding init_onReceive_def
    by (intro keeps_bindA keeps_tryA body keeps_thenA keeps_if keeps_retA fsm_on_io polite_basic)
qed

lemma ws_keeps:
  assumes "polite_ws_handler h"
  shows "keeps (fsm_fd b) (ws_onReceive srv h opcode inBuf buf len)"
proof -
  have cur: "keeps (fsm_fd b) (set_cur (HttpWsState h op p))" for op p
    using assms by (intro fsm_set_cur) (simp add: state_ok_def)
  have onData: "polite (wh_onData h p n)" and onText: "polite (wh_onText h p)" for p n
    using assms by (simp_all add: polite_ws_handler.onData_polite polite_ws_handler.onText_polite)
  have "keeps (fsm_fd b) (ws_dispatch srv h op p)" for op p
    unfolding ws_dispatch_def
    by (intro keeps_if keeps_bindA keeps_thenA keeps_failA keeps_liftR keeps_retA fsm_on_io cur
        onData onText polite_send polite_ws_operations)
  then show ?thesis
    unfolding ws_onReceive_def Let_def case_prod_unfold
    by (intro keeps_try_onlyA keeps_bindA keeps_thenA keeps_if keeps_liftR keeps_retA cur)
qed

lemma receive_keeps_fsm: "fsm_fd b st \<Longrightarrow> fsm_fd b (snd (http_onReceive srv buf len st))"
proof -
  assume ok: "fsm_fd b st"
  let ?cur = "curState (fst st)"
  have "keeps (fsm_fd b) (state_onReceive srv ?cur buf len)"
  proof (cases ?cur)
    case (HttpInitState recvBuf numRecv)
    with ok have "length recvBuf = RECV_SIZE" "numRecv \<le> RECV_SIZE"
      by (auto simp: fsm_ok_def state_ok_def case_prod_unfold)
    with HttpInitState show ?thesis by (simp add: init_keeps)
  next
    case (HttpGetState h)
    then show ?thesis by simp
  next
    case (HttpWsState h op p)
    with ok have "polite_ws_handler h"
      by (auto simp: fsm_ok_def state_ok_def case_prod_unfold)
    with HttpWsState show ?thesis by (simp add: ws_keeps)
  qed
  then have "keeps (fsm_fd b) (thenA (state_onReceive srv ?cur buf len) (modA take_next))"
    by (intro keeps_thenA fsm_take_next)
  then have "fsm_fd b (snd (thenA (state_onReceive srv ?cur buf len) (modA take_next) st))"
    using ok unfolding keeps_def by blast
  then show ?thesis
    by (simp add: http_onReceive_def case_prod_unfold)
qed

lemma disconnect_keeps_fsm: "fsm_fd b st \<Longrightarrow> fsm_fd b (snd (http_onDisconnect st))"
proof -
  assume ok: "fsm_fd b st"
  have "keeps (fsm_fd b) (state_onDisconnect (curState (fst st)))"
  proof (cases "curState (fst st)")
    case (HttpWsState h op p)
    with ok have "polite_ws_handler h"
      by (auto simp: fsm_ok_def state_ok_def case_prod_unfold)
    then have "polite (wh_onDisconnect h)" by (rule polite_ws_handler.onDisconnect_polite)
    with HttpWsState show ?thesis by (simp add: fsm_on_io)
  qed simp_all
  then have "fsm_fd b (snd (state_onDisconnect (curState (fst st)) st))"
    using ok unfolding keeps_def by blast
  then show ?thesis
    by (simp add: http_onDisconnect_def case_prod_unfold)
qed

end

text \<open>So \<^verbatim>\<open>TcpServerHandler\<close> is a server handler in the worker's sense.\<close>

sublocale http_application \<subseteq> callbacks: server_callbacks "http_handler srv" fsm_ok
proof
  fix st :: "'u http_fsm \<times> 'u io" and buf :: "byte list" and len h i i' b
  assume ok: "fsm_ok st"
  show "fsm_ok (snd (sh_onConnect (http_handler srv) st))"
    and "io_fd_open (snd (snd (sh_onConnect (http_handler srv) st))) = io_fd_open (snd st)"
    using ok by (simp_all add: http_handler_def)
  show "fsm_ok (snd (sh_onDisconnect (http_handler srv) st))"
    and "io_fd_open (snd (snd (sh_onDisconnect (http_handler srv) st))) = io_fd_open (snd st)"
    using disconnect_keeps_fsm [of st "(io_fd_open (snd st), io_recvs (snd st))"] ok by (simp_all add: http_handler_def)
  show "fsm_ok (snd (sh_onReceive (http_handler srv) buf len st))"
    and "io_fd_open (snd (snd (sh_onReceive (http_handler srv) buf len st))) = io_fd_open (snd st)"
    using receive_keeps_fsm [of st "(io_fd_open (snd st), io_recvs (snd st))" buf len] ok
    by (simp_all add: http_handler_def)
next
  fix h :: "'u http_fsm" and i i' :: "'u io" and b
  assume ok: "fsm_ok (h, i)"
  show "fsm_ok (h, i\<lparr>io_fd_open := b\<rparr>)"
    using ok by (rule fsm_ok_io) simp
  assume "io_closed i' = io_closed i"
  then show "fsm_ok (h, i')"
    using fsm_ok_io [OF ok] by simp
qed

end
