(* ===== verification/Http_Sessions.thy ===== *)
theory Http_Sessions
  imports Http_States
begin

text \<open>
  Whole HTTP connections: what \<^verbatim>\<open>TcpServerHandler\<close> does with a request that arrives in segments,
  and the worker run on the file server from the first segment to the close.

  \<open>waiting t\<close> is the handler that has received the characters \<open>t\<close> of a request so far; the
  segments of a request are \<open>segments_ok\<close> when the code can take them: none empty, none longer than
  the worker's buffer, the first of at least four bytes, and none but the last ends with an empty
  line.
\<close>

section \<open>The servers\<close>

text \<open>The factories \<^verbatim>\<open>Server::serve\<close> is given by its overloads of \<^verbatim>\<open>src/http/socks_http.hpp\<close>: file
  handlers and null WebSocket handlers, or any HTTP handlers and null WebSocket handlers, or file
  handlers and any WebSocket handlers.\<close>

definition http_server_of ::
  "'u http_handler_factory \<Rightarrow> 'u ws_handler_factory \<Rightarrow> (string \<Rightarrow> byte list) \<Rightarrow>
   (byte list \<Rightarrow> string) \<Rightarrow> (nat \<Rightarrow> bool) \<Rightarrow> 'u http_server"
where
  "http_server_of httpF wsF sha b64 al =
     \<lparr>httpHandlerFactory = httpF, wsHandlerFactory = wsF, sha1 = sha, base64 = b64, alloc = al\<rparr>"

definition serve_files where
  "serve_files fs basePath = http_server_of (file_handler_factory fs basePath) (ws_factory_default ws_handler_null)"

definition serve_http where
  "serve_http httpF = http_server_of httpF (ws_factory_default ws_handler_null)"

definition serve_files_ws where
  "serve_files_ws fs basePath wsF = http_server_of (file_handler_factory fs basePath) wsF"

definition serve_ws_echo where
  "serve_ws_echo = http_server_of null_handler_factory (ws_factory_default ws_echo_handler)"

text \<open>The server and the connection the examples run on: the echo server with constants in the
  place of SHA-1 and Base64, and a connection on which nothing happens.\<close>

abbreviation demo_server :: "unit http_server" where
  "demo_server \<equiv> serve_ws_echo (\<lambda>_. replicate 20 0) (\<lambda>_. ''accept'') (\<lambda>_. True)"

abbreviation idle_io :: "unit io" where
  "idle_io \<equiv> io_start [] [] [] ()"

lemma polite_http_operations [simp]:
  "polite (http_write b)" "polite (http_response_code c)" "polite end_headers" "polite (http_200 n)"
  "polite http_403" "polite http_404"
  unfolding http_write_def http_response_code_def end_headers_def http_200_def http_403_def http_404_def
  by (intro polite_thenA polite_send polite_basic)+

lemma polite_send_file: "polite (send_file content)"
proof (induction content rule: send_file.induct)
  case (1 left)
  show ?case
  proof (cases "left = []")
    case True
    then show ?thesis by (simp add: send_file_Nil polite_thenA)
  next
    case False
    then have "0 < length (take BUF_SIZE left)"
      unfolding length_greater_0_conv BUF_SIZE_simps .
    from "1.IH" [OF refl refl this] False show ?thesis
      by (simp add: send_file_more polite_thenA)
  qed
qed

lemma polite_file_do_GET: "polite (file_do_GET fs basePath ri)"
  unfolding file_do_GET_def Let_def
  by (intro polite_bindA polite_basic) (auto intro!: polite_thenA polite_send_file split: option.split)

lemma polite_simple_do_GET: "polite (simple_do_GET ri)"
  unfolding simple_do_GET_def by (intro polite_bindA polite_thenA) simp_all

interpretation files: http_application "serve_files fs basePath sha b64 al" for fs basePath sha b64 al
  by unfold_locales
    (auto simp: serve_files_def http_server_of_def file_handler_factory_def ws_factory_default_def
      polite_file_do_GET ws_null.onConnect_polite ws_null.onData_polite ws_null.onText_polite
      ws_null.onDisconnect_polite)

interpretation ws_echo: http_application "serve_ws_echo sha b64 al" for sha b64 al
  by unfold_locales
    (auto simp: serve_ws_echo_def http_server_of_def null_handler_factory_def null_do_GET_def
      ws_factory_default_def ws_echo.onConnect_polite ws_echo.onData_polite ws_echo.onText_polite
      ws_echo.onDisconnect_polite)

interpretation simple: http_application "serve_http (retA simple_do_GET) sha b64 al" for sha b64 al
  by unfold_locales
    (auto simp: serve_http_def http_server_of_def ws_factory_default_def
      polite_simple_do_GET ws_null.onConnect_polite ws_null.onData_polite ws_null.onText_polite
      ws_null.onDisconnect_polite)

section \<open>Receiving a request in segments\<close>

definition padded :: "string \<Rightarrow> string" where
  "padded t = t @ replicate (RECV_SIZE - length t) NUL"

definition waiting :: "string \<Rightarrow> 'u http_fsm" where
  "waiting t =
     \<lparr>curState = HttpInitState (padded t) (length t), nextState = None, requestInfo = request_info_new\<rparr>"

lemma waiting_Nil: "waiting [] = http_fsm_new"
  by (simp add: waiting_def padded_def http_fsm_new_def)

definition ends_request :: "string \<Rightarrow> bool" where
  "ends_request t \<longleftrightarrow> 4 \<le> length t \<and> drop (length t - 4) t = TERMINATOR"

fun segments_ok :: "string \<Rightarrow> byte list list \<Rightarrow> bool" where
  "segments_ok t [] = True"
| "segments_ok t (d # ds) =
     (d \<noteq> [] \<and> length d \<le> MAX_SIZE \<and> 4 \<le> length t + length d \<and>
      (ds \<noteq> [] \<longrightarrow> \<not> ends_request (t @ chars_of d) \<and> segments_ok (t @ chars_of d) ds))"

lemma length_TERMINATOR [simp]: "length TERMINATOR = 4"
  by (simp add: TERMINATOR_def CRLF_def)

lemma length_padded [simp]: "length t \<le> RECV_SIZE \<Longrightarrow> length (padded t) = RECV_SIZE"
  by (simp add: padded_def)

lemma chars_of_append [simp]: "chars_of (a @ b) = chars_of a @ chars_of b"
  by (simp add: chars_of_def)

lemma chars_of_Nil [simp]: "chars_of [] = []"
  by (simp add: chars_of_def)

lemma chars_of_take: "take n (chars_of b) = chars_of (take n b)"
  by (simp add: chars_of_def take_map)

lemma memcpy_padded:
  assumes "length t + len \<le> RECV_SIZE" and "len \<le> length buf"
  shows "memcpy (padded t) (length t) (chars_of buf) 0 len = Inr (padded (t @ chars_of (take len buf)))"
proof -
  have "length t + len \<le> length (padded t)" using assms(1) by simp
  then have "memcpy (padded t) (length t) (chars_of buf) 0 len =
      Inr (take (length t) (padded t) @ take len (chars_of buf) @ drop (length t + len) (padded t))"
    using assms(2) by (subst memcpy_in) simp_all
  also have "take len (chars_of buf) = chars_of (take len buf)" by (rule chars_of_take)
  finally show ?thesis
    using assms by (simp add: padded_def min_def)
qed

lemma incomplete_padded:
  assumes "4 \<le> length t" and "length t < RECV_SIZE"
  shows "incomplete (padded t) (length t) = Inr (\<not> ends_request t)"
proof -
  have "take 4 (drop (length t - 4) (padded t)) = drop (length t - 4) t"
    using assms by (simp add: padded_def)
  with assms show ?thesis
    by (simp add: incomplete_def ends_request_def)
qed

lemma store_terminator:
  assumes "length t < RECV_SIZE"
  shows "store (padded t) (length (padded t) - 1) NUL = Inr (padded t)"
proof -
  have "\<not> RECV_SIZE - 1 < length t" using assms by linarith
  then have "padded t ! (RECV_SIZE - 1) = NUL"
    using assms by (simp add: padded_def nth_append)
  then have "(padded t)[RECV_SIZE - 1 := NUL] = padded t"
    using list_update_id by metis
  with assms show ?thesis
    by (simp add: RECV_SIZE_def)
qed

text \<open>What the code does with a complete request.\<close>

definition request_done :: "'u http_server \<Rightarrow> string \<Rightarrow> ('u http_fsm \<times> 'u io, unit) act" where
  "request_done srv t =
     thenA (bindA (tryA (thenA (on_requestInfo (parse_request (padded t) (length t))) (init_dispatch srv))
                    (\<lambda>exc. thenA (on_io (log_io (Log_Unparsed_Request exc))) (retA False)))
              (\<lambda>returned. if returned then retA () else on_io conn_close))
       (modA take_next)"

lemma waiting_simps [simp]:
  "curState (waiting t) = HttpInitState (padded t) (length t)"
  "nextState (waiting t) = None"
  "requestInfo (waiting t) = request_info_new"
  by (simp_all add: waiting_def)

lemma onReceive_waiting:
  "http_onReceive srv buf len (waiting t, i) =
     thenA (init_onReceive srv (padded t) (length t) buf len) (modA take_next) (waiting t, i)"
  by (simp add: http_onReceive_def)

lemma receive_segment:
  assumes "len \<le> length buf" and "4 \<le> length t + len" and "length t + len < RECV_SIZE"
    and "t' = t @ chars_of (take len buf)"
  shows "http_onReceive srv buf len (waiting t, i) =
    (if ends_request t' then request_done srv t' (waiting t', i) else (Inr (), (waiting t', i)))"
proof -
  have len: "length t' = length t + len" using assms(1,4) by simp
  have cp: "memcpy (padded t) (length t) (chars_of buf) 0 len = Inr (padded t')"
    using assms by (simp add: memcpy_padded)
  have inc: "incomplete (padded t') (length t + len) = Inr (\<not> ends_request t')"
    using incomplete_padded [of t'] assms(2,3) len by simp
  have st: "store (padded t') (length (padded t') - 1) NUL = Inr (padded t')"
    using store_terminator [of t'] assms(3) len by simp
  have cur: "set_cur (HttpInitState (padded t') (length t + len)) (waiting t, i) = (Inr (), (waiting t', i))"
    "set_cur (HttpInitState (padded t') (length t + len)) (waiting t', i) = (Inr (), (waiting t', i))"
    by (simp_all add: set_cur_def waiting_def len)
  show ?thesis
  proof (cases "ends_request t'")
    case False
    then have "init_body srv (padded t) (length t) buf len (waiting t, i) = (Inr True, (waiting t', i))"
      by (simp add: init_body_def cp Let_def thenA_app cur inc)
    then have "init_onReceive srv (padded t) (length t) buf len (waiting t, i) = (Inr (), (waiting t', i))"
      by (simp add: init_onReceive_def bindA_app tryA_def)
    with False show ?thesis
      by (simp add: onReceive_waiting thenA_app take_next_def)
  next
    case True
    then have "init_body srv (padded t) (length t) buf len (waiting t, i) =
        thenA (on_requestInfo (parse_request (padded t') (length t'))) (init_dispatch srv) (waiting t', i)"
      using st by (simp add: init_body_def cp Let_def thenA_app cur inc len)
    then have "init_onReceive srv (padded t) (length t) buf len (waiting t, i) =
        bindA (tryA (thenA (on_requestInfo (parse_request (padded t') (length t'))) (init_dispatch srv))
                    (\<lambda>exc. thenA (on_io (log_io (Log_Unparsed_Request exc))) (retA False)))
              (\<lambda>returned. if returned then retA () else on_io conn_close) (waiting t', i)"
      by (simp add: init_onReceive_def bindA_app tryA_def)
    with True show ?thesis
      by (simp add: onReceive_waiting request_done_def thenA_app)
  qed
qed

text \<open>A handler fed with segments, as the worker feeds it.\<close>

fun receive_segments ::
  "'u http_server \<Rightarrow> byte list list \<Rightarrow> ('u http_fsm \<times> 'u io, unit) act"
where
  "receive_segments srv [] = retA ()"
| "receive_segments srv (d # ds) = thenA (http_onReceive srv d (length d)) (receive_segments srv ds)"

lemma length_chars_of_concat: "length (chars_of (concat ds)) = length (concat ds)"
  by simp

lemma receive_segments_waiting:
  assumes "segments_ok t ds" and "ds \<noteq> []" and "length t + length (concat ds) < RECV_SIZE"
  shows "receive_segments srv ds (waiting t, i) =
    http_onReceive srv (concat ds) (length (concat ds)) (waiting t, i)"
  using assms
proof (induction ds arbitrary: t)
  case Nil
  then show ?case by simp
next
  case (Cons d ds)
  show ?case
  proof (cases "ds = []")
    case True
    then show ?thesis by (simp add: thenA_app split: prod.split sum.split)
  next
    case False
    let ?t = "t @ chars_of d"
    have ok: "\<not> ends_request ?t" "segments_ok ?t ds" "4 \<le> length t + length d"
      using Cons.prems(1) False by simp_all
    have size: "length t + length d < RECV_SIZE" "length ?t + length (concat ds) < RECV_SIZE"
      using Cons.prems(3) by simp_all
    have one: "http_onReceive srv d (length d) (waiting t, i) = (Inr (), (waiting ?t, i))"
      using receive_segment [of "length d" d t ?t srv i] ok size by simp
    have "receive_segments srv (d # ds) (waiting t, i) =
        http_onReceive srv (concat ds) (length (concat ds)) (waiting ?t, i)"
      using Cons.IH [OF ok(2) False size(2)] one by (simp add: thenA_app)
    also have "\<dots> = http_onReceive srv (concat (d # ds)) (length (concat (d # ds))) (waiting t, i)"
    proof -
      have "4 \<le> length ?t + length (concat ds)" and "4 \<le> length t + length (concat (d # ds))"
        and "length t + length (concat (d # ds)) < RECV_SIZE"
        using ok(3) size by simp_all
      with size(2) show ?thesis
        by (simp add: receive_segment [OF _ _ _ refl])
    qed
    finally show ?thesis .
  qed
qed

section \<open>A complete request, by its outcome\<close>

lemma request_done_error:
  assumes "parse_request (padded t) (length t) request_info_new = (Inl (Throw e), ri)"
  shows "request_done srv t (waiting t, i) = (Inr (), (waiting t\<lparr>requestInfo := ri\<rparr>,
    i\<lparr>io_log := io_log i @ [Log_Unparsed_Request e], io_closed := True\<rparr>))"
  using assms
  by (simp add: request_done_def on_requestInfo_def tryA_def thenA_app bindA_app on_io_app log_io_def
      conn_close_def take_next_def)

definition logged_request :: "request_info \<Rightarrow> string \<Rightarrow> 'u io \<Rightarrow> 'u io" where
  "logged_request ri path i =
     i\<lparr>io_log := io_log i @ [Log_Request (if ri_requestType ri = GET then ''GET'' else ''GET_WS'') path]\<rparr>"

lemma request_done_get:
  assumes "parse_request (padded t) (length t) request_info_new = (Inr (), ri)"
    and "request_path ri = Inr path" and "ri_requestType ri = GET"
    and "httpHandlerFactory srv = retA h" and "h ri (logged_request ri path i) = (Inr (), i2)"
  shows "request_done srv t (waiting t, i) =
    (Inr (), (\<lparr>curState = HttpGetState h, nextState = None, requestInfo = ri\<rparr>, i2\<lparr>io_closed := True\<rparr>))"
  using assms
  by (simp add: request_done_def on_requestInfo_def init_dispatch_eq get_requestInfo_def tryA_def
      thenA_app bindA_app on_io_app log_io_def conn_close_def take_next_def setNextState_def
      get_onEnter_def logged_request_def waiting_def)

lemma request_done_get_throws:
  assumes "parse_request (padded t) (length t) request_info_new = (Inr (), ri)"
    and "request_path ri = Inr path" and "ri_requestType ri = GET"
    and "httpHandlerFactory srv = retA h"
    and "h ri (logged_request ri path i) = (Inl (Throw e), i2)"
  shows "request_done srv t (waiting t, i) = (Inr (), (waiting t\<lparr>requestInfo := ri\<rparr>,
    i2\<lparr>io_log := io_log i2 @ [Log_Unparsed_Request e], io_closed := True\<rparr>))"
  using assms
  by (simp add: request_done_def on_requestInfo_def init_dispatch_eq get_requestInfo_def tryA_def
      thenA_app bindA_app on_io_app log_io_def conn_close_def take_next_def setNextState_def
      get_onEnter_def logged_request_def waiting_def)

lemma request_done_ws:
  assumes "parse_request (padded t) (length t) request_info_new = (Inr (), ri)"
    and "request_path ri = Inr path" and "ri_requestType ri = GET_WS"
    and "wsHandlerFactory srv = retA h" and "ri_headers ri ''Sec-WebSocket-Key'' = Some key"
    and "conn_send_chars (upgrade_response srv (wh_subprotocol h) key) (logged_request ri path i) = (Inr n, i2)"
    and "wh_onConnect h i2 = (Inr (), i3)"
  shows "request_done srv t (waiting t, i) =
    (Inr (), (\<lparr>curState = HttpWsState h 0 [], nextState = None, requestInfo = ri\<rparr>, i3))"
  using assms
  by (simp add: request_done_def on_requestInfo_def init_dispatch_eq get_requestInfo_def tryA_def
      thenA_app bindA_app on_io_app log_io_def take_next_def setNextState_def
      ws_onEnter_def header_at_def logged_request_def waiting_def)

section \<open>A request as a conversation\<close>

text \<open>\<open>requesting t P Q\<close>: the segments to come complete the request \<open>t\<close> while the connection
  satisfies \<open>P\<close>; when it has been answered, \<open>Q\<close> holds.\<close>

definition requesting ::
  "string \<Rightarrow> ('u io \<Rightarrow> bool) \<Rightarrow> ('u http_fsm \<times> 'u io \<Rightarrow> bool) \<Rightarrow> byte list list \<Rightarrow> 'u http_fsm \<times> 'u io \<Rightarrow> bool"
where
  "requesting whole P Q ds = (\<lambda>(f, i).
     if ds = [] then Q (f, i)
     else P i \<and> \<not> io_closed i \<and>
       (\<exists>t. f = waiting t \<and> t @ chars_of (concat ds) = whole \<and> segments_ok t ds))"

lemma request_conversation:
  assumes "ends_request whole" and "length whole < RECV_SIZE"
    and answered: "\<And>i. P i \<Longrightarrow> \<not> io_closed i \<Longrightarrow>
      \<exists>h' i'. request_done srv whole (waiting whole, i) = (Inr (), (h', i')) \<and> Q (h', i')
        \<and> io_polls i' = io_polls i \<and> io_recvs i' = io_recvs i
        \<and> io_signalStatus i' = io_signalStatus i"
    and P: "\<And>i ps rs. P i \<Longrightarrow> P (i\<lparr>io_polls := ps, io_recvs := rs\<rparr>)"
    and Q: "\<And>h i ps rs. Q (h, i) \<Longrightarrow> Q (h, i\<lparr>io_polls := ps, io_recvs := rs\<rparr>)"
  shows "conversation (http_handler srv) (requesting whole P Q)"
proof
  fix d ds h i buf
  assume C: "requesting whole P Q (d # ds) (h, i)" and buf: "length buf = MAX_SIZE" "take (length d) buf = d"
  then obtain t where t: "h = waiting t" "t @ chars_of d @ chars_of (concat ds) = whole"
    "segments_ok t (d # ds)" and i: "P i" "\<not> io_closed i"
    by (auto simp: requesting_def)
  have size: "4 \<le> length t + length d" "length d \<le> length buf" "length t + length d < RECV_SIZE"
    using t(2,3) assms(2) buf(1) by auto
  let ?t = "t @ chars_of d"
  have step: "sh_onReceive (http_handler srv) buf (length d) (h, i) =
      (if ends_request ?t then request_done srv ?t (waiting ?t, i) else (Inr (), (waiting ?t, i)))"
    using receive_segment [of "length d" buf t ?t srv i] size buf(2) t(1) by (simp add: http_handler_def)
  show "\<exists>h' i'. sh_onReceive (http_handler srv) buf (length d) (h, i) = (Inr (), (h', i'))
      \<and> requesting whole P Q ds (h', i') \<and> io_polls i' = io_polls i \<and> io_recvs i' = io_recvs i
      \<and> io_signalStatus i' = io_signalStatus i"
  proof (cases "ds = []")
    case True
    with t(2) have "?t = whole" by simp
    with step assms(1) answered [OF i] True show ?thesis
      by (auto simp: requesting_def)
  next
    case False
    with t(3) have "\<not> ends_request ?t" "segments_ok ?t ds" by simp_all
    with step False t(2) i show ?thesis
      by (auto simp: requesting_def)
  qed
qed (auto simp: requesting_def P Q split: if_splits)

lemma requesting_start:
  "ds \<noteq> [] \<Longrightarrow> P i \<Longrightarrow> \<not> io_closed i \<Longrightarrow> segments_ok [] ds \<Longrightarrow>
   requesting (chars_of (concat ds)) P Q ds (http_fsm_new, i)"
  by (auto simp: requesting_def waiting_Nil [symmetric])

text \<open>A worker that runs such a conversation and then finds the connection closed.\<close>

lemma request_worker:
  assumes conv: "conversation (http_handler srv) (requesting (chars_of (concat (received evs))) P Q)"
    and start: "P i" "\<not> io_closed i" "io_signalStatus i = 0"
      "io_polls i = poll_script evs @ ps" "io_recvs i = recv_script evs @ rs"
    and evs: "received evs \<noteq> []" "last evs \<noteq> None" "segments_ok [] (received evs)"
    and buf: "length buf = MAX_SIZE"
    and closed: "\<And>f i. Q (f, i) \<Longrightarrow> io_closed i \<and> (\<forall>h op p. curState f \<noteq> HttpWsState h op p)"
  shows "\<exists>f i'. worker_run (http_handler srv) (replicate (Suc (length evs)) None) buf (worker_start http_fsm_new i) =
      (Inr (), \<lparr>wk_state = (f, i'\<lparr>io_fd_open := False\<rparr>), wk_isActive = False\<rparr>)
    \<and> Q (f, i')"
proof -
  let ?h = "http_handler srv"
  have "requesting (chars_of (concat (received evs))) P Q (received evs) (http_fsm_new, i)"
    using evs start by (intro requesting_start)
  moreover have "io_closed i" if "requesting (chars_of (concat (received evs))) P Q [] (h, i)" for h i
    using that closed by (auto simp: requesting_def)
  ultimately obtain f i' where
    loop: "worker_loop ?h (replicate (Suc (length evs)) None) buf (http_fsm_new, i) = (Inr (), (f, i'))"
    and Q: "Q (f, i')"
    using conversation.loop_closing [OF conv _ buf evs(2) start(4,5,3)]
    by (fastforce simp: requesting_def simp del: worker_loop.simps)
  have "sh_onDisconnect ?h (f, i') = (Inr (), (f, i'))"
    using closed [OF Q] by (cases "curState f") (simp_all add: http_handler_def http_onDisconnect_def)
  moreover have "sh_onConnect ?h (wk_state (worker_start http_fsm_new i)) = (Inr (), (http_fsm_new, i))"
    by (simp add: http_handler_def worker_start_def)
  ultimately show ?thesis
    using worker_run_returns [OF _ loop] Q by (fastforce simp: worker_start_def)
qed

lemma render_request_ends: "ends_request (render_request path query hs)"
proof -
  have "\<exists>s. CRLF @ header_lines hs = s @ CRLF"
  proof (cases hs rule: rev_cases)
    case Nil
    then show ?thesis by (simp add: header_lines_def)
  next
    case (snoc hs' h)
    then show ?thesis by (cases h) (simp add: header_lines_def header_line_def)
  qed
  then obtain s where "render_request path query hs = (request_line path query @ s) @ TERMINATOR"
    by (auto simp: render_request_def TERMINATOR_def)
  then show ?thesis
    by (simp add: ends_request_def)
qed

lemma padded_NUL:
  "length t < RECV_SIZE \<Longrightarrow> padded t = t @ NUL # replicate (RECV_SIZE - Suc (length t)) NUL"
  by (simp add: padded_def Suc_diff_Suc flip: replicate_Suc)

section \<open>Properties\<close>

text \<open>C6. Segmentation does not matter: a request that arrives in several segments is handled
  exactly as if it had arrived in one, whatever the two handler factories do, provided the first
  segment has four bytes, no earlier segment happens to end with an empty line and the whole is
  shorter than the buffer.\<close>

theorem request_segmentation:
  assumes "segments_ok [] ds" and "ds \<noteq> []" and "length (concat ds) < RECV_SIZE"
  shows "receive_segments srv ds (http_fsm_new, i) =
    http_onReceive srv (concat ds) (length (concat ds)) (http_fsm_new, i)"
  using receive_segments_waiting [OF assms(1,2), of srv i] assms(3) by (simp add: waiting_Nil)

theorem request_segmentation_witness:
  "receive_segments demo_server [bytes_of ''GET '', bytes_of ''/ HT'', bytes_of CRLF] (http_fsm_new, idle_io) =
   http_onReceive demo_server (bytes_of (''GET / HT'' @ CRLF)) 10 (http_fsm_new, idle_io)"
proof -
  have seg: "segments_ok [] [bytes_of ''GET '', bytes_of ''/ HT'', bytes_of CRLF]"
    by (simp add: MAX_SIZE_def ends_request_def TERMINATOR_def CRLF_def CR_def LF_def)
  have "concat [bytes_of ''GET '', bytes_of ''/ HT'', bytes_of CRLF] = bytes_of (''GET / HT'' @ CRLF)"
    and "length (bytes_of (''GET / HT'' @ CRLF)) = 10"
    by (simp_all add: CRLF_def flip: bytes_of_append)
  with request_segmentation [OF seg, of demo_server idle_io] show ?thesis
    by (simp add: RECV_SIZE_def)
qed

text \<open>A whole GET: a client sends a well-formed request for a file, in segments and with pauses;
  the worker answers with the head and every byte of the file, closes the connection and the
  descriptor, and ends inactive, with the machine in its GET state.\<close>

theorem http_server_serves_file:
  assumes "path_ok path" and "query_ok query" and "headers_ok hs"
    and "\<not> isWsRequest (header_map hs)" and "length (render_request path query hs) < RECV_SIZE"
    and "concat (received evs) = bytes_of (render_request path query hs)"
    and "segments_ok [] (received evs)" and "last evs \<noteq> None"
    and "find_str ''..'' (served_path path) = None"
    and "fs_open fs (served_path path) = Some content"
    and "fs_end fs (served_path path) = int (length content)" and "length content < 2 ^ 63"
    and "\<forall>a \<in> set ss. \<exists>k > 0. a = Sent k"
    and "length (ok_head (int (length content))) + length content \<le> length ss"
    and "length buf = MAX_SIZE"
  shows "\<exists>f i. worker_run (http_handler (serve_files fs basePath sha b64 al))
        (replicate (Suc (length evs)) None) buf
        (worker_start http_fsm_new (io_start ss (recv_script evs @ rs) (poll_script evs @ ps) (u :: 'u))) =
      (Inr (), \<lparr>wk_state = (f, i), wk_isActive = False\<rparr>)
    \<and> io_wire i = bytes_of (ok_head (int (length content))) @ content
    \<and> io_closed i \<and> \<not> io_fd_open i \<and> (\<exists>h. curState f = HttpGetState h)"
proof -
  let ?srv = "serve_files fs basePath sha b64 al :: 'u http_server"
  let ?req = "render_request path query hs"
  let ?out = "bytes_of (ok_head (int (length content))) @ content"
  let ?P = "\<lambda>i :: 'u io. conn_ready (length ?out) i \<and> io_wire i = []"
  let ?Q = "\<lambda>(f :: 'u http_fsm, i :: 'u io). io_wire i = ?out \<and> io_closed i \<and> (\<exists>h. curState f = HttpGetState h)"
  have req: "chars_of (concat (received evs)) = ?req" by (simp add: assms(6))
  let ?ri = "\<lparr>ri_requestType = GET, ri_path = path @ replicate (MAX_PATH_LEN - length path) NUL,
      ri_headers = header_map hs\<rparr>"
  have "4 \<le> length ?req" using render_request_ends unfolding ends_request_def by blast
  then have parsed: "parse_request (padded ?req) (length ?req) request_info_new = (Inr (), ?ri)"
    using parse_request_render [OF assms(1-3) padded_NUL [OF assms(5)]] assms(4) by simp
  have rpath: "request_path ?ri = Inr path"
    using request_path_request_for [of path] path_okD [OF assms(1)] assms(1)
    by (simp add: request_path_def request_for_def path_ok_def)
  have says: "says (file_do_GET fs basePath ?ri) ?out"
    using says_file [OF rpath assms(9,10)] assms(11,12) by simp
  have conv: "conversation (http_handler ?srv) (requesting ?req ?P ?Q)"
  proof (rule request_conversation [OF render_request_ends assms(5)])
    fix i :: "'u io"
    assume P: "?P i"
    let ?i = "logged_request ?ri path i"
    have "conn_ready (length ?out) ?i" using P by (simp add: logged_request_def)
    from says_unit_run [OF says this] obtain i2 where
      "file_do_GET fs basePath ?ri ?i = (Inr (), i2)" "io_wire i2 = ?out" "io_rest i2 = io_rest ?i"
      using P by (auto simp: logged_request_def)
    with request_done_get [OF parsed rpath, of ?srv "file_do_GET fs basePath" i i2]
      io_restD(1,2,5) [of i2 ?i]
    show "\<exists>h' i'. request_done ?srv ?req (waiting ?req, i) = (Inr (), (h', i')) \<and> ?Q (h', i')
        \<and> io_polls i' = io_polls i \<and> io_recvs i' = io_recvs i \<and> io_signalStatus i' = io_signalStatus i"
      by (simp add: serve_files_def http_server_of_def file_handler_factory_def logged_request_def)
  qed (auto simp: conn_ready_def io_willing_def)
  have "received evs \<noteq> []" using req \<open>4 \<le> length ?req\<close> by auto
  moreover have "?P (io_start ss (recv_script evs @ rs) (poll_script evs @ ps) u)"
    using assms(13,14) by (simp add: conn_ready_def io_willing_def)
  ultimately show ?thesis
    using request_worker [OF conv [folded req] _ _ _ _ _ _ assms(8,7,15), of _ ps rs] by fastforce
qed

theorem http_server_serves_file_witness:
  "\<exists>f i. worker_run (http_handler (serve_files \<lparr>fs_open = [''a'' \<mapsto> [104, 105]], fs_end = \<lambda>_. 2\<rparr> ''/tmp''
        (\<lambda>_. replicate 20 0) (\<lambda>_. ''accept'') (\<lambda>_. True))) (replicate 4 None) (replicate MAX_SIZE 0)
        (worker_start http_fsm_new (io_start (replicate 100 (Sent 1))
          (recv_script [Some (bytes_of ''GET /''), None, Some (bytes_of (''a HTTP/1.1'' @ CRLF @ CRLF))] @ [])
          (poll_script [Some (bytes_of ''GET /''), None, Some (bytes_of (''a HTTP/1.1'' @ CRLF @ CRLF))] @ []) ())) =
      (Inr (), \<lparr>wk_state = (f, i), wk_isActive = False\<rparr>)
    \<and> io_wire i = bytes_of (ok_head 2) @ [104, 105]"
proof -
  let ?evs = "[Some (bytes_of ''GET /''), None, Some (bytes_of (''a HTTP/1.1'' @ CRLF @ CRLF))]"
  have req: "render_request ''/a'' [] [] = ''GET /a HTTP/1.1'' @ CRLF @ CRLF"
    by (simp add: render_request_def request_line_def header_lines_def HTTP_VERSION_def)
  have a: "path_ok ''/a''" "query_ok []" "headers_ok []" "\<not> isWsRequest (header_map [])"
    by (simp_all add: path_ok_def query_ok_def headers_ok_def MAX_PATH_LEN_def LF_def NUL_def
        isWsRequest_def hasHeaderField_def)
  have b: "length (render_request ''/a'' [] []) < RECV_SIZE"
    by (simp add: req RECV_SIZE_def CRLF_def)
  have c: "concat (received ?evs) = bytes_of (render_request ''/a'' [] [])"
    unfolding req by (simp flip: bytes_of_append)
  have d: "segments_ok [] (received ?evs)"
    by (simp add: MAX_SIZE_def ends_request_def TERMINATOR_def CRLF_def CR_def LF_def)
  let ?fs = "\<lparr>fs_open = [''a'' \<mapsto> [104, 105]], fs_end = \<lambda>_. 2\<rparr>" and ?ss = "replicate 100 (Sent 1)"
  have n: "Suc (length ?evs) = 4" and m: "int (length [104, 105 :: byte]) = 2" by simp_all
  have e: "length (ok_head (int (length [104, 105 :: byte]))) + length [104, 105 :: byte] \<le> length ?ss"
    unfolding m by (simp add: ok_head_def response_head_def CRLF_def dec_int_def dec.simps)
  have f: "find_str ''..'' (served_path ''/a'') = None"
    "fs_open ?fs (served_path ''/a'') = Some [104, 105]"
    "fs_end ?fs (served_path ''/a'') = int (length [104, 105 :: byte])"
    by (simp_all add: served_path_def)
  have g: "length [104, 105 :: byte] < 2 ^ 63" "\<forall>a \<in> set ?ss. \<exists>k > 0. a = Sent k"
    "length (replicate MAX_SIZE 0 :: byte list) = MAX_SIZE" "last ?evs \<noteq> None"
    by simp_all
  show ?thesis
    using http_server_serves_file [OF a b c d g(4) f g(1,2) e g(3), of "''/tmp''" "\<lambda>_. replicate 20 0" "\<lambda>_. ''accept''" "\<lambda>_. True" "[]" "[]" "()"]
    unfolding n m by blast
qed

text \<open>A request that cannot be parsed gets no answer: whatever the handlers, the worker logs the
  reason, sends nothing, and closes the connection and the descriptor.\<close>

theorem http_server_bad_request:
  assumes "ends_request (chars_of (concat (received evs)))"
    and "NUL \<notin> set (chars_of (concat (received evs)))"
    and "length (concat (received evs)) < RECV_SIZE"
    and "segments_ok [] (received evs)" and "last evs \<noteq> None"
    and "(if take 3 (chars_of (concat (received evs))) \<noteq> ''GET''
          then Inl (Throw (Invalid_Argument ''Unsupported request type.''))
          else request_outcome (split_on (CHR '' '') (chars_of (concat (received evs))))) = Inl (Throw e)"
    and "length buf = MAX_SIZE"
  shows "\<exists>f i. worker_run (http_handler srv) (replicate (Suc (length evs)) None) buf
        (worker_start http_fsm_new (io_start ss (recv_script evs @ rs) (poll_script evs @ ps) (u :: 'u))) =
      (Inr (), \<lparr>wk_state = (f, i), wk_isActive = False\<rparr>)
    \<and> io_wire i = [] \<and> io_log i = [Log_Unparsed_Request e] \<and> io_closed i \<and> \<not> io_fd_open i"
proof -
  let ?req = "chars_of (concat (received evs))"
  let ?P = "\<lambda>i :: 'u io. io_wire i = [] \<and> io_log i = []"
  let ?Q = "\<lambda>(f :: 'u http_fsm, i :: 'u io). io_wire i = [] \<and> io_log i = [Log_Unparsed_Request e]
    \<and> io_closed i \<and> (\<forall>h op p. curState f \<noteq> HttpWsState h op p)"
  have size: "length ?req < RECV_SIZE" "3 \<le> length ?req"
    using assms(1,3) by (simp_all add: ends_request_def)
  have c: "c_str (padded ?req) = Inr ?req"
    unfolding padded_NUL [OF size(1)] by (rule c_str_append) (rule assms(2))
  have len: "length (ri_path request_info_new) = MAX_PATH_LEN"
    by (simp add: request_info_new_def)
  have "fst (parse_request (padded ?req) (length ?req) request_info_new) = Inl (Throw e)"
  proof (cases "take 3 ?req = ''GET''")
    case True
    with parse_request_outcome_words [OF size(2) c True len] assms(6) show ?thesis by simp
  next
    case False
    with size(2) c assms(6) show ?thesis by (simp add: parse_request_def throw_invalid_def)
  qed
  then obtain ri where parsed: "parse_request (padded ?req) (length ?req) request_info_new = (Inl (Throw e), ri)"
    by (metis prod.collapse)
  have conv: "conversation (http_handler srv) (requesting ?req ?P ?Q)"
    by (rule request_conversation [OF assms(1) size(1)])
      (auto simp: request_done_error [OF parsed])
  have "received evs \<noteq> []" using size(2) by auto
  then show ?thesis
    using request_worker [OF conv _ _ _ _ _ _ assms(5,4,7),
        of "io_start ss (recv_script evs @ rs) (poll_script evs @ ps) u" ps rs]
    by fastforce
qed

theorem http_server_bad_request_witness:
  "\<exists>f i. worker_run (http_handler demo_server) [None, None] (replicate MAX_SIZE 0)
      (worker_start http_fsm_new (io_start [] [Received (bytes_of (''PUT / HTTP/1.1'' @ CRLF @ CRLF))]
        [Poll_Ready POLLIN] ())) =
      (Inr (), \<lparr>wk_state = (f, i), wk_isActive = False\<rparr>)
    \<and> io_wire i = [] \<and> io_log i = [Log_Unparsed_Request (Invalid_Argument ''Unsupported request type.'')]"
proof -
  let ?t = "''PUT / HTTP/1.1'' @ CRLF @ CRLF"
  let ?evs = "[Some (bytes_of ?t)]"
  have t: "chars_of (concat (received ?evs)) = ?t"
    by (simp del: bytes_of_append)
  have a: "ends_request ?t" "NUL \<notin> set ?t" "take 3 ?t \<noteq> ''GET''" "length ?t < RECV_SIZE"
    by (simp_all add: ends_request_def TERMINATOR_def CRLF_def CR_def LF_def NUL_def RECV_SIZE_def)
  have b: "length (concat (received ?evs)) < RECV_SIZE" "segments_ok [] (received ?evs)"
    "last ?evs \<noteq> None"
    by (simp_all add: RECV_SIZE_def MAX_SIZE_def CRLF_def del: bytes_of_append)
  have c: "length (replicate MAX_SIZE 0 :: byte list) = MAX_SIZE" by simp
  note run = http_server_bad_request [of ?evs, unfolded t, OF a(1,2) b _ c, of
      "Invalid_Argument ''Unsupported request type.''" demo_server "[]" "[]" "[]" "()"]
  have "Suc (length ?evs) = 2" by simp
  with run a(3) show ?thesis
    by (simp del: bytes_of_append worker_loop.simps add: numeral_2_eq_2) blast
qed

text \<open>C36. The buffer of the request is not guarded: a segment that does not fit behind what has been
  received is written past its end, and as long as fewer than four bytes have arrived the search
  for the empty line reads before its start.\<close>

theorem request_buffer_out_of_bounds:
  assumes "len \<le> length buf" and "length t \<le> RECV_SIZE"
    and "RECV_SIZE < length t + len \<or> length t + len < 4"
  shows "fst (http_onReceive srv buf len (waiting t, i)) =
    Inl (UB (if RECV_SIZE < length t + len then Write_Out_Of_Bounds else Read_Out_Of_Bounds))"
proof (cases "RECV_SIZE < length t + len")
  case True
  then have "memcpy (padded t) (length t) (chars_of buf) 0 len = Inl (UB Write_Out_Of_Bounds)"
    using assms(1,2) by (simp add: memcpy_def)
  with True show ?thesis
    by (simp add: onReceive_waiting init_onReceive_def init_body_def tryA_def thenA_app bindA_app)
next
  case False
  then have cp: "memcpy (padded t) (length t) (chars_of buf) 0 len = Inr (padded (t @ chars_of (take len buf)))"
    using assms(1) by (intro memcpy_padded) simp_all
  have "incomplete (padded (t @ chars_of (take len buf))) (length t + len) = Inl (UB Read_Out_Of_Bounds)"
    using assms False by (simp add: incomplete_def RECV_SIZE_def)
  with cp False show ?thesis
    by (simp add: onReceive_waiting init_onReceive_def init_body_def tryA_def thenA_app bindA_app
        Let_def set_cur_def)
qed

theorem request_buffer_out_of_bounds_witness:
  "fst (http_onReceive demo_server (bytes_of ''GE'') 2 (http_fsm_new, idle_io)) = Inl (UB Read_Out_Of_Bounds)"
  using request_buffer_out_of_bounds [of 2 "bytes_of ''GE''" "[]" demo_server idle_io]
  by (simp add: waiting_Nil RECV_SIZE_def)

text \<open>C21. The machine's invariant, for the file server and the echo server, whatever the kernel
  answers, whenever a signal comes and however the worker's thread ends: \<^verbatim>\<open>_path\<close> and \<^verbatim>\<open>recvBuf\<close>
  keep their sizes, \<^verbatim>\<open>numRecv\<close> stays within the buffer, the path is terminated, and a connection in
  the GET state is closed. The descriptor is closed unless the thread ended with an exception.\<close>

theorem http_worker_invariant:
  fixes srv :: "'u http_server"
  assumes "srv = serve_files fs basePath sha b64 al \<or> srv = serve_ws_echo sha b64 al"
    and "length buf = MAX_SIZE" and "io_fd_open i0"
    and "worker_run (http_handler srv) sigs buf (worker_start http_fsm_new i0) = (Inr (), w)"
    and "wk_state w = (f, i)"
  shows "length (ri_path (requestInfo f)) = MAX_PATH_LEN \<and> NUL \<in> set (ri_path (requestInfo f))
    \<and> (case curState f of
         HttpInitState recvBuf numRecv \<Rightarrow> length recvBuf = RECV_SIZE \<and> numRecv \<le> RECV_SIZE
       | HttpGetState h \<Rightarrow> io_closed i
       | HttpWsState h opcode inBuf \<Rightarrow> True)
    \<and> \<not> wk_isActive w
    \<and> (io_fd_open i \<longleftrightarrow>
        (\<exists>e st. run_body (http_handler srv) sigs buf (http_fsm_new, i0) = (Inl (Throw e), st)))"
proof -
  have start: "fsm_ok (wk_state (worker_start http_fsm_new i0))" "io_fd_open (snd (wk_state (worker_start http_fsm_new i0)))"
    and w0: "wk_state (worker_start http_fsm_new i0) = (http_fsm_new, i0)"
    using assms(3) by (simp_all add: worker_start_def fsm_ok_new)
  have "fsm_ok (wk_state w) \<and> (\<not> wk_isActive w \<and> (io_fd_open (snd (wk_state w)) \<longleftrightarrow>
      (\<exists>e st. run_body (http_handler srv) sigs buf (wk_state (worker_start http_fsm_new i0)) = (Inl (Throw e), st))))"
    using assms(1)
  proof
    assume srv: "srv = serve_files fs basePath sha b64 al"
    show ?thesis
      using files.callbacks.worker_run_keeps [OF start(1) assms(2) assms(4) [unfolded srv]]
        files.callbacks.worker_run_fd [OF start(1) assms(2) start(2) assms(4) [unfolded srv]]
      unfolding srv by (rule conjI)
  next
    assume srv: "srv = serve_ws_echo sha b64 al"
    show ?thesis
      using ws_echo.callbacks.worker_run_keeps [OF start(1) assms(2) assms(4) [unfolded srv]]
        ws_echo.callbacks.worker_run_fd [OF start(1) assms(2) start(2) assms(4) [unfolded srv]]
      unfolding srv by (rule conjI)
  qed
  then show ?thesis
    unfolding w0 assms(5)
    by (auto simp: fsm_ok_def path_inv_def state_ok_def split: http_state.splits)
qed

theorem http_worker_invariant_witness:
  "\<exists>w. worker_run (http_handler (serve_files \<lparr>fs_open = Map.empty, fs_end = \<lambda>_. 0\<rparr> ''/tmp'' (\<lambda>_. replicate 20 0) (\<lambda>_. ''accept'') (\<lambda>_. True))) [None]
      (replicate MAX_SIZE 0) (worker_start http_fsm_new (io_start [] [Recv_Failed (E_OTHER 104)] [Poll_Ready POLLIN] ())) =
      (Inr (), w) \<and> io_fd_open (snd (wk_state w))"
proof -
  let ?srv = "serve_files \<lparr>fs_open = Map.empty, fs_end = \<lambda>_. 0\<rparr> ''/tmp'' (\<lambda>_. replicate 20 0) (\<lambda>_. ''accept'') (\<lambda>_. True) :: unit http_server"
  let ?i = "io_start [] [Recv_Failed (E_OTHER 104)] [Poll_Ready POLLIN] ()" and ?buf = "replicate MAX_SIZE (0 :: byte)"
  have body: "run_body (http_handler ?srv) [None] ?buf (http_fsm_new, ?i) =
      (Inl (Throw (Errno_Error (E_OTHER 104))), (http_fsm_new, ?i\<lparr>io_polls := [], io_recvs := []\<rparr>))"
    by (simp add: run_body_def http_handler_def thenA_app bindA_app on_io_app isReadable_ready
        POLLIN_def sock_read_def retriable_def)
  then have st: "run_body (http_handler ?srv) [None] ?buf (wk_state (worker_start http_fsm_new ?i)) =
      (Inl (Throw (Errno_Error (E_OTHER 104))), (http_fsm_new, ?i\<lparr>io_polls := [], io_recvs := []\<rparr>))"
    by (simp add: worker_start_def)
  obtain w where run: "worker_run (http_handler ?srv) [None] ?buf (worker_start http_fsm_new ?i) = (Inr (), w)"
    using worker_run_throws [of "http_handler ?srv" "[None]" ?buf "worker_start http_fsm_new ?i", OF st] by blast
  obtain f i where w: "wk_state w = (f, i)" by (cases "wk_state w")
  have "length ?buf = MAX_SIZE" "io_fd_open ?i" by simp_all
  from http_worker_invariant [OF disjI1 [OF refl] this run w] body run w show ?thesis
    by auto
qed

text \<open>The request is parsed once: after the initial state a segment leaves the parsed request
  alone, the GET state ignores it altogether, and the WebSocket state stays in the WebSocket state
  with the same handler, however the call ends.\<close>

theorem http_phase_is_final:
  assumes "http_onReceive srv buf len (f, i) = (r, (f', i'))" and "nextState f = None"
    and "\<forall>recvBuf numRecv. curState f \<noteq> HttpInitState recvBuf numRecv"
  shows "requestInfo f' = requestInfo f \<and> nextState f' = None
    \<and> (case curState f of
         HttpGetState h \<Rightarrow> r = Inr () \<and> f' = f \<and> i' = i
       | HttpWsState h op p \<Rightarrow> \<exists>op' p'. curState f' = HttpWsState h op' p'
       | HttpInitState recvBuf numRecv \<Rightarrow> False)"
proof (cases "curState f")
  case (HttpInitState recvBuf numRecv)
  with assms(3) show ?thesis by simp
next
  case (HttpGetState h)
  with assms(1,2) show ?thesis
    by (auto simp: http_onReceive_def take_next_def)
next
  case (HttpWsState h op p)
  let ?K = "\<lambda>(f1, i1 :: 'a io). requestInfo f1 = requestInfo f \<and> nextState f1 = None
    \<and> (\<exists>op' p'. curState f1 = HttpWsState h op' p')"
  have io_unit: "keeps ?K (on_io m)" for m :: "('a io, unit) act"
    by (auto simp: keeps_def on_io_app)
  have io_size: "keeps ?K (on_io m)" for m :: "('a io, size_t) act"
    by (auto simp: keeps_def on_io_app)
  have cur: "keeps ?K (set_cur (HttpWsState h op' p'))" for op' p'
    by (auto simp: keeps_def set_cur_def)
  have dispatch: "keeps ?K (ws_dispatch srv h op' p')" for op' p'
    unfolding ws_dispatch_def
    by (intro keeps_if keeps_bindA keeps_thenA keeps_failA keeps_liftR keeps_retA io_unit io_size cur)
  have "keeps ?K (modA take_next)"
    by (rule keeps_modA) (auto simp: take_next_def case_prod_unfold)
  moreover have "keeps ?K (ws_onReceive srv h op p buf len)"
    unfolding ws_onReceive_def Let_def case_prod_unfold
    by (intro keeps_try_onlyA keeps_bindA keeps_thenA keeps_if keeps_liftR keeps_retA cur dispatch [unfolded case_prod_unfold] cur [unfolded case_prod_unfold])
  ultimately have "keeps ?K (thenA (ws_onReceive srv h op p buf len) (modA take_next))"
    by (intro keeps_thenA)
  moreover have "thenA (ws_onReceive srv h op p buf len) (modA take_next) (f, i) = (r, (f', i'))"
    using assms(1) HttpWsState by (simp add: http_onReceive_def)
  ultimately have "?K (f', i')"
    using keepsD [of ?K _ "(f, i)"] assms(2) HttpWsState by blast
  with HttpWsState show ?thesis by simp
qed

theorem http_phase_is_final_witness:
  "http_onReceive srv [1] 1 (\<lparr>curState = HttpGetState h, nextState = None, requestInfo = ri\<rparr>, i) =
     (Inr (), (\<lparr>curState = HttpGetState h, nextState = None, requestInfo = ri\<rparr>, i))"
proof -
  let ?f = "\<lparr>curState = HttpGetState h, nextState = None, requestInfo = ri\<rparr>"
  obtain r f' i' where run: "http_onReceive srv [1] 1 (?f, i) = (r, (f', i'))"
    by (metis surj_pair)
  from http_phase_is_final [OF run] run show ?thesis by simp
qed

end
