(* ===== verification/Posix_Listen.thy ===== *)
theory Posix_Listen
  imports Posix_Socket
begin

text \<open>
  The listening side of the POSIX system context: \<^verbatim>\<open>ContextImpl\<close>, \<^verbatim>\<open>ListenSocket\<close> and the
  socket options of \<^verbatim>\<open>examples/system_context/system_posix.cpp\<close> (and \<^verbatim>\<open>system_impl.hpp\<close>).

  The server's thread talks to the kernel through system calls. A call is recorded in \<open>k_trace\<close> with
  its arguments and takes the next answer of the script \<open>k_answers\<close>; without one it is \<open>Starved\<close>, so
  a call that is made again and again shows as starving on every script that does not end it.
\<close>

section \<open>System calls\<close>

datatype sock_option = Opt_Reuse_Address | Opt_Tcp_No_Delay

datatype sys_call =
    Sys_Socket
  | Sys_Set_Option int sock_option
  | Sys_Get_Flags int
  | Sys_Set_Flags int int
  | Sys_Bind int "16 word"
  | Sys_Listen int int
  | Sys_Poll int "16 word"
  | Sys_Accept int
  | Sys_Send int "byte list"
  | Sys_Close int

text \<open>A call returns a number, or -1 with \<^verbatim>\<open>errno\<close>; \<open>Sys_Revents\<close> is a \<^verbatim>\<open>poll\<close> that returns 1 with
  the events that occurred (one that returns 0 has timed out).\<close>

datatype sys_answer = Sys_Ok int | Sys_Revents "16 word" | Sys_Fail errno

record kernel =
  k_answers :: "sys_answer list"
  k_trace :: "sys_call list"

definition syscall :: "sys_call \<Rightarrow> (kernel, sys_answer) act" where
  "syscall c k =
     (case k_answers k of
        [] \<Rightarrow> (Inl Starved, k)
      | a # as \<Rightarrow> (Inr a, k\<lparr>k_answers := as, k_trace := k_trace k @ [c]\<rparr>))"

text \<open>\<^verbatim>\<open>if (rc == RETVAL_ERROR) throw ...\<close>\<close>

definition check_rc :: "(errno \<Rightarrow> (kernel, int) act) \<Rightarrow> sys_answer \<Rightarrow> (kernel, int) act" where
  "check_rc on_error a =
     (case a of Sys_Ok n \<Rightarrow> retA n | Sys_Revents _ \<Rightarrow> retA 1 | Sys_Fail e \<Rightarrow> on_error e)"

definition throw_errno :: "errno \<Rightarrow> (kernel, 'a) act" where
  "throw_errno e = failA (Throw (Errno_Error e))"

section \<open>The code\<close>

definition BACKLOG :: int where "BACKLOG = 5"
definition O_NONBLOCK :: int where "O_NONBLOCK = 2048"

definition setTcpNoDelay :: "int \<Rightarrow> (kernel, unit) act" where
  "setTcpNoDelay fd =
     bindA (syscall (Sys_Set_Option fd Opt_Tcp_No_Delay)) (\<lambda>rc.
     thenA (check_rc (\<lambda>e. failA (Throw (Option_Error e))) rc) (retA ()))"

text \<open>The two loops of \<^verbatim>\<open>setSocketFlags\<close>. On an error other than \<^verbatim>\<open>EINTR\<close> the code constructs a
  \<^verbatim>\<open>std::runtime_error\<close> and does not throw it, so both branches go round again. The fuel is one
  unit per call.\<close>

fun retry_call :: "nat \<Rightarrow> sys_call \<Rightarrow> (kernel, int) act" where
  "retry_call 0 c = failA Starved"
| "retry_call (Suc fuel) c =
     bindA (syscall c) (check_rc (\<lambda>e. if e = EINTR then retry_call fuel c else retry_call fuel c))"

definition retry :: "sys_call \<Rightarrow> (kernel, int) act" where
  "retry c k = retry_call (Suc (length (k_answers k))) c k"

definition setSocketFlags :: "int \<Rightarrow> (int \<Rightarrow> int) \<Rightarrow> (kernel, unit) act" where
  "setSocketFlags fd manipulate =
     bindA (retry (Sys_Get_Flags fd)) (\<lambda>flags.
     thenA (retry (Sys_Set_Flags fd (manipulate flags))) (retA ()))"

definition setSocketNonBlocking :: "int \<Rightarrow> (kernel, unit) act" where
  "setSocketNonBlocking fd = setSocketFlags fd (\<lambda>flags. flags OR O_NONBLOCK)"

definition setSocketReuseAddress :: "int \<Rightarrow> (kernel, unit) act" where
  "setSocketReuseAddress fd =
     bindA (syscall (Sys_Set_Option fd Opt_Reuse_Address)) (\<lambda>rc.
     thenA (check_rc throw_errno rc) (retA ()))"

text \<open>\<^verbatim>\<open>close(fd); throw std::runtime_error(strerror(errno));\<close> the error is that of \<^verbatim>\<open>close\<close> if it
  fails too.\<close>

definition close_and_throw :: "int \<Rightarrow> errno \<Rightarrow> (kernel, int) act" where
  "close_and_throw fd e =
     bindA (syscall (Sys_Close fd)) (\<lambda>rc.
     throw_errno (case rc of Sys_Fail e' \<Rightarrow> e' | _ \<Rightarrow> e))"

text \<open>The port is cut to 16 bits by \<^verbatim>\<open>htons\<close>; the address is \<^verbatim>\<open>INADDR_ANY\<close>.\<close>

definition createListenSocket :: "int \<Rightarrow> (kernel, int) act" where
  "createListenSocket port =
     bindA (syscall Sys_Socket) (\<lambda>rc. bindA (check_rc throw_errno rc) (\<lambda>fd.
     thenA (setSocketReuseAddress fd)
    (thenA (setSocketNonBlocking fd)
    (bindA (syscall (Sys_Bind fd (of_int port))) (\<lambda>rc. thenA (check_rc (close_and_throw fd) rc)
    (bindA (syscall (Sys_Listen fd BACKLOG)) (\<lambda>rc. thenA (check_rc (close_and_throw fd) rc)
    (retA fd))))))))"

definition listen_poll :: "int \<Rightarrow> (kernel, bool) act" where
  "listen_poll fd =
     bindA (syscall (Sys_Poll fd POLLIN)) (\<lambda>r.
     case r of
       Sys_Fail e \<Rightarrow> if e \<noteq> EINTR \<and> e \<noteq> EAGAIN then throw_errno e else retA False
     | Sys_Ok _ \<Rightarrow> retA False
     | Sys_Revents revents \<Rightarrow> retA (revents AND POLLIN \<noteq> 0))"

text \<open>The constructor of \<^verbatim>\<open>SocketImpl\<close>; to the server's thread a socket is its descriptor.\<close>

definition SocketImpl_new :: "int \<Rightarrow> (kernel, int) act" where
  "SocketImpl_new fd = thenA (setTcpNoDelay fd) (retA fd)"

text \<open>\<^verbatim>\<open>ListenSocket::accept\<close>: no socket (\<open>None\<close>) or one.\<close>

definition listen_accept :: "int \<Rightarrow> (kernel, int option) act" where
  "listen_accept fd =
     bindA (listen_poll fd) (\<lambda>ready.
     if \<not> ready then retA None
     else bindA (syscall (Sys_Accept fd)) (\<lambda>rc.
          case rc of
            Sys_Fail e \<Rightarrow> if retriable e then retA None else throw_errno e
          | Sys_Ok client_fd \<Rightarrow> bindA (SocketImpl_new client_fd) (\<lambda>client. retA (Some client))
          | Sys_Revents _ \<Rightarrow> retA None))"

text \<open>\<^verbatim>\<open>SocketImpl::write\<close> on the server's thread.\<close>

definition client_write :: "int \<Rightarrow> byte list \<Rightarrow> (kernel, int) act" where
  "client_write fd buf =
     bindA (syscall (Sys_Send fd buf))
       (check_rc (\<lambda>e. if retriable e then retA NUM_CONTINUE else throw_errno e))"

text \<open>\<^verbatim>\<open>~ListenSocket\<close>.\<close>

definition listen_close :: "int \<Rightarrow> (kernel, unit) act" where
  "listen_close fd = thenA (syscall (Sys_Close fd)) (retA ())"

text \<open>The abstract classes \<^verbatim>\<open>ListenSocket\<close> and \<^verbatim>\<open>Context\<close> of \<^verbatim>\<open>src/tcp/socks_system_context.hpp\<close>, and their
  implementations. A listening socket is its descriptor, the only member of the class.\<close>

record 's listen_socket =
  ls_accept :: "int \<Rightarrow> ('s, int option) act"
  ls_destroy :: "int \<Rightarrow> ('s, unit) act"

record 's sys_context =
  ctx_createListenSocket :: "int \<Rightarrow> ('s, int) act"

definition ListenSocketImpl :: "kernel listen_socket" where
  "ListenSocketImpl = \<lparr>ls_accept = listen_accept, ls_destroy = listen_close\<rparr>"

definition ContextImpl :: "kernel sys_context" where
  "ContextImpl = \<lparr>ctx_createListenSocket = createListenSocket\<rparr>"

lemma ContextImpl_simps [simp]:
  "ls_accept ListenSocketImpl = listen_accept" "ls_destroy ListenSocketImpl = listen_close"
  "ctx_createListenSocket ContextImpl = createListenSocket"
  by (simp_all add: ListenSocketImpl_def ContextImpl_def)

section \<open>Running system calls\<close>

lemma syscall_Cons:
  "k_answers k = a # as \<Longrightarrow>
   syscall c k = (Inr a, k\<lparr>k_answers := as, k_trace := k_trace k @ [c]\<rparr>)"
  by (simp add: syscall_def)

lemma syscall_Nil: "k_answers k = [] \<Longrightarrow> syscall c k = (Inl Starved, k)"
  by (simp add: syscall_def)

lemma check_rc_simps [simp]:
  "check_rc h (Sys_Ok n) = retA n"
  "check_rc h (Sys_Fail e) = h e"
  by (simp_all add: check_rc_def)

text \<open>The retry loop swallows every error until the call succeeds, and does not end if it never
  does.\<close>

lemma retry_call_ok:
  "k_answers k = map Sys_Fail es @ Sys_Ok n # as \<Longrightarrow> length es < fuel \<Longrightarrow>
   retry_call fuel c k = (Inr n, k\<lparr>k_answers := as, k_trace := k_trace k @ replicate (Suc (length es)) c\<rparr>)"
proof (induction es arbitrary: k fuel)
  case Nil
  then show ?case by (cases fuel) (simp_all add: bindA_app syscall_Cons)
next
  case (Cons e es)
  then obtain f where f: "fuel = Suc f" "length es < f" by (cases fuel) auto
  with Cons.prems(1) Cons.IH [of "k\<lparr>k_answers := map Sys_Fail es @ Sys_Ok n # as, k_trace := k_trace k @ [c]\<rparr>" f]
  show ?case by (simp add: bindA_app syscall_Cons)
qed

lemma retry_call_starved:
  "k_answers k = map Sys_Fail es \<Longrightarrow>
   fst (retry_call fuel c k) = Inl Starved"
proof (induction fuel arbitrary: k es)
  case 0
  then show ?case by simp
next
  case (Suc fuel)
  then show ?case
    by (cases es) (simp_all add: bindA_app syscall_Cons syscall_Nil)
qed

lemma retry_ok:
  "k_answers k = map Sys_Fail es @ Sys_Ok n # as \<Longrightarrow>
   retry c k = (Inr n, k\<lparr>k_answers := as, k_trace := k_trace k @ replicate (Suc (length es)) c\<rparr>)"
  by (simp add: retry_def retry_call_ok del: retry_call.simps)

lemma setSocketFlags_ok:
  assumes "k_answers k = map Sys_Fail es @ Sys_Ok flags # map Sys_Fail es' @ Sys_Ok n # as"
  shows "setSocketFlags fd manipulate k =
    (Inr (), k\<lparr>k_answers := as, k_trace := k_trace k @ replicate (Suc (length es)) (Sys_Get_Flags fd)
      @ replicate (Suc (length es')) (Sys_Set_Flags fd (manipulate flags))\<rparr>)"
  using assms
  by (simp add: setSocketFlags_def bindA_app thenA_app retry_ok [OF assms] retry_ok [where es = es' and as = as and n = n])

section \<open>Properties\<close>

text \<open>Opening the listening socket, when the kernel agrees: exactly the calls \<^verbatim>\<open>socket\<close>,
  \<^verbatim>\<open>SO_REUSEADDR\<close>, reading and setting the flags (with \<^verbatim>\<open>O_NONBLOCK\<close> added), \<^verbatim>\<open>bind\<close> to the low 16
  bits of the port and \<^verbatim>\<open>listen\<close>, in this order; the result is the descriptor.\<close>

theorem createListenSocket_ok:
  assumes "k_answers k = [Sys_Ok fd, Sys_Ok a, Sys_Ok flags, Sys_Ok b, Sys_Ok c, Sys_Ok d] @ as"
  shows "createListenSocket port k = (Inr fd, k\<lparr>k_answers := as, k_trace := k_trace k @
    [Sys_Socket, Sys_Set_Option fd Opt_Reuse_Address, Sys_Get_Flags fd,
     Sys_Set_Flags fd (flags OR O_NONBLOCK), Sys_Bind fd (of_int port), Sys_Listen fd 5]\<rparr>)"
proof -
  let ?k1 = "k\<lparr>k_answers := [Sys_Ok flags, Sys_Ok b, Sys_Ok c, Sys_Ok d] @ as,
    k_trace := k_trace k @ [Sys_Socket, Sys_Set_Option fd Opt_Reuse_Address]\<rparr>"
  have "setSocketNonBlocking fd ?k1 = (Inr (), ?k1\<lparr>k_answers := [Sys_Ok c, Sys_Ok d] @ as,
      k_trace := k_trace ?k1 @ [Sys_Get_Flags fd, Sys_Set_Flags fd (flags OR O_NONBLOCK)]\<rparr>)"
    using setSocketFlags_ok [of ?k1 "[]" flags "[]" b "[Sys_Ok c, Sys_Ok d] @ as" fd "\<lambda>f. f OR O_NONBLOCK"]
    by (simp add: setSocketNonBlocking_def)
  with assms show ?thesis
    by (simp add: createListenSocket_def setSocketReuseAddress_def bindA_app thenA_app syscall_Cons
        BACKLOG_def)
qed

theorem createListenSocket_ok_witness:
  "fst (createListenSocket 65616 \<lparr>k_answers = map Sys_Ok [3, 0, 2, 0, 0, 0], k_trace = []\<rparr>) = Inr 3
   \<and> Sys_Bind 3 80 \<in> set (k_trace (snd (createListenSocket 65616
       \<lparr>k_answers = map Sys_Ok [3, 0, 2, 0, 0, 0], k_trace = []\<rparr>)))"
proof -
  let ?k = "\<lparr>k_answers = map Sys_Ok [3, 0, 2, 0, 0, 0], k_trace = []\<rparr>"
  have "k_answers ?k = [Sys_Ok 3, Sys_Ok 0, Sys_Ok 2, Sys_Ok 0, Sys_Ok 0, Sys_Ok 0] @ []" by simp
  from createListenSocket_ok [OF this, of 65616] show ?thesis by simp
qed

text \<open>A port that cannot be bound, or a socket that cannot listen: the descriptor is closed
  once and the error is thrown.\<close>

theorem createListenSocket_fails:
  assumes "k_answers k = [Sys_Ok fd, Sys_Ok a, Sys_Ok flags, Sys_Ok b] @ ends @ [Sys_Ok c] @ as"
    and "ends = [Sys_Fail e] \<or> ends = [Sys_Ok d, Sys_Fail e]"
  shows "fst (createListenSocket port k) = Inl (Throw (Errno_Error e))
    \<and> (\<exists>calls. k_trace (snd (createListenSocket port k)) = k_trace k @ calls @ [Sys_Close fd]
        \<and> Sys_Close fd \<notin> set calls)"
proof -
  let ?k1 = "k\<lparr>k_answers := [Sys_Ok flags, Sys_Ok b] @ ends @ [Sys_Ok c] @ as,
    k_trace := k_trace k @ [Sys_Socket, Sys_Set_Option fd Opt_Reuse_Address]\<rparr>"
  have flags: "setSocketNonBlocking fd ?k1 = (Inr (), ?k1\<lparr>k_answers := ends @ [Sys_Ok c] @ as,
      k_trace := k_trace ?k1 @ [Sys_Get_Flags fd, Sys_Set_Flags fd (flags OR O_NONBLOCK)]\<rparr>)"
    using setSocketFlags_ok [of ?k1 "[]" flags "[]" b "ends @ [Sys_Ok c] @ as" fd "\<lambda>f. f OR O_NONBLOCK"]
    by (simp add: setSocketNonBlocking_def)
  show ?thesis
    using assms(2)
  proof
    assume "ends = [Sys_Fail e]"
    with assms(1) flags show ?thesis
      by (simp add: createListenSocket_def setSocketReuseAddress_def bindA_app thenA_app syscall_Cons
          close_and_throw_def throw_errno_def)
  next
    assume "ends = [Sys_Ok d, Sys_Fail e]"
    with assms(1) flags show ?thesis
      by (simp add: createListenSocket_def setSocketReuseAddress_def bindA_app thenA_app syscall_Cons
          close_and_throw_def throw_errno_def)
  qed
qed

theorem createListenSocket_fails_witness:
  "fst (createListenSocket 80 \<lparr>k_answers = [Sys_Ok 3, Sys_Ok 0, Sys_Ok 2, Sys_Ok 0, Sys_Fail (E_OTHER 98), Sys_Ok 0],
     k_trace = []\<rparr>) = Inl (Throw (Errno_Error (E_OTHER 98)))"
proof -
  let ?k = "\<lparr>k_answers = [Sys_Ok 3, Sys_Ok 0, Sys_Ok 2, Sys_Ok 0, Sys_Fail (E_OTHER 98), Sys_Ok 0], k_trace = []\<rparr>"
  have "k_answers ?k = [Sys_Ok 3, Sys_Ok 0, Sys_Ok 2, Sys_Ok 0] @ [Sys_Fail (E_OTHER 98)] @ [Sys_Ok 0] @ []"
    by simp
  from createListenSocket_fails [OF this disjI1 [OF refl], of 80] show ?thesis by simp
qed

text \<open>\<^verbatim>\<open>setSocketFlags\<close> never reports an error: its exceptions are built and not thrown, so it
  retries whatever the error. If the call keeps failing, it has not returned after any number of
  attempts; if it succeeds after any errors, they are forgotten.\<close>

theorem setSocketFlags_never_throws:
  assumes "k_answers k = map Sys_Fail es @ Sys_Ok flags # map Sys_Fail es' @ as"
    and "as = [] \<or> (\<exists>n as'. as = Sys_Ok n # as')"
  shows "fst (setSocketFlags fd manipulate k) = (if as = [] then Inl Starved else Inr ())
    \<and> fst (setSocketFlags fd manipulate (k\<lparr>k_answers := map Sys_Fail es\<rparr>)) = Inl Starved"
proof -
  have "fst (retry (Sys_Get_Flags fd) (k\<lparr>k_answers := map Sys_Fail es\<rparr>)) = Inl Starved"
    unfolding retry_def by (rule retry_call_starved) simp
  then have never: "fst (setSocketFlags fd manipulate (k\<lparr>k_answers := map Sys_Fail es\<rparr>)) = Inl Starved"
    by (auto simp: setSocketFlags_def bindA_app split: prod.split sum.split)
  show ?thesis
  proof (cases as)
    case Nil
    let ?k1 = "k\<lparr>k_answers := map Sys_Fail es', k_trace := k_trace k @ replicate (Suc (length es)) (Sys_Get_Flags fd)\<rparr>"
    have "retry (Sys_Get_Flags fd) k = (Inr flags, ?k1)"
      using assms(1) Nil by (subst retry_ok) auto
    moreover have "fst (retry (Sys_Set_Flags fd (manipulate flags)) ?k1) = Inl Starved"
      unfolding retry_def by (rule retry_call_starved) simp
    ultimately have "fst (setSocketFlags fd manipulate k) = Inl Starved"
      by (auto simp: setSocketFlags_def bindA_app thenA_app split: prod.split sum.split)
    with never Nil show ?thesis by simp
  next
    case (Cons a as')
    with assms obtain n where "k_answers k = map Sys_Fail es @ Sys_Ok flags # map Sys_Fail es' @ Sys_Ok n # as'"
      by auto
    from setSocketFlags_ok [OF this] never Cons show ?thesis by simp
  qed
qed

theorem setSocketFlags_never_throws_witness:
  "fst (setSocketFlags 3 id \<lparr>k_answers = [Sys_Fail (E_OTHER 9), Sys_Ok 2, Sys_Fail (E_OTHER 9)], k_trace = []\<rparr>) =
   Inl Starved"
proof -
  let ?k = "\<lparr>k_answers = [Sys_Fail (E_OTHER 9), Sys_Ok 2, Sys_Fail (E_OTHER 9)], k_trace = []\<rparr>"
  have "k_answers ?k = map Sys_Fail [E_OTHER 9] @ Sys_Ok 2 # map Sys_Fail [E_OTHER 9] @ []" by simp
  from setSocketFlags_never_throws [OF this, of 3 id] show ?thesis by simp
qed

end
