(* ===== verification/Tcp_Server.thy ===== *)
theory Tcp_Server
  imports Posix_Listen "HOL-Library.Multiset"
begin

text \<open>
  \<^verbatim>\<open>Server::serve\<close> and \<^verbatim>\<open>cleanup\<close> of \<^verbatim>\<open>src/tcp/socks_tcp.cpp\<close>, with \<^verbatim>\<open>ServerOptions\<close> and what
  the server's thread does with a \<^verbatim>\<open>ClientWorker\<close>: create it (which starts its thread), ask
  \<^verbatim>\<open>isActive\<close>, \<^verbatim>\<open>finish\<close> it (join its thread).

  The workers run beside the server, which sees of them only \<^verbatim>\<open>_isActive\<close>. So a thread is its number
  here, and the environment says between two iterations which threads have come to their end
  (\<open>tk_ended\<close>) and which signal has come (\<open>tk_signal\<close>). \<^verbatim>\<open>join\<close> waits for a thread's end; a thread
  that does not end once the quit condition holds (\<open>sv_ends\<close>) makes it wait forever, \<open>Starved\<close>. The
  list of ticks bounds the loop: a loop that has seen all of it is \<open>Starved\<close>.
\<close>

section \<open>The code\<close>

record tcp_options =
  serverPort :: int
  maxClients :: nat

definition ServerOptions :: tcp_options where
  "ServerOptions = \<lparr>serverPort = 5555, maxClients = 2\<rparr>"

record 'h client_worker =
  cw_thr :: nat
  cw_socket :: int
  cw_handler :: 'h

record 'h server =
  sv_kernel :: kernel
  sv_signalStatus :: int
  sv_workers :: "'h client_worker list"
  sv_active :: "nat set"      \<comment> \<open>the threads whose worker has \<^verbatim>\<open>_isActive\<close>\<close>
  sv_ends :: "nat \<Rightarrow> bool"
  sv_started :: nat           \<comment> \<open>how many threads have been started\<close>
  sv_joined :: "nat list"

record tick =
  tk_signal :: "int option"
  tk_ended :: "nat list"

definition on_kernel :: "(kernel, 'a) act \<Rightarrow> ('h server, 'a) act" where
  "on_kernel m = (\<lambda>s. case m (sv_kernel s) of (r, k) \<Rightarrow> (r, s\<lparr>sv_kernel := k\<rparr>))"

definition apply_tick :: "tick \<Rightarrow> 'h server \<Rightarrow> 'h server" where
  "apply_tick t s =
     s\<lparr>sv_signalStatus := (case tk_signal t of None \<Rightarrow> sv_signalStatus s | Some n \<Rightarrow> n),
       sv_active := sv_active s - set (tk_ended t)\<rparr>"

definition worker_finish :: "'h client_worker \<Rightarrow> ('h server, unit) act" where
  "worker_finish w s =
     (if cw_thr w \<in> sv_active s \<and> \<not> sv_ends s (cw_thr w) then (Inl Starved, s)
      else (Inr (), s\<lparr>sv_active := sv_active s - {cw_thr w}, sv_joined := sv_joined s @ [cw_thr w]\<rparr>))"

definition worker_isActive :: "'h client_worker \<Rightarrow> 'h server \<Rightarrow> bool" where
  "worker_isActive w s \<longleftrightarrow> cw_thr w \<in> sv_active s"

text \<open>\<^verbatim>\<open>remove_if\<close> visits the workers in order; it returns those that stay.\<close>

fun cleanup_loop :: "'h client_worker list \<Rightarrow> ('h server, 'h client_worker list) act" where
  "cleanup_loop [] = retA []"
| "cleanup_loop (w # ws) =
     bindA (getA (worker_isActive w)) (\<lambda>active.
     if active then bindA (cleanup_loop ws) (\<lambda>ws'. retA (w # ws'))
     else thenA (worker_finish w) (cleanup_loop ws))"

definition cleanup :: "('h server, unit) act" where
  "cleanup =
     bindA (getA sv_workers) (\<lambda>ws.
     bindA (cleanup_loop ws) (\<lambda>ws'. modA (\<lambda>s. s\<lparr>sv_workers := ws'\<rparr>)))"

definition emplace_worker :: "int \<Rightarrow> 'h \<Rightarrow> ('h server, unit) act" where
  "emplace_worker fd handler =
     modA (\<lambda>s. s\<lparr>sv_workers := sv_workers s @ [\<lparr>cw_thr = sv_started s, cw_socket = fd, cw_handler = handler\<rparr>],
       sv_active := insert (sv_started s) (sv_active s), sv_started := Suc (sv_started s)\<rparr>)"

definition bye :: "byte list" where "bye = bytes_of (''No more connections allowed.'' @ [LF])"

text \<open>What follows a successful \<^verbatim>\<open>accept\<close>. The parameter is \<^verbatim>\<open>createServerHandler\<close>.\<close>

definition serve_client :: "(int \<Rightarrow> 'h) \<Rightarrow> tcp_options \<Rightarrow> int \<Rightarrow> ('h server, unit) act" where
  "serve_client createServerHandler options fd =
     thenA cleanup
    (bindA (getA (\<lambda>s. length (sv_workers s))) (\<lambda>n.
     if n < maxClients options then emplace_worker fd (createServerHandler fd)
     else thenA (on_kernel (client_write fd bye)) (retA ())))"

fun serve_loop :: "(int \<Rightarrow> 'h) \<Rightarrow> tcp_options \<Rightarrow> int \<Rightarrow> tick list \<Rightarrow> ('h server, unit) act" where
  "serve_loop createServerHandler options fd [] = failA Starved"
| "serve_loop createServerHandler options fd (t # ts) =
     thenA (modA (apply_tick t))
    (bindA (getA sv_signalStatus) (\<lambda>signalStatus.
     if signalStatus \<noteq> NO_SIGNAL then retA ()
     else bindA (on_kernel (ls_accept ListenSocketImpl fd)) (\<lambda>clientSocket.
          case clientSocket of
            None \<Rightarrow> serve_loop createServerHandler options fd ts
          | Some client_fd \<Rightarrow>
              thenA (serve_client createServerHandler options client_fd)
                (serve_loop createServerHandler options fd ts))))"

fun finish_all :: "'h client_worker list \<Rightarrow> ('h server, unit) act" where
  "finish_all [] = retA ()"
| "finish_all (w # ws) = thenA (worker_finish w) (finish_all ws)"

definition finish_workers :: "('h server, unit) act" where
  "finish_workers s = finish_all (sv_workers s) s"

text \<open>Leaving \<^verbatim>\<open>serve\<close>. The listening socket is destroyed first, then the list of workers. After the
  loop all of them have been joined; when an exception passes, they have not, and the destructor of a
  joinable \<^verbatim>\<open>std::thread\<close> calls \<^verbatim>\<open>std::terminate\<close>.\<close>

definition unwind :: "int \<Rightarrow> exn \<Rightarrow> ('h server, unit) act" where
  "unwind fd e =
     thenA (on_kernel (ls_destroy ListenSocketImpl fd))
    (bindA (getA sv_workers) (\<lambda>ws. failA (if ws = [] then Throw e else Terminate)))"

definition serve :: "(int \<Rightarrow> 'h) \<Rightarrow> tcp_options \<Rightarrow> tick list \<Rightarrow> ('h server, unit) act" where
  "serve createServerHandler options ts =
     bindA (on_kernel (ctx_createListenSocket ContextImpl (serverPort options))) (\<lambda>fd.
     thenA (tryA (thenA (serve_loop createServerHandler options fd ts) finish_workers)
              (unwind fd))
       (on_kernel (ls_destroy ListenSocketImpl fd)))"

definition server_start :: "sys_answer list \<Rightarrow> (nat \<Rightarrow> bool) \<Rightarrow> 'h server" where
  "server_start as ends =
     \<lparr>sv_kernel = \<lparr>k_answers = as, k_trace = []\<rparr>, sv_signalStatus = 0, sv_workers = [], sv_active = {},
      sv_ends = ends, sv_started = 0, sv_joined = []\<rparr>"

section \<open>The invariant\<close>

text \<open>Every thread that has been started is held by exactly one worker or has been joined, exactly
  once, and only active threads' workers have not been joined.\<close>

definition threads :: "'h server \<Rightarrow> nat multiset" where
  "threads s = mset (map cw_thr (sv_workers s)) + mset (sv_joined s)"

definition server_ok :: "tcp_options \<Rightarrow> 'h server \<Rightarrow> bool" where
  "server_ok options s \<longleftrightarrow>
     length (sv_workers s) \<le> maxClients options \<and> threads s = mset [0..<sv_started s]"

lemma server_ok_start: "server_ok options (server_start as ends)"
  by (simp add: server_ok_def server_start_def threads_def)

lemma server_ok_kernel [simp]: "server_ok options (s\<lparr>sv_kernel := k\<rparr>) = server_ok options s"
  by (simp add: server_ok_def threads_def)

lemma server_ok_tick [simp]: "server_ok options (apply_tick t s) = server_ok options s"
  by (simp add: server_ok_def threads_def apply_tick_def)

text \<open>\<^verbatim>\<open>cleanup\<close> keeps the active workers, in order, and joins the others.\<close>

lemma worker_finish_inactive:
  "\<not> worker_isActive w s \<Longrightarrow> worker_finish w s = (Inr (), s\<lparr>sv_joined := sv_joined s @ [cw_thr w]\<rparr>)"
  by (simp add: worker_finish_def worker_isActive_def)

lemma cleanup_loop_run:
  "cleanup_loop ws s = (Inr (filter (\<lambda>w. worker_isActive w s) ws),
     s\<lparr>sv_joined := sv_joined s @ map cw_thr (filter (\<lambda>w. \<not> worker_isActive w s) ws)\<rparr>)"
proof (induction ws arbitrary: s)
  case Nil
  then show ?case by simp
next
  case (Cons w ws)
  have act: "worker_isActive w' (s\<lparr>sv_joined := j\<rparr>) = worker_isActive w' s" for w' j
    by (simp add: worker_isActive_def)
  show ?case
    using Cons.IH [of s] Cons.IH [of "s\<lparr>sv_joined := sv_joined s @ [cw_thr w]\<rparr>"]
    by (cases "worker_isActive w s") (simp_all add: bindA_app thenA_app worker_finish_inactive act)
qed

lemma cleanup_run:
  "cleanup s = (Inr (), s\<lparr>sv_workers := filter (\<lambda>w. worker_isActive w s) (sv_workers s),
     sv_joined := sv_joined s @ map cw_thr (filter (\<lambda>w. \<not> worker_isActive w s) (sv_workers s))\<rparr>)"
  by (simp add: cleanup_def bindA_app cleanup_loop_run)

lemma threads_cleanup: "threads (snd (cleanup s)) = threads s"
proof -
  let ?a = "\<lambda>w. worker_isActive w s"
  have "mset (map cw_thr (filter ?a ws)) + mset (map cw_thr (filter (\<lambda>w. \<not> ?a w) ws)) = mset (map cw_thr ws)" for ws
    by (induction ws) simp_all
  then show ?thesis
    by (simp add: cleanup_run threads_def add.commute add.left_commute)
qed

lemma cleanup_ok: "server_ok options s \<Longrightarrow> server_ok options (snd (cleanup s))"
proof -
  assume ok: "server_ok options s"
  have "length (sv_workers (snd (cleanup s))) \<le> length (sv_workers s)"
    by (simp add: cleanup_run)
  moreover have "sv_started (snd (cleanup s)) = sv_started s"
    by (simp add: cleanup_run)
  ultimately show ?thesis
    using ok threads_cleanup [of s] by (simp add: server_ok_def)
qed

lemma emplace_ok:
  assumes "server_ok options s" and "length (sv_workers s) < maxClients options"
  shows "server_ok options (snd (emplace_worker fd h s))"
  using assms by (simp add: server_ok_def emplace_worker_def threads_def)

text \<open>What every part of the loop keeps, the loop keeps.\<close>

locale server_invariant =
  fixes P :: "'h server \<Rightarrow> bool"
    and fac :: "int \<Rightarrow> 'h"
    and options :: tcp_options
  assumes kernel: "P s \<Longrightarrow> P (s\<lparr>sv_kernel := k\<rparr>)"
    and tick: "P s \<Longrightarrow> P (apply_tick t s)"
    and cleaned: "P s \<Longrightarrow> P (snd (cleanup s))"
    and emplaced: "P s \<Longrightarrow> length (sv_workers s) < maxClients options \<Longrightarrow>
      P (snd (emplace_worker fd (fac fd) s))"
begin

lemma on_kernel_keeps: "keeps P (on_kernel m)"
  by (auto simp: keeps_def on_kernel_def kernel split: prod.split)

lemma serve_client_keeps: "keeps P (serve_client fac options fd)"
proof (rule keepsI)
  fix s :: "'h server"
  assume P: "P s"
  obtain s' where run: "cleanup s = (Inr (), s')" by (simp add: cleanup_run)
  with cleaned [OF P] have P': "P s'" by simp
  have bye: "keeps P (thenA (on_kernel (client_write fd bye)) (retA ()))"
    by (intro keeps_thenA on_kernel_keeps keeps_retA)
  show "P (snd (serve_client fac options fd s))"
  proof (cases "length (sv_workers s') < maxClients options")
    case True
    with run emplaced [OF P' this] show ?thesis
      by (simp add: serve_client_def thenA_app)
  next
    case False
    with run keeps_snd [OF bye P'] show ?thesis
      by (simp add: serve_client_def thenA_app [of cleanup])
  qed
qed

lemma serve_loop_keeps: "keeps P (serve_loop fac options fd ts)"
proof (induction ts)
  case Nil
  then show ?case by (simp add: keeps_def)
next
  case (Cons t ts)
  have "keeps P (modA (apply_tick t))"
    by (rule keeps_modA) (rule tick)
  moreover have "keeps P (case c of None \<Rightarrow> serve_loop fac options fd ts
      | Some client_fd \<Rightarrow> thenA (serve_client fac options client_fd) (serve_loop fac options fd ts))" for c
    by (cases c) (simp_all add: keeps_thenA serve_client_keeps Cons.IH)
  ultimately show ?case
    unfolding serve_loop.simps
    by (intro keeps_thenA keeps_bindA keeps_if keeps_getA keeps_retA on_kernel_keeps)
qed

lemma serve_loop_inv: "P s \<Longrightarrow> serve_loop fac options fd ts s = (r, s') \<Longrightarrow> P s'"
  by (rule keepsD [OF serve_loop_keeps])

end

interpretation bounded: server_invariant "server_ok options" fac options for fac options
  by unfold_locales (simp_all add: cleanup_ok emplace_ok)

text \<open>Every worker holds the handler that was made for its socket.\<close>

definition handlers_made :: "(int \<Rightarrow> 'h) \<Rightarrow> 'h server \<Rightarrow> bool" where
  "handlers_made fac s \<longleftrightarrow> (\<forall>w \<in> set (sv_workers s). cw_handler w = fac (cw_socket w))"

interpretation made: server_invariant "handlers_made fac" fac options for fac options
  by unfold_locales (auto simp: handlers_made_def apply_tick_def cleanup_run emplace_worker_def)

section \<open>Leaving the server\<close>

lemma finish_all_Inr:
  "finish_all ws s = (Inr (), s') \<Longrightarrow>
   sv_joined s' = sv_joined s @ map cw_thr ws \<and> sv_started s' = sv_started s
   \<and> sv_workers s' = sv_workers s \<and> sv_kernel s' = sv_kernel s"
proof (induction ws arbitrary: s)
  case Nil
  then show ?case by simp
next
  case (Cons w ws)
  then obtain s1 where "worker_finish w s = (Inr (), s1)" "finish_all ws s1 = (Inr (), s')"
    by (auto simp: thenA_eq_Inr)
  with Cons.IH show ?case
    by (fastforce simp: worker_finish_def split: if_splits)
qed

lemma finish_all_ends:
  assumes "\<forall>w \<in> set ws. sv_ends s (cw_thr w)"
  shows "\<exists>s'. finish_all ws s = (Inr (), s')"
  using assms
proof (induction ws arbitrary: s)
  case Nil
  then show ?case by simp
next
  case (Cons w ws)
  then show ?case
    by (simp add: thenA_app worker_finish_def)
qed

lemma serve_loop_idle:
  "sv_signalStatus s = 0 \<Longrightarrow> k_answers (sv_kernel s) = Sys_Ok z # as \<Longrightarrow>
   serve_loop fac options fd (\<lparr>tk_signal = None, tk_ended = []\<rparr> # ts) s =
   serve_loop fac options fd ts (s\<lparr>sv_kernel := \<lparr>k_answers = as, k_trace = k_trace (sv_kernel s) @ [Sys_Poll fd POLLIN]\<rparr>\<rparr>)"
  by (cases "sv_kernel s"; cases s)
    (simp add: thenA_app bindA_app apply_tick_def NO_SIGNAL_def on_kernel_def listen_accept_def SocketImpl_new_def
      listen_poll_def syscall_def)

lemma serve_loop_signal:
  "n \<noteq> 0 \<Longrightarrow> serve_loop fac options fd (\<lparr>tk_signal = Some n, tk_ended = e\<rparr> # ts) s =
   (Inr (), apply_tick \<lparr>tk_signal = Some n, tk_ended = e\<rparr> s)"
  by (simp add: thenA_app bindA_app apply_tick_def NO_SIGNAL_def)

section \<open>Properties\<close>

text \<open>At no time does the server hold more than \<^verbatim>\<open>maxClients\<close> workers, and no thread is lost or
  joined twice: the threads started so far are those of the workers in the list and those that have
  been joined, each once. This holds after any number of iterations, whatever the kernel and the
  workers do, also when an exception is passing.\<close>

theorem server_workers_bounded:
  assumes "serve_loop fac options fd ts (server_start as ends) = (r, s)"
  shows "length (sv_workers s) \<le> maxClients options
    \<and> mset (map cw_thr (sv_workers s)) + mset (sv_joined s) = mset [0..<sv_started s]"
  using bounded.serve_loop_inv [OF server_ok_start assms] by (simp add: server_ok_def threads_def)

theorem server_workers_bounded_witness:
  "\<exists>s. serve_loop (\<lambda>fd. ()) \<lparr>serverPort = 5555, maxClients = 1\<rparr> 3
      [\<lparr>tk_signal = None, tk_ended = []\<rparr>, \<lparr>tk_signal = Some 15, tk_ended = []\<rparr>]
      (server_start [Sys_Revents 1, Sys_Ok 7, Sys_Ok 0] (\<lambda>_. True)) = (Inr (), s)
    \<and> mset (map cw_thr (sv_workers s)) + mset (sv_joined s) = {#0#}"
proof -
  let ?o = "\<lparr>serverPort = 5555, maxClients = 1\<rparr>"
  let ?ts = "[\<lparr>tk_signal = None, tk_ended = []\<rparr>, \<lparr>tk_signal = Some 15, tk_ended = []\<rparr>]"
  let ?s = "server_start [Sys_Revents 1, Sys_Ok 7, Sys_Ok 0] (\<lambda>_. True) :: unit server"
  obtain s where run: "serve_loop (\<lambda>fd. ()) ?o 3 ?ts ?s = (Inr (), s)" and n: "sv_started s = 1"
    by (simp add: thenA_app bindA_app apply_tick_def NO_SIGNAL_def on_kernel_def listen_accept_def SocketImpl_new_def
        listen_poll_def syscall_def server_start_def serve_client_def cleanup_run emplace_worker_def
        POLLIN_def setTcpNoDelay_def)
  from server_workers_bounded [OF run] run n show ?thesis by auto
qed

text \<open>C19. When \<^verbatim>\<open>serve\<close> returns, every worker thread it started has been joined exactly once.\<close>

theorem serve_joins_every_worker:
  assumes "serve fac options ts (server_start as ends) = (Inr (), s)"
  shows "mset (sv_joined s) = mset [0..<sv_started s]"
proof -
  obtain fd s1 where open_socket: "on_kernel (createListenSocket (serverPort options)) (server_start as ends) = (Inr fd, s1)"
    and rest: "thenA (tryA (thenA (serve_loop fac options fd ts) finish_workers) (unwind fd))
      (on_kernel (listen_close fd)) s1 = (Inr (), s)"
    using assms by (auto simp: serve_def bindA_eq_Inr)
  have ok1: "server_ok options s1" and joined1: "sv_joined s1 = []"
    using keepsD [OF bounded.on_kernel_keeps server_ok_start open_socket] open_socket
    by (auto simp: on_kernel_def server_start_def split: prod.splits)
  obtain s3 where body: "tryA (thenA (serve_loop fac options fd ts) finish_workers) (unwind fd) s1 = (Inr (), s3)"
    and close: "on_kernel (listen_close fd) s3 = (Inr (), s)"
    using rest by (auto simp: thenA_eq_Inr)
  have no_return: "fst (unwind fd e s2) \<noteq> Inr ()" for e s2
    by (auto simp: unwind_def thenA_app on_kernel_def split: prod.split sum.split)
  obtain r s2' where run: "thenA (serve_loop fac options fd ts) finish_workers s1 = (r, s2')"
    by (metis surj_pair)
  have "r = Inr () \<and> s2' = s3"
  proof (cases r)
    case (Inl e)
    have "unwind fd exc s2' \<noteq> (Inr (), s3)" for exc
      using no_return [of exc s2'] by auto
    with Inl show ?thesis
      using body run by (cases e) (auto simp: tryA_def)
  next
    case (Inr u)
    then show ?thesis using body run by (simp add: tryA_def)
  qed
  then obtain s2 where loop: "serve_loop fac options fd ts s1 = (Inr (), s2)"
    and finish: "finish_all (sv_workers s2) s2 = (Inr (), s3)"
    using run by (auto simp: thenA_eq_Inr finish_workers_def)
  have "server_ok options s2" using bounded.serve_loop_inv [OF ok1 loop] .
  with finish_all_Inr [OF finish] close show ?thesis
    by (auto simp: server_ok_def threads_def on_kernel_def add.commute split: prod.splits)
qed

theorem serve_joins_every_worker_witness:
  "\<exists>s. serve (\<lambda>fd. ()) ServerOptions [\<lparr>tk_signal = None, tk_ended = []\<rparr>, \<lparr>tk_signal = Some 15, tk_ended = []\<rparr>]
      (server_start ([Sys_Ok 3, Sys_Ok 0, Sys_Ok 2, Sys_Ok 0, Sys_Ok 0, Sys_Ok 0]
        @ [Sys_Revents 1, Sys_Ok 7, Sys_Ok 0, Sys_Ok 0]) (\<lambda>_. True)) = (Inr (), s)
    \<and> mset (sv_joined s) = {#0#}"
proof -
  let ?ts = "[\<lparr>tk_signal = None, tk_ended = []\<rparr>, \<lparr>tk_signal = Some 15, tk_ended = []\<rparr>]"
  let ?as = "[Sys_Ok 3, Sys_Ok 0, Sys_Ok 2, Sys_Ok 0, Sys_Ok 0, Sys_Ok 0] @ [Sys_Revents 1, Sys_Ok 7, Sys_Ok 0, Sys_Ok 0]"
  let ?s = "server_start ?as (\<lambda>_. True) :: unit server"
  obtain s where run: "serve (\<lambda>fd. ()) ServerOptions ?ts ?s = (Inr (), s)" and n: "sv_started s = 1"
    by (simp add: serve_def ServerOptions_def thenA_app bindA_app apply_tick_def NO_SIGNAL_def on_kernel_def
        listen_accept_def SocketImpl_new_def listen_poll_def syscall_def server_start_def serve_client_def cleanup_run
        emplace_worker_def POLLIN_def setTcpNoDelay_def createListenSocket_def setSocketReuseAddress_def
        setSocketNonBlocking_def setSocketFlags_def retry_def tryA_def worker_finish_def listen_close_def finish_workers_def)
  from serve_joins_every_worker [OF run] run n show ?thesis by auto
qed

text \<open>Shutting down with clients connected: after a signal the loop ends at its next check, and
  every worker is joined, in the order of the list, provided each thread ends (which it does, see
  the worker).\<close>

theorem serve_shutdown:
  assumes "ticks = replicate n \<lparr>tk_signal = None, tk_ended = []\<rparr> @ \<lparr>tk_signal = Some sig, tk_ended = e\<rparr> # ts"
    and "sig \<noteq> 0" and "sv_signalStatus s = 0" and "k_answers (sv_kernel s) = replicate n (Sys_Ok 0) @ as"
    and "\<forall>w \<in> set (sv_workers s). sv_ends s (cw_thr w)"
  shows "\<exists>s'. thenA (serve_loop fac options fd ticks) finish_workers s = (Inr (), s')
    \<and> sv_joined s' = sv_joined s @ map cw_thr (sv_workers s)"
  using assms(1,3-5)
proof (induction n arbitrary: s ticks)
  case 0
  let ?s = "apply_tick \<lparr>tk_signal = Some sig, tk_ended = e\<rparr> s"
  have "\<forall>w \<in> set (sv_workers ?s). sv_ends ?s (cw_thr w)"
    using 0 by (simp add: apply_tick_def)
  from finish_all_ends [OF this] obtain s' where fin: "finish_all (sv_workers ?s) ?s = (Inr (), s')" ..
  from finish_all_Inr [OF fin] fin 0 assms(2) show ?case
    by (simp add: thenA_app serve_loop_signal finish_workers_def del: serve_loop.simps)
      (simp add: apply_tick_def)
next
  case (Suc n)
  let ?s = "s\<lparr>sv_kernel := \<lparr>k_answers = replicate n (Sys_Ok 0) @ as, k_trace = k_trace (sv_kernel s) @ [Sys_Poll fd POLLIN]\<rparr>\<rparr>"
  have "thenA (serve_loop fac options fd ticks) finish_workers s =
      thenA (serve_loop fac options fd (replicate n \<lparr>tk_signal = None, tk_ended = []\<rparr> @ \<lparr>tk_signal = Some sig, tk_ended = e\<rparr> # ts))
        finish_workers ?s"
    using Suc.prems serve_loop_idle [of s 0 "replicate n (Sys_Ok 0) @ as" fac options fd]
    by (simp add: thenA_app del: serve_loop.simps)
  with Suc.IH [OF refl, of ?s] Suc.prems show ?case
    by (simp del: serve_loop.simps)
qed

theorem serve_shutdown_witness:
  "\<exists>s'. thenA (serve_loop (\<lambda>_. ()) ServerOptions 3 [\<lparr>tk_signal = None, tk_ended = []\<rparr>, \<lparr>tk_signal = Some 2, tk_ended = []\<rparr>])
      finish_workers
      \<lparr>sv_kernel = \<lparr>k_answers = [Sys_Ok 0], k_trace = []\<rparr>, sv_signalStatus = 0,
       sv_workers = [\<lparr>cw_thr = 4, cw_socket = 7, cw_handler = ()\<rparr>], sv_active = {4}, sv_ends = \<lambda>_. True,
       sv_started = 5, sv_joined = [0, 1, 3, 2]\<rparr> = (Inr (), s')
    \<and> sv_joined s' = [0, 1, 3, 2, 4]"
  using serve_shutdown [of "[\<lparr>tk_signal = None, tk_ended = []\<rparr>, \<lparr>tk_signal = Some 2, tk_ended = []\<rparr>]" 1 2 "[]" "[]"
      "\<lparr>sv_kernel = \<lparr>k_answers = [Sys_Ok 0], k_trace = []\<rparr>, sv_signalStatus = 0,
       sv_workers = [\<lparr>cw_thr = 4, cw_socket = 7, cw_handler = ()\<rparr>], sv_active = {4}, sv_ends = \<lambda>_. True,
       sv_started = 5, sv_joined = [0, 1, 3, 2]\<rparr>" "[]" "\<lambda>_. ()" ServerOptions 3]
  by (simp del: serve_loop.simps)





end
