(* ===== verification/Http_Server.thy ===== *)
theory Http_Server
  imports Http_Sessions Tcp_Server
begin

text \<open>
  \<^verbatim>\<open>Http::Server::serve\<close> of \<^verbatim>\<open>src/http/socks_http.cpp\<close> with its options, and the \<^verbatim>\<open>main\<close>
  functions of the examples: the TCP server with \<^verbatim>\<open>TcpServerHandlerFactory\<close>, whose handlers are
  the machines of \<^verbatim>\<open>Http_States\<close>.
\<close>

section \<open>The code\<close>

record http_options =
  ho_port :: int
  ho_maxClients :: nat

definition HttpServerOptions :: http_options where
  "HttpServerOptions = \<lparr>ho_port = 8080, ho_maxClients = 2\<rparr>"

text \<open>\<^verbatim>\<open>TcpServerHandlerFactory::createServerHandler\<close>: a new machine for every socket; the handler
  factories it passes on are in \<open>http_server\<close>, with which the machine runs.\<close>

definition createServerHandler :: "int \<Rightarrow> 'u http_fsm" where
  "createServerHandler socket = http_fsm_new"

definition http_serve :: "http_options \<Rightarrow> tick list \<Rightarrow> ('u http_fsm server, unit) act" where
  "http_serve options ts =
     (let tcpOptions = \<lparr>serverPort = ho_port options, maxClients = ho_maxClients options\<rparr>
      in serve createServerHandler tcpOptions ts)"

text \<open>A \<^verbatim>\<open>main\<close>: the exit code and what is logged.\<close>

definition EXIT_SUCCESS :: int where "EXIT_SUCCESS = 0"
definition EXIT_FAILURE :: int where "EXIT_FAILURE = 1"

definition server_main :: "('h server, unit) act \<Rightarrow> ('h server, int \<times> log_line list) act" where
  "server_main run =
     tryA (thenA run (retA (EXIT_SUCCESS, []))) (\<lambda>exc. retA (EXIT_FAILURE, [Log_Error exc]))"

section \<open>Starting up\<close>

lemma createListenSocket_bind_fails:
  assumes "k_answers k = [Sys_Ok fd, Sys_Ok a, Sys_Ok flags, Sys_Ok b, Sys_Fail e, Sys_Ok c] @ as"
  shows "fst (createListenSocket port k) = Inl (Throw (Errno_Error e))"
proof -
  let ?k1 = "k\<lparr>k_answers := [Sys_Ok flags, Sys_Ok b, Sys_Fail e, Sys_Ok c] @ as,
    k_trace := k_trace k @ [Sys_Socket, Sys_Set_Option fd Opt_Reuse_Address]\<rparr>"
  have "setSocketNonBlocking fd ?k1 = (Inr (), ?k1\<lparr>k_answers := [Sys_Fail e, Sys_Ok c] @ as,
      k_trace := k_trace ?k1 @ [Sys_Get_Flags fd, Sys_Set_Flags fd (flags OR O_NONBLOCK)]\<rparr>)"
    using setSocketFlags_ok [of ?k1 "[]" flags "[]" b "[Sys_Fail e, Sys_Ok c] @ as" fd "\<lambda>f. f OR O_NONBLOCK"]
    by (simp add: setSocketNonBlocking_def)
  with assms show ?thesis
    by (simp add: createListenSocket_def setSocketReuseAddress_def bindA_app thenA_app syscall_Cons
        close_and_throw_def throw_errno_def)
qed

section \<open>Properties\<close>

text \<open>An HTTP server holds at most its \<^verbatim>\<open>maxClients\<close> connections (two, by default), and the
  handler of every worker it holds was made for its socket and is in the initial state, from which
  the worker's thread runs it.\<close>

theorem http_serve_workers:
  assumes "serve_loop createServerHandler \<lparr>serverPort = ho_port options, maxClients = ho_maxClients options\<rparr>
      fd ts (server_start as ends) = (r, s)"
    and "w \<in> set (sv_workers s)"
  shows "length (sv_workers s) \<le> ho_maxClients options
    \<and> worker_start (cw_handler w) i = worker_start http_fsm_new i"
proof -
  have "handlers_made createServerHandler (server_start as ends :: 'a http_fsm server)"
    by (simp add: handlers_made_def server_start_def)
  from made.serve_loop_inv [OF this assms(1)] bounded.serve_loop_inv [OF server_ok_start assms(1)] assms(2)
  show ?thesis
    by (auto simp: handlers_made_def server_ok_def createServerHandler_def)
qed

theorem http_serve_workers_witness:
  "\<exists>s w. serve_loop createServerHandler \<lparr>serverPort = 8080, maxClients = 2\<rparr> 3
      [\<lparr>tk_signal = None, tk_ended = []\<rparr>, \<lparr>tk_signal = Some 15, tk_ended = []\<rparr>]
      (server_start [Sys_Revents 1, Sys_Ok 7, Sys_Ok 0] (\<lambda>_. True)) = (Inr (), s)
    \<and> w \<in> set (sv_workers s) \<and> worker_start (cw_handler w) idle_io = worker_start (http_fsm_new :: unit http_fsm) idle_io"
proof -
  let ?ts = "[\<lparr>tk_signal = None, tk_ended = []\<rparr>, \<lparr>tk_signal = Some 15, tk_ended = []\<rparr>]"
  let ?o = "\<lparr>serverPort = ho_port HttpServerOptions, maxClients = ho_maxClients HttpServerOptions\<rparr>"
  let ?s = "server_start [Sys_Revents 1, Sys_Ok 7, Sys_Ok 0] (\<lambda>_. True) :: unit http_fsm server"
  obtain s w where run: "serve_loop createServerHandler ?o 3 ?ts ?s = (Inr (), s)" and w: "w \<in> set (sv_workers s)"
    by (simp add: thenA_app bindA_app apply_tick_def NO_SIGNAL_def on_kernel_def listen_accept_def SocketImpl_new_def
        listen_poll_def syscall_def server_start_def serve_client_def cleanup_run emplace_worker_def
        POLLIN_def setTcpNoDelay_def HttpServerOptions_def)
  from http_serve_workers [OF run w, of idle_io] run w show ?thesis
    by (simp add: HttpServerOptions_def del: serve_loop.simps) blast
qed

text \<open>An HTTP server whose port is taken: \<^verbatim>\<open>main\<close> logs the error of \<^verbatim>\<open>bind\<close> and exits with
  \<^verbatim>\<open>EXIT_FAILURE\<close>.\<close>

theorem http_main_port_taken:
  assumes "as = [Sys_Ok fd, Sys_Ok a, Sys_Ok flags, Sys_Ok b, Sys_Fail e, Sys_Ok c] @ as'"
  shows "fst (server_main (http_serve options ts) (server_start as ends)) =
    Inr (EXIT_FAILURE, [Log_Error (Errno_Error e)])"
proof -
  have "fst (createListenSocket (ho_port options) \<lparr>k_answers = as, k_trace = []\<rparr>) = Inl (Throw (Errno_Error e))"
    using assms by (intro createListenSocket_bind_fails) simp
  then obtain k where "createListenSocket (ho_port options) \<lparr>k_answers = as, k_trace = []\<rparr> = (Inl (Throw (Errno_Error e)), k)"
    by (metis prod.collapse)
  then show ?thesis
    by (simp add: server_main_def http_serve_def serve_def server_start_def on_kernel_def bindA_app
        thenA_app tryA_def)
qed

theorem http_main_port_taken_witness:
  "fst (server_main (http_serve HttpServerOptions [])
      (server_start [Sys_Ok 3, Sys_Ok 0, Sys_Ok 2, Sys_Ok 0, Sys_Fail (E_OTHER 98), Sys_Ok 0] (\<lambda>_. True))) =
    Inr (1, [Log_Error (Errno_Error (E_OTHER 98))])"
  using http_main_port_taken [of "[Sys_Ok 3, Sys_Ok 0, Sys_Ok 2, Sys_Ok 0, Sys_Fail (E_OTHER 98), Sys_Ok 0]"
      3 0 2 0 "E_OTHER 98" 0 "[]" HttpServerOptions "[]" "\<lambda>_. True"]
  by (simp add: EXIT_FAILURE_def)

end
