(* ===== verification/Http_Phase_Spec.thy ===== *)
theory Http_Phase_Spec
  imports Http_Sessions "HOL-Library.Sublist"
begin

text \<open>
  What an HTTP connection is, without its buffers: a specification with the phases a connection goes
  through and the bytes that decide between them.

  A connection collects a request until it is complete; then it is answered, upgraded or refused, as
  the request says, and only a connection that has been upgraded hears of further segments. The lemmas say that
  a connection only moves forward, and what it has received in each phase.
\<close>

section \<open>The specification\<close>

datatype phase = Collecting string | Answered | Refused | Talking | Parted

text \<open>A request is complete when it ends with an empty line or fills the buffer; the last character of the
  buffer is the terminator.\<close>

definition complete_request :: "string \<Rightarrow> bool" where
  "complete_request t \<longleftrightarrow> ends_request t \<or> RECV_SIZE \<le> length t"

definition final_buffer :: "string \<Rightarrow> string" where
  "final_buffer t = (padded t)[RECV_SIZE - 1 := NUL]"

definition request_kind :: "string \<Rightarrow> request_type option" where
  "request_kind t =
     (case parse_request (final_buffer t) (length t) request_info_new of
        (Inr _, ri) \<Rightarrow> Some (ri_requestType ri)
      | (Inl _, _) \<Rightarrow> None)"

inductive phase_step :: "phase \<Rightarrow> string \<Rightarrow> phase \<Rightarrow> bool" where
  wait: "phase_step (Collecting t) d (Collecting (t @ d))" if "\<not> complete_request (t @ d)"
| answer: "phase_step (Collecting t) d Answered"
    if "complete_request (t @ d)" and "request_kind (t @ d) = Some GET"
| upgrade: "phase_step (Collecting t) d p"
    if "complete_request (t @ d)" and "request_kind (t @ d) = Some GET_WS" and "p = Talking \<or> p = Parted"
| refuse: "phase_step (Collecting t) d Refused" if "complete_request (t @ d)"
| talk: "phase_step Talking d p" if "p = Talking \<or> p = Parted"

text \<open>A run over the segments received; the server may leave a conversation at any time.\<close>

inductive phase_run :: "phase \<Rightarrow> string list \<Rightarrow> phase \<Rightarrow> bool" where
  stop: "phase_run p [] p"
| step: "phase_run p (ds @ [d]) p''" if "phase_run p ds p'" and "phase_step p' d p''"
| leave: "phase_run p ds Parted" if "phase_run p ds Talking"

inductive_simps phase_step_simps:
  "phase_step (Collecting t) d p" "phase_step Answered d p" "phase_step Refused d p"
  "phase_step Talking d p" "phase_step Parted d p"

section \<open>The order of the phases\<close>

text \<open>A request grows, then it is decided, then the connection ends.\<close>

instantiation phase :: order
begin

definition less_eq_phase :: "phase \<Rightarrow> phase \<Rightarrow> bool" where
  "less_eq_phase p q =
     (case p of
        Collecting s \<Rightarrow> (case q of Collecting t \<Rightarrow> prefix s t | _ \<Rightarrow> True)
      | Talking \<Rightarrow> q = Talking \<or> q = Parted
      | _ \<Rightarrow> q = p)"

definition less_phase :: "phase \<Rightarrow> phase \<Rightarrow> bool" where
  "less_phase p q = (less_eq p q \<and> p \<noteq> q)"

instance
proof
  fix p q r :: phase
  show anti: "p \<le> q \<Longrightarrow> q \<le> p \<Longrightarrow> p = q" for p q :: phase
    by (auto simp: less_eq_phase_def split: phase.splits intro: prefix_order.antisym)
  show "p \<le> p"
    by (simp add: less_eq_phase_def split: phase.split)
  show "p \<le> q \<Longrightarrow> q \<le> r \<Longrightarrow> p \<le> r"
    by (auto simp: less_eq_phase_def split: phase.splits intro: prefix_order.trans)
  show "(p < q) = (p \<le> q \<and> \<not> q \<le> p)"
    using anti by (auto simp: less_phase_def)
qed

end

lemma phase_step_advances: "phase_step p d p' \<Longrightarrow> p \<le> p'"
  by (induction rule: phase_step.induct) (auto simp: less_eq_phase_def)

lemma phase_run_advances: "phase_run p ds p' \<Longrightarrow> p \<le> p'"
proof (induction rule: phase_run.induct)
  case (step p ds p' d p'')
  then show ?case using phase_step_advances by fastforce
next
  case (leave p ds)
  moreover have "Talking \<le> Parted" by (simp add: less_eq_phase_def)
  ultimately show ?case by (blast intro: order.trans)
qed simp

section \<open>What a run of the specification has received\<close>

text \<open>The decision is made by the first prefix that is a complete request.\<close>

lemma phase_run_collecting: "phase_run (Collecting []) ds (Collecting t) \<Longrightarrow> t = concat ds \<and> (ds \<noteq> [] \<longrightarrow> \<not> complete_request t)"
proof (induction "Collecting []" ds "Collecting t" arbitrary: t rule: phase_run.induct)
  case (step ds p' d)
  from step(3) obtain t' where "p' = Collecting t'" "t = t' @ d" "\<not> complete_request t"
    by (cases rule: phase_step.cases) auto
  with step(2) show ?case by simp
qed simp

definition decided :: "string list \<Rightarrow> nat \<Rightarrow> bool" where
  "decided ds n \<longleftrightarrow> 0 < n \<and> n \<le> length ds \<and> complete_request (concat (take n ds))
     \<and> (\<forall>m. 0 < m \<and> m < n \<longrightarrow> \<not> complete_request (concat (take m ds)))"

lemma decided_more: "decided ds n \<Longrightarrow> decided (ds @ es) n"
  by (auto simp: decided_def)

lemma decided_first:
  assumes "phase_run (Collecting []) ds (Collecting t)" and "complete_request (t @ d)"
  shows "decided (ds @ [d]) (Suc (length ds))"
proof -
  have "\<not> complete_request (concat (take m ds))" if "phase_run (Collecting []) ds p" "p = Collecting u" "0 < m" "m \<le> length ds"
    for m ds p u
    using that
  proof (induction "Collecting []" ds p arbitrary: u rule: phase_run.induct)
    case (step ds p' d p'')
    then obtain t' where p': "p' = Collecting t'"
      by (auto elim: phase_step.cases)
    show ?case
    proof (cases "m \<le> length ds")
      case True
      with step(2) [OF p'] step(5) show ?thesis by simp
    next
      case False
      with step(6) have "take m (ds @ [d]) = ds @ [d]" by simp
      then show ?thesis
        using phase_run_collecting [of "ds @ [d]" u] phase_run.step [OF step(1,3)] step(4) by auto
    qed
  qed simp_all
  with assms phase_run_collecting [OF assms(1)] show ?thesis
    by (auto simp: decided_def)
qed

lemma phase_run_decided:
  assumes "phase_run p ds p'" and "p = Collecting []"
  shows "case p' of
      Collecting t \<Rightarrow> t = concat ds
    | Answered \<Rightarrow> \<exists>n. decided ds n \<and> n = length ds \<and> request_kind (concat (take n ds)) = Some GET
    | Refused \<Rightarrow> \<exists>n. decided ds n \<and> n = length ds
    | _ \<Rightarrow> \<exists>n. decided ds n \<and> request_kind (concat (take n ds)) = Some GET_WS"
  using assms
proof (induction rule: phase_run.induct)
  case (step p ds p' d p'')
  have first: "decided (ds @ [d]) (length (ds @ [d])) \<and> t @ d = concat (ds @ [d])"
    if "p' = Collecting t" "complete_request (t @ d)" for t
    using decided_first [of ds t d] phase_run_collecting [of ds t] step(1,4) that by simp
  from step(2) show ?case
  proof (cases rule: phase_step.cases)
    case (wait t)
    with step(3,4) show ?thesis by simp
  next
    case (answer t)
    with first [of t] show ?thesis by simp
  next
    case (upgrade t)
    with first [of t] show ?thesis by (auto intro!: exI [of _ "length (ds @ [d])"])
  next
    case (refuse t)
    with first [of t] show ?thesis by simp
  next
    case talk
    with step(3,4) obtain n where n: "decided ds n" "request_kind (concat (take n ds)) = Some GET_WS" by auto
    then have "decided (ds @ [d]) n \<and> request_kind (concat (take n (ds @ [d]))) = Some GET_WS"
      using decided_more by (auto simp: decided_def)
    with talk show ?thesis by auto
  qed
qed simp_all

end
