(* ===== verification/Action_Triples.thy ===== *)
theory Action_Triples
  imports Prelude
begin

text \<open>
  Triples for the actions of \<open>Prelude\<close>: \<open>triple P m Q E\<close> says that \<open>m\<close>, from a state with \<open>P\<close>, returns
  with \<open>Q\<close> of its result and the state, or stops with \<open>E\<close>. Where one predicate holds throughout, \<open>keeps\<close>
  is enough; triples follow code whose steps change what holds.
\<close>

definition triple :: "('s \<Rightarrow> bool) \<Rightarrow> ('s, 'a) act \<Rightarrow> ('a \<Rightarrow> 's \<Rightarrow> bool) \<Rightarrow> ('s \<Rightarrow> bool) \<Rightarrow> bool" where
  "triple P m Q E \<longleftrightarrow> (\<forall>st. P st \<longrightarrow> (case m st of (Inr x, st') \<Rightarrow> Q x st' | (Inl e, st') \<Rightarrow> E st'))"

lemma tripleI:
  "(\<And>st x st'. P st \<Longrightarrow> m st = (Inr x, st') \<Longrightarrow> Q x st') \<Longrightarrow>
   (\<And>st e st'. P st \<Longrightarrow> m st = (Inl e, st') \<Longrightarrow> E st') \<Longrightarrow> triple P m Q E"
  by (simp add: triple_def split: prod.split sum.split)

lemma triple_Inr: "triple P m Q E \<Longrightarrow> P st \<Longrightarrow> m st = (Inr x, st') \<Longrightarrow> Q x st'"
  unfolding triple_def by (drule spec, drule (1) mp) simp

lemma triple_Inl: "triple P m Q E \<Longrightarrow> P st \<Longrightarrow> m st = (Inl e, st') \<Longrightarrow> E st'"
  unfolding triple_def by (drule spec, drule (1) mp) simp

lemma triple_bindA:
  assumes "triple P m R E" and "\<And>x. triple (R x) (f x) Q E"
  shows "triple P (bindA m f) Q E"
proof (rule tripleI)
  fix st y st'
  assume "P st" and "bindA m f st = (Inr y, st')"
  then show "Q y st'"
    using triple_Inr [OF assms(1)] triple_Inr [OF assms(2)] unfolding bindA_eq_Inr by blast
next
  fix st e st'
  assume P: "P st" and run: "bindA m f st = (Inl e, st')"
  obtain r s1 where m: "m st = (r, s1)" by fastforce
  show "E st'"
  proof (cases r)
    case (Inl e')
    with m run triple_Inl [OF assms(1) P] show ?thesis by (simp add: bindA_app)
  next
    case (Inr x)
    with m run triple_Inl [OF assms(2) triple_Inr [OF assms(1) P]] show ?thesis by (simp add: bindA_app)
  qed
qed

lemma triple_thenA: "triple P m (\<lambda>_. R) E \<Longrightarrow> triple R k Q E \<Longrightarrow> triple P (thenA m k) Q E"
  unfolding thenA_def by (rule triple_bindA)

lemma triple_retA: "(\<And>st. P st \<Longrightarrow> Q x st) \<Longrightarrow> triple P (retA x) Q E"
  by (simp add: triple_def)

lemma triple_modA: "(\<And>st. P st \<Longrightarrow> Q () (u st)) \<Longrightarrow> triple P (modA u) Q E"
  by (simp add: triple_def)

lemma triple_keeps:
  assumes "keeps P m" and "\<And>st. P st \<Longrightarrow> E st" and "\<And>x st. P st \<Longrightarrow> Q x st"
  shows "triple P m Q E"
  by (rule tripleI) (use keepsD [OF assms(1)] assms(2,3) in blast)+

lemma triple_tryA:
  assumes "triple P m Q F" and "\<And>e. triple F (h e) Q E" and "\<And>st. F st \<Longrightarrow> E st"
  shows "triple P (tryA m h) Q E"
proof (rule tripleI)
  fix st x st'
  assume P: "P st" and run: "tryA m h st = (Inr x, st')"
  obtain r s1 where m: "m st = (r, s1)" by fastforce
  with run triple_Inr [OF assms(1) P] triple_Inl [OF assms(1) P] triple_Inr [OF assms(2)] show "Q x st'"
    by (auto simp: tryA_def split: sum.splits stop.splits)
next
  fix st e st'
  assume P: "P st" and run: "tryA m h st = (Inl e, st')"
  obtain r s1 where m: "m st = (r, s1)" by fastforce
  with run triple_Inl [OF assms(1) P] triple_Inl [OF assms(2)] assms(3) show "E st'"
    by (auto simp: tryA_def split: sum.splits stop.splits)
qed

end
