(* ===== verification/Tcp_Threads.thy ===== *)
theory Tcp_Threads
  imports Tcp_Worker
begin

text \<open>
  \<^verbatim>\<open>ClientWorker::run\<close> of \<^verbatim>\<open>src/tcp/socks_tcp_worker.cpp\<close> as a thread among others: the same code
  as in \<open>Tcp_Worker\<close>, cut into the steps between which other threads may run. A step is a callback,
  one iteration of \<^verbatim>\<open>loop\<close>, or the final \<^verbatim>\<open>close\<close>; the program counter says which comes next.

  A thread that needs an answer its environment does not give, or whose behaviour is undefined, is
  \<open>Halted\<close>; \<open>Ended\<close> is the end of \<^verbatim>\<open>run\<close>. The lemmas show that the steps are the run: what a thread
  has reached when it has ended is the result of \<open>worker_run\<close>, and the other way round.
\<close>

section \<open>The code\<close>

datatype pc = At_Connect | In_Loop | At_Disconnect | At_Close | Ended | Halted stop

record ('h, 'u) thread =
  th_pc :: pc
  th_worker :: "('h, 'u) worker"
  th_buf :: "byte list"

text \<open>One iteration of \<^verbatim>\<open>loop\<close>: the buffer for the next one, or \<open>None\<close> when the loop is left.\<close>

definition loop_iter ::
  "('h, 'u) server_handler \<Rightarrow> int option \<Rightarrow> byte list \<Rightarrow> ('h \<times> 'u io, byte list option) act"
where
  "loop_iter handler sig buf =
     bindA (on_io (quitCondition sig)) (\<lambda>quit.
     if quit then retA None
     else bindA (on_io isClosed) (\<lambda>closed.
     if closed then retA None
     else bindA (on_io (sk_isReadable SocketImpl)) (\<lambda>readable.
     if \<not> readable then retA (Some buf)
     else bindA (on_io (sk_read SocketImpl buf)) (\<lambda>(len, buf').
     if len = NUM_EOF then retA None
     else if len = NUM_CONTINUE then retA (Some buf')
     else thenA (sh_onReceive handler buf' (nat len)) (retA (Some buf'))))))"

text \<open>A step inside the \<^verbatim>\<open>try\<close> block of \<^verbatim>\<open>run\<close>: an exception goes to its handler, which logs it,
  and \<^verbatim>\<open>_isActive\<close> is reset.\<close>

definition th_do ::
  "('h \<times> 'u io, 'a) act \<Rightarrow> ('a \<Rightarrow> ('h, 'u) thread \<Rightarrow> ('h, 'u) thread) \<Rightarrow> ('h, 'u) thread \<Rightarrow> ('h, 'u) thread"
where
  "th_do m k t =
     (case m (wk_state (th_worker t)) of
        (Inr x, st) \<Rightarrow> k x (t\<lparr>th_worker := (th_worker t)\<lparr>wk_state := st\<rparr>\<rparr>)
      | (Inl e, st) \<Rightarrow>
          (case e of
             Throw exc \<Rightarrow>
               t\<lparr>th_pc := Ended, th_worker := (th_worker t)
                   \<lparr>wk_state := snd (on_io (log_io (Log_Error exc)) st), wk_isActive := False\<rparr>\<rparr>
           | _ \<Rightarrow> t\<lparr>th_pc := Halted e, th_worker := (th_worker t)\<lparr>wk_state := st\<rparr>\<rparr>))"

definition thread_step ::
  "('h, 'u) server_handler \<Rightarrow> int option \<Rightarrow> ('h, 'u) thread \<Rightarrow> ('h, 'u) thread"
where
  "thread_step handler sig t =
     (case th_pc t of
        At_Connect \<Rightarrow> th_do (sh_onConnect handler) (\<lambda>_. th_pc_update (\<lambda>_. In_Loop)) t
      | In_Loop \<Rightarrow> th_do (loop_iter handler sig (th_buf t))
          (\<lambda>go. case go of None \<Rightarrow> th_pc_update (\<lambda>_. At_Disconnect) | Some buf \<Rightarrow> th_buf_update (\<lambda>_. buf)) t
      | At_Disconnect \<Rightarrow> th_do (sh_onDisconnect handler) (\<lambda>_. th_pc_update (\<lambda>_. At_Close)) t
      | At_Close \<Rightarrow> th_do (on_io (sk_close SocketImpl))
          (\<lambda>_ t. t\<lparr>th_pc := Ended, th_worker := (th_worker t)\<lparr>wk_isActive := False\<rparr>\<rparr>) t
      | _ \<Rightarrow> t)"

text \<open>The list has, for each step, the signal the thread sees.\<close>

fun thread_run ::
  "('h, 'u) server_handler \<Rightarrow> int option list \<Rightarrow> ('h, 'u) thread \<Rightarrow> ('h, 'u) thread"
where
  "thread_run handler [] t = t"
| "thread_run handler (sig # sigs) t = thread_run handler sigs (thread_step handler sig t)"

definition thread_start :: "'h \<Rightarrow> 'u io \<Rightarrow> byte list \<Rightarrow> ('h, 'u) thread" where
  "thread_start h i buf = \<lparr>th_pc = At_Connect, th_worker = worker_start h i, th_buf = buf\<rparr>"

definition th_over :: "('h, 'u) thread \<Rightarrow> bool" where
  "th_over t \<longleftrightarrow> th_pc t = Ended \<or> (\<exists>e. th_pc t = Halted e)"

section \<open>Steps\<close>

lemma worker_loop_iter:
  "worker_loop handler (sig # sigs) buf =
     bindA (loop_iter handler sig buf)
       (\<lambda>go. case go of None \<Rightarrow> retA () | Some buf' \<Rightarrow> worker_loop handler sigs buf')"
  unfolding worker_loop.simps loop_iter_def
  by (auto simp: bindA_app thenA_app fun_eq_iff split: prod.split sum.split)

text \<open>What an iteration of \<^verbatim>\<open>loop\<close> does with the script of \<^verbatim>\<open>recv\<close>: it leaves it alone, takes an answer that brings no
  data, or takes a segment and calls \<^verbatim>\<open>onReceive\<close> once.\<close>

lemma loop_iter_reads:
  assumes "loop_iter handler sig buf (h, i) = (r, st')" and "length buf = MAX_SIZE"
  obtains (idle) i1 where "io_closed i1 = io_closed i" "io_wire i1 = io_wire i" "io_recvs i1 = io_recvs i"
      "st' = (h, i1)" "\<forall>buf'. r = Inr (Some buf') \<longrightarrow> buf' = buf"
  | (no_data) i1 a rs where "io_closed i1 = io_closed i" "io_wire i1 = io_wire i" "io_recvs i1 = io_recvs i"
      "io_recvs i = a # rs" "\<nexists>d. a = Received d \<and> d \<noteq> []" "st' = (h, i1\<lparr>io_recvs := rs\<rparr>)"
      "\<forall>buf'. r = Inr (Some buf') \<longrightarrow> buf' = buf"
  | (data) i1 d rs buf' where "io_closed i1 = io_closed i" "io_wire i1 = io_wire i" "io_recvs i1 = io_recvs i"
      "\<not> io_closed i" "io_recvs i = Received d # rs" "d \<noteq> []" "length buf' = MAX_SIZE"
      "take (length (take MAX_SIZE d)) buf' = take MAX_SIZE d"
      "(r, st') = thenA (sh_onReceive handler buf' (length (take MAX_SIZE d))) (retA (Some buf')) (h, i1\<lparr>io_recvs := rs\<rparr>)"
proof -
  obtain q i0 where quit: "quitCondition sig i = (Inr q, i0)"
    and i0: "io_closed i0 = io_closed i" "io_wire i0 = io_wire i" "io_recvs i0 = io_recvs i"
    by (cases sig) auto
  obtain rd i1 where readable: "isReadable i0 = (rd, i1)" by fastforce
  then have i1: "io_closed i1 = io_closed i" "io_wire i1 = io_wire i" "io_recvs i1 = io_recvs i"
    using i0 by (auto simp: isReadable_def internalPoll_def split: list.splits poll_answer.splits)
  show thesis
  proof (cases "q \<or> io_closed i \<or> rd \<noteq> Inr True")
    case True
    with assms(1) quit readable i0 i1 show thesis
      by (auto simp: loop_iter_def bindA_app on_io_app intro: idle split: sum.splits if_splits)
  next
    case False
    with assms(1) quit readable i0 have run: "(r, st') = bindA (on_io (sock_read buf)) (\<lambda>(len, buf').
        if len = NUM_EOF then retA None else if len = NUM_CONTINUE then retA (Some buf')
        else thenA (sh_onReceive handler buf' (nat len)) (retA (Some buf'))) (h, i1)"
      by (auto simp: loop_iter_def bindA_app on_io_app)
    consider "io_recvs i = []" | a rs where "io_recvs i = a # rs" "\<nexists>d. a = Received d \<and> d \<noteq> []"
      | d rs where "io_recvs i = Received d # rs" "d \<noteq> []"
      by (cases "io_recvs i") auto
    then show thesis
    proof cases
      case 1
      with run i1 show thesis by (intro idle) (simp_all add: bindA_app on_io_app sock_read_def)
    next
      case (2 a rs)
      with run i1 show thesis
        by (intro no_data [OF i1 2(1,2)]; cases a)
          (auto simp: bindA_app on_io_app sock_read_def NUM_EOF_def NUM_CONTINUE_def split: if_splits)
    next
      case (3 d rs)
      let ?buf = "take MAX_SIZE d @ drop (length (take MAX_SIZE d)) buf"
      have "min (length d) MAX_SIZE \<noteq> 0" using 3(2) by (simp add: MAX_SIZE_def)
      with run i1 3 assms(2) have
        "(r, st') = thenA (sh_onReceive handler ?buf (length (take MAX_SIZE d))) (retA (Some ?buf)) (h, i1\<lparr>io_recvs := rs\<rparr>)"
        by (auto simp: bindA_app on_io_app sock_read_def NUM_EOF_def NUM_CONTINUE_def Let_def min_def)
      with False 3 assms(2) show thesis by (intro data [OF i1 _ 3]) auto
    qed
  qed
qed

lemma th_do_cases:
  obtains (returns) x st where "m (wk_state (th_worker t)) = (Inr x, st)"
      "th_do m k t = k x (t\<lparr>th_worker := (th_worker t)\<lparr>wk_state := st\<rparr>\<rparr>)"
  | (throws) exc st where "m (wk_state (th_worker t)) = (Inl (Throw exc), st)"
      "th_do m k t = t\<lparr>th_pc := Ended, th_worker := (th_worker t)
         \<lparr>wk_state := snd (on_io (log_io (Log_Error exc)) st), wk_isActive := False\<rparr>\<rparr>"
  | (halts) e st where "m (wk_state (th_worker t)) = (Inl e, st)" "\<forall>exc. e \<noteq> Throw exc"
      "th_do m k t = t\<lparr>th_pc := Halted e, th_worker := (th_worker t)\<lparr>wk_state := st\<rparr>\<rparr>"
proof -
  obtain r st where run: "m (wk_state (th_worker t)) = (r, st)" by (metis surj_pair)
  show thesis
  proof (cases r)
    case (Inr x)
    with run show thesis by (intro returns) (simp_all add: th_do_def)
  next
    case (Inl e)
    show thesis
    proof (cases e)
      case (Throw exc)
      with run Inl show thesis by (intro throws) (simp_all add: th_do_def)
    qed (use run Inl in \<open>auto simp: th_do_def intro!: halts\<close>)
  qed
qed

lemma thread_step_over [simp]: "th_over t \<Longrightarrow> thread_step handler sig t = t"
  by (auto simp: th_over_def thread_step_def)

lemma thread_run_over [simp]: "th_over t \<Longrightarrow> thread_run handler sigs t = t"
  by (induction sigs) simp_all

lemma thread_run_append: "thread_run handler (sigs @ sigs') t = thread_run handler sigs' (thread_run handler sigs t)"
  by (induction sigs arbitrary: t) simp_all

lemma th_overI: "th_pc t = Ended \<Longrightarrow> th_over t" "th_pc t = Halted e \<Longrightarrow> th_over t"
  by (simp_all add: th_over_def)

section \<open>The steps are the run\<close>

text \<open>What is left of \<^verbatim>\<open>run\<close> at a program counter, and the frame of \<^verbatim>\<open>run\<close> around it.\<close>

definition thread_rest ::
  "('h, 'u) server_handler \<Rightarrow> int option list \<Rightarrow> ('h, 'u) thread \<Rightarrow> ('h \<times> 'u io, unit) act"
where
  "thread_rest handler sigs t =
     (case th_pc t of
        At_Connect \<Rightarrow> run_body handler (tl sigs) (th_buf t)
      | In_Loop \<Rightarrow> thenA (worker_loop handler sigs (th_buf t)) (thenA (sh_onDisconnect handler) (on_io sock_close))
      | At_Disconnect \<Rightarrow> thenA (sh_onDisconnect handler) (on_io sock_close)
      | At_Close \<Rightarrow> on_io sock_close
      | _ \<Rightarrow> retA ())"

definition try_run ::
  "('h \<times> 'u io, unit) act \<Rightarrow> ('h, 'u) worker \<Rightarrow> (stop + unit) \<times> ('h, 'u) worker"
where
  "try_run m w =
     (case tryA m (\<lambda>exc. on_io (log_io (Log_Error exc))) (wk_state w) of
        (Inr _, st) \<Rightarrow> (Inr (), w\<lparr>wk_state := st, wk_isActive := False\<rparr>)
      | (Inl e, st) \<Rightarrow> (Inl e, w\<lparr>wk_state := st\<rparr>))"

lemma worker_run_try: "worker_run handler sigs buf = try_run (run_body handler sigs buf)"
  by (simp add: worker_run_def try_run_def fun_eq_iff)

lemma try_run_Inr:
  "m (wk_state w) = (Inr x, st) \<Longrightarrow> try_run (bindA m f) w = try_run (f x) (w\<lparr>wk_state := st\<rparr>)"
  by (simp add: try_run_def tryA_def bindA_Inr [where m = m] split: prod.split sum.split)

lemma try_run_Throw:
  "m (wk_state w) = (Inl (Throw exc), st) \<Longrightarrow> try_run (bindA m f) w =
     (Inr (), w\<lparr>wk_state := snd (on_io (log_io (Log_Error exc)) st), wk_isActive := False\<rparr>)"
  by (cases st) (simp add: try_run_def tryA_def bindA_Inl [where m = m] on_io_app log_io_def)

lemma try_run_stop:
  assumes "m (wk_state w) = (Inl e, st)" and "\<forall>exc. e \<noteq> Throw exc"
  shows "try_run (bindA m f) w = (Inl e, w\<lparr>wk_state := st\<rparr>)"
  using assms(2) by (cases e) (simp_all add: try_run_def tryA_def bindA_Inl [where m = m, OF assms(1)])

lemmas try_run_bindA = try_run_Inr try_run_Throw try_run_stop

definition th_result :: "('h, 'u) thread \<Rightarrow> stop + unit" where
  "th_result t = (case th_pc t of Ended \<Rightarrow> Inr () | Halted e \<Rightarrow> Inl e | _ \<Rightarrow> Inl Starved)"

text \<open>A step followed by the rest is the rest from before the step.\<close>

lemma try_run_th_do:
  assumes "\<And>x st. th_over (k x (t\<lparr>th_worker := (th_worker t)\<lparr>wk_state := st\<rparr>\<rparr>)) = False"
    and "\<And>x st. try_run (f x) ((th_worker t)\<lparr>wk_state := st\<rparr>) =
      try_run (thread_rest handler sigs (k x (t\<lparr>th_worker := (th_worker t)\<lparr>wk_state := st\<rparr>\<rparr>)))
        (th_worker (k x (t\<lparr>th_worker := (th_worker t)\<lparr>wk_state := st\<rparr>\<rparr>)))"
    and "t' = th_do m k t"
  shows "try_run (bindA m f) (th_worker t) =
    (if th_over t' then (th_result t', th_worker t')
     else try_run (thread_rest handler sigs t') (th_worker t'))"
proof (cases rule: th_do_cases [where m = m and t = t and k = k])
  case (returns x st)
  with assms show ?thesis by (simp add: try_run_bindA)
next
  case (throws exc st)
  with assms(3) show ?thesis by (simp add: try_run_bindA th_over_def th_result_def)
next
  case (halts e st)
  with assms(3) show ?thesis by (simp add: try_run_bindA th_over_def th_result_def)
qed

lemma thread_step_rest:
  assumes "\<not> th_over t" and "t' = thread_step handler sig t"
  shows "try_run (thread_rest handler (sig # sigs) t) (th_worker t) =
    (if th_over t' then (th_result t', th_worker t')
     else try_run (thread_rest handler sigs t') (th_worker t'))"
proof (cases "th_pc t")
  case At_Connect
  have "thread_rest handler (sig # sigs) t = bindA (sh_onConnect handler)
      (\<lambda>_. thenA (worker_loop handler sigs (th_buf t)) (thenA (sh_onDisconnect handler) (on_io sock_close)))"
    by (simp add: thread_rest_def At_Connect run_body_def thenA_def)
  then show ?thesis
    by (simp only:, intro try_run_th_do)
      (simp_all add: assms(2) thread_step_def At_Connect th_over_def thread_rest_def)
next
  case In_Loop
  have "thread_rest handler (sig # sigs) t = bindA (loop_iter handler sig (th_buf t))
      (\<lambda>go. thenA (case go of None \<Rightarrow> retA () | Some buf' \<Rightarrow> worker_loop handler sigs buf')
        (thenA (sh_onDisconnect handler) (on_io sock_close)))"
    unfolding thread_rest_def In_Loop pc.case worker_loop_iter by (simp add: thenA_def bindA_assoc)
  then show ?thesis
    by (simp only:, intro try_run_th_do)
      (simp_all add: assms(2) thread_step_def In_Loop th_over_def thread_rest_def thenA_def split: option.split)
next
  case At_Disconnect
  have "thread_rest handler (sig # sigs) t = bindA (sh_onDisconnect handler) (\<lambda>_. on_io sock_close)"
    by (simp add: thread_rest_def At_Disconnect thenA_def)
  then show ?thesis
    by (simp only:, intro try_run_th_do)
      (simp_all add: assms(2) thread_step_def At_Disconnect th_over_def thread_rest_def)
next
  case At_Close
  obtain h i where st: "wk_state (th_worker t) = (h, i)" by fastforce
  show ?thesis
    by (simp add: assms(2) thread_step_def At_Close th_over_def thread_rest_def th_do_def th_result_def
        st try_run_def tryA_def on_io_app sock_close_def)
qed (use assms(1) in \<open>simp_all add: th_over_def\<close>)

lemma thread_run_sound:
  assumes "th_pc (thread_run handler sigs t) = Ended" and "\<not> th_over t"
  shows "try_run (thread_rest handler sigs t) (th_worker t) = (Inr (), th_worker (thread_run handler sigs t))"
  using assms
proof (induction sigs arbitrary: t)
  case Nil
  then show ?case by (simp add: th_over_def)
next
  case (Cons sig sigs)
  let ?t = "thread_step handler sig t"
  show ?case
  proof (cases "th_over ?t")
    case True
    with Cons.prems show ?thesis
      using thread_step_rest [of t ?t handler sig sigs] by (simp add: th_result_def)
  next
    case False
    with Cons show ?thesis
      using thread_step_rest [of t ?t handler sig sigs] by simp
  qed
qed

lemma thread_step_pc: "th_pc (thread_step handler sig t) \<noteq> At_Connect"
proof (cases "th_pc t")
  case At_Connect
  then show ?thesis
    by (auto simp: thread_step_def th_do_def split: prod.split sum.split stop.split)
qed (auto simp: thread_step_def th_do_def split: prod.split sum.split stop.split option.split)

lemma thread_run_complete:
  assumes "try_run (thread_rest handler sigs t) (th_worker t) = (Inr (), w)" and "\<not> th_over t"
    and "th_pc t \<noteq> At_Connect"
  shows "th_pc (thread_run handler (sigs @ [s1, s2]) t) = Ended \<and> th_worker (thread_run handler (sigs @ [s1, s2]) t) = w"
  using assms
proof (induction sigs arbitrary: t)
  case Nil
  let ?t1 = "thread_step handler s1 t" and ?t2 = "thread_step handler s2 (thread_step handler s1 t)"
  have close: "th_over (thread_step handler s u)" if "th_pc u = At_Close" for s and u :: "('a, 'b) thread"
    using that by (auto simp: thread_step_def th_do_def th_over_def split: prod.split sum.split stop.split)
  have "th_pc t = At_Disconnect \<or> th_pc t = At_Close"
    using Nil by (cases "th_pc t") (auto simp: thread_rest_def try_run_def tryA_def th_over_def)
  then have "try_run (thread_rest handler [s1, s2] t) (th_worker t) = (Inr (), w)"
    using Nil by (auto simp: thread_rest_def)
  show ?case
  proof (cases "th_over ?t1")
    case True
    with Nil show ?thesis
      using thread_step_rest [of t ?t1 handler s1 "[s2]"] \<open>try_run (thread_rest handler [s1, s2] t) (th_worker t) = (Inr (), w)\<close>
      by (auto simp: th_result_def th_over_def)
  next
    case False
    then have pc: "th_pc ?t1 = At_Close"
      using \<open>th_pc t = At_Disconnect \<or> th_pc t = At_Close\<close> close [of t s1]
      by (auto simp: thread_step_def th_do_def th_over_def split: prod.splits sum.splits stop.splits)
    with False close [OF this, of s2] show ?thesis
      using thread_step_rest [of t ?t1 handler s1 "[s2]"] thread_step_rest [of ?t1 ?t2 handler s2 "[]"]
        \<open>try_run (thread_rest handler [s1, s2] t) (th_worker t) = (Inr (), w)\<close> Nil.prems(2)
      by (auto simp: th_result_def th_over_def)
  qed
next
  case (Cons sig sigs)
  let ?t = "thread_step handler sig t"
  show ?case
  proof (cases "th_over ?t")
    case True
    with Cons.prems show ?thesis
      using thread_step_rest [of t ?t handler sig sigs] by (auto simp: th_result_def th_over_def)
  next
    case False
    with Cons.prems have "try_run (thread_rest handler sigs ?t) (th_worker ?t) = (Inr (), w)"
      using thread_step_rest [of t ?t handler sig sigs] by simp
    from Cons.IH [OF this False thread_step_pc] show ?thesis by simp
  qed
qed

text \<open>After a signal a thread is over within four steps, wherever it is: the callbacks that are left
  and the \<^verbatim>\<open>close\<close>.\<close>

lemma loop_iter_signal: "n \<noteq> 0 \<Longrightarrow> \<exists>st'. loop_iter handler (Some n) buf st = (Inr None, st')"
  by (cases st) (simp add: loop_iter_def on_io_app bindA_app)

lemma step_signal_over:
  assumes "n \<noteq> 0"
  shows "th_pc t = At_Close \<Longrightarrow> th_over (thread_step handler (Some n) t)"
    and "th_pc t = At_Disconnect \<Longrightarrow> th_over (thread_step handler (Some n) t)
      \<or> th_pc (thread_step handler (Some n) t) = At_Close"
    and "th_pc t = In_Loop \<Longrightarrow> th_pc (thread_step handler (Some n) t) = At_Disconnect"
    and "th_pc t = At_Connect \<Longrightarrow> th_over (thread_step handler (Some n) t)
      \<or> th_pc (thread_step handler (Some n) t) = In_Loop"
proof -
  show "th_pc t = At_Close \<Longrightarrow> th_over (thread_step handler (Some n) t)"
    and "th_pc t = At_Disconnect \<Longrightarrow> th_over (thread_step handler (Some n) t)
      \<or> th_pc (thread_step handler (Some n) t) = At_Close"
    and "th_pc t = At_Connect \<Longrightarrow> th_over (thread_step handler (Some n) t)
      \<or> th_pc (thread_step handler (Some n) t) = In_Loop"
    by (simp_all add: thread_step_def th_over_def th_do_def split: prod.split sum.split stop.split)
  show "th_pc t = In_Loop \<Longrightarrow> th_pc (thread_step handler (Some n) t) = At_Disconnect"
    using loop_iter_signal [OF assms, of handler "th_buf t" "wk_state (th_worker t)"]
    by (auto simp: thread_step_def th_do_def)
qed

lemma thread_signal_over: "n \<noteq> 0 \<Longrightarrow> th_over (thread_run handler (replicate 4 (Some n)) t)"
proof -
  assume n: "n \<noteq> 0"
  let ?s = "thread_step handler (Some n)"
  note over = step_signal_over [OF n, where handler = handler]
  have four: "replicate 4 (Some n) = [Some n, Some n, Some n, Some n]"
    by (simp add: numeral_eq_Suc)
  have c1: "th_over (?s t)" if "th_pc t = At_Close \<or> th_over t" for t
    using that over(1) [of t] by auto
  have c2: "th_over (?s (?s t))" if "th_pc t \<in> {At_Disconnect, At_Close} \<or> th_over t" for t
    using that over(1,2) [of t] c1 [of "?s t"] by auto
  have c3: "th_over (?s (?s (?s t)))" if "th_pc t \<in> {In_Loop, At_Disconnect, At_Close} \<or> th_over t" for t
    using that over(3) [of t] c2 [of t] c2 [of "?s t"] by auto
  have "th_over (?s (?s (?s (?s t))))"
    using over(4) [of t] c3 [of t] c3 [of "?s t"] by (cases "th_pc t") (auto simp: th_over_def)
  then show ?thesis by (simp add: four)
qed

lemma thread_start_simps:
  "\<not> th_over (thread_start h i buf)" "th_worker (thread_start h i buf) = worker_start h i"
  "thread_rest handler (s0 # sigs) (thread_start h i buf) = run_body handler sigs buf"
  by (simp_all add: thread_start_def th_over_def thread_rest_def)

lemma thread_run_ended:
  "th_pc (thread_run handler (s0 # sigs) (thread_start h i buf)) = Ended \<Longrightarrow>
   worker_run handler sigs buf (worker_start h i) =
     (Inr (), th_worker (thread_run handler (s0 # sigs) (thread_start h i buf)))"
  using thread_run_sound [OF _ thread_start_simps(1), of handler "s0 # sigs"]
  unfolding worker_run_try thread_start_simps(2,3) .

lemma thread_run_reaches:
  assumes "worker_run handler sigs buf (worker_start h i) = (Inr (), w)"
  shows "th_pc (thread_run handler (s0 # sigs @ [s1, s2]) (thread_start h i buf)) = Ended
    \<and> th_worker (thread_run handler (s0 # sigs @ [s1, s2]) (thread_start h i buf)) = w"
proof -
  let ?t = "thread_step handler s0 (thread_start h i buf)"
  note first = thread_step_rest [OF thread_start_simps(1) refl, where handler = handler and sig = s0 and sigs = sigs,
      of h i buf, unfolded thread_start_simps(2,3)]
  note w = assms [unfolded worker_run_try]
  show ?thesis
  proof (cases "th_over ?t")
    case True
    with first w show ?thesis
      by (auto simp: th_result_def th_over_def)
  next
    case False
    with first w have "try_run (thread_rest handler sigs ?t) (th_worker ?t) = (Inr (), w)"
      by simp
    from thread_run_complete [OF this False thread_step_pc] show ?thesis by simp
  qed
qed

section \<open>Properties\<close>



end
