(* ===== verification/Http_Phases.thy ===== *)
theory Http_Phases
  imports Http_Phase_Spec Action_Triples Tcp_Threads
begin

text \<open>
  The proof that \<^verbatim>\<open>TcpServerHandler\<close>, run by a worker's thread, refines the phases of \<open>Http_Phase_Spec\<close>: first
  for one call of the machine, then for the steps of the thread.
\<close>

text \<open>The phase of a state of the machine.\<close>

definition abs_phase :: "'u http_fsm \<times> 'u io \<Rightarrow> phase" where
  "abs_phase = (\<lambda>(f, i). case curState f of
     HttpInitState recvBuf numRecv \<Rightarrow> if io_closed i then Refused else Collecting (take numRecv recvBuf)
   | HttpGetState handler \<Rightarrow> Answered
   | HttpWsState handler opcode inBuf \<Rightarrow> if io_closed i then Parted else Talking)"

section \<open>One call of the machine\<close>

text \<open>The states the machine is in between two calls.\<close>

definition phase_ok :: "'u http_fsm \<times> 'u io \<Rightarrow> bool" where
  "phase_ok = (\<lambda>(f, i). nextState f = None \<and>
     (case curState f of
        HttpInitState recvBuf numRecv \<Rightarrow> io_closed i \<or> (\<exists>t. f = waiting t \<and> length t \<le> RECV_SIZE)
      | HttpGetState handler \<Rightarrow> io_closed i
      | HttpWsState handler opcode inBuf \<Rightarrow> True))"

lemma phase_ok_new: "phase_ok (http_fsm_new, i)"
  by (auto simp: phase_ok_def simp flip: waiting_Nil intro!: exI [of _ "[]"])

lemma take_padded [simp]: "take (length t) (padded t) = t"
  by (simp add: padded_def)

definition finished :: "string \<Rightarrow> 'u http_fsm" where
  "finished t = (waiting t)\<lparr>curState := HttpInitState (final_buffer t) (length t)\<rparr>"

lemma finished_simps [simp]:
  "curState (finished t) = HttpInitState (final_buffer t) (length t)"
  "nextState (finished t) = None"
  by (simp_all add: finished_def)

lemma memcpy_waiting:
  assumes "length t \<le> RECV_SIZE" and "len \<le> length buf"
  shows "memcpy (padded t) (length t) (chars_of buf) 0 len =
    (if length t + len \<le> RECV_SIZE then Inr (padded (t @ chars_of (take len buf))) else Inl (UB Write_Out_Of_Bounds))"
  using assms memcpy_padded [of t len buf] by (simp add: memcpy_def)

lemma incomplete_waiting:
  assumes "length t \<le> RECV_SIZE"
  shows "incomplete (padded t) (length t) =
    (if length t < 4 then Inl (UB Read_Out_Of_Bounds) else Inr (\<not> complete_request t))"
proof (cases "length t < RECV_SIZE")
  case True
  then show ?thesis
    using incomplete_padded [of t] by (auto simp: incomplete_def complete_request_def)
next
  case False
  then have "length t = RECV_SIZE" using assms by simp
  then show ?thesis
    by (simp add: incomplete_def complete_request_def RECV_SIZE_def)
qed

lemma init_body_waiting:
  assumes "length t \<le> RECV_SIZE" and "len \<le> length buf" and "t' = t @ chars_of (take len buf)"
    and "init_body srv (padded t) (length t) buf len (waiting t, i) = (r, st)" and "\<forall>u. r \<noteq> Inl (UB u)"
  shows "length t' \<le> RECV_SIZE \<and> (if complete_request t'
    then thenA (on_requestInfo (parse_request (final_buffer t') (length t'))) (init_dispatch srv) (finished t', i) = (r, st)
    else r = Inr True \<and> st = (waiting t', i))"
proof -
  have len: "length t' = length t + len" using assms(2,3) by simp
  have cp: "memcpy (padded t) (length t) (chars_of buf) 0 len =
      (if length t' \<le> RECV_SIZE then Inr (padded t') else Inl (UB Write_Out_Of_Bounds))"
    using memcpy_waiting [OF assms(1,2)] assms(2) by (simp add: assms(3) min_absorb2)
  have fits: "length t' \<le> RECV_SIZE"
    using assms(4,5) cp by (auto simp: init_body_def split: if_splits)
  have cur: "set_cur (HttpInitState (padded t') (length t')) (waiting t, i) = (Inr (), (waiting t', i))"
    "set_cur (HttpInitState (final_buffer t') (length t')) (waiting t', i) = (Inr (), (finished t', i))"
    by (simp_all add: set_cur_def waiting_def finished_def)
  have st: "store (padded t') (length (padded t') - 1) NUL = Inr (final_buffer t')"
    using fits by (simp add: store_def final_buffer_def RECV_SIZE_def)
  have body: "init_body srv (padded t) (length t) buf len (waiting t, i) =
      bindA (liftR (incomplete (padded t') (length t'))) (\<lambda>inc.
        if inc then retA True
        else bindA (liftR (store (padded t') (length (padded t') - 1) NUL)) (\<lambda>recvBuf2.
          thenA (set_cur (HttpInitState recvBuf2 (length t')))
            (thenA (on_requestInfo (parse_request recvBuf2 (length t'))) (init_dispatch srv)))) (waiting t', i)"
    using fits by (simp add: init_body_def cp Let_def thenA_app cur flip: len)
  have "4 \<le> length t'"
    using assms(4,5) unfolding body incomplete_waiting [OF fits] by (auto split: if_splits)
  with fits assms(4) show ?thesis
    unfolding body incomplete_waiting [OF fits] st
    by (cases "complete_request t'") (auto simp: thenA_app cur)
qed

text \<open>The dispatch of a parsed request.\<close>

definition deciding :: "string \<Rightarrow> request_info \<Rightarrow> 'u http_fsm \<times> 'u io \<Rightarrow> bool" where
  "deciding t ri = (\<lambda>(f, i). f = (finished t)\<lparr>requestInfo := ri\<rparr>)"

definition chosen :: "request_info \<Rightarrow> 'u http_fsm \<times> 'u io \<Rightarrow> bool" where
  "chosen ri = (\<lambda>(f, i).
     ri_requestType ri = GET \<and> io_closed i \<and> (\<exists>handler. nextState f = Some (HttpGetState handler))
   \<or> ri_requestType ri = GET_WS \<and> (\<exists>handler. nextState f = Some (HttpWsState handler 0 [])))"

lemma deciding_on_io: "keeps (deciding t ri) (on_io m)"
  by (auto simp: keeps_def on_io_app deciding_def)

lemma triple_deciding: "keeps (deciding t ri) m \<Longrightarrow> triple (deciding t ri) m (\<lambda>_. deciding t ri) (deciding t ri)"
  by (rule triple_keeps)

lemma setNextState_deciding:
  "ri_requestType ri = GET \<Longrightarrow>
   triple (deciding t ri) (setNextState srv (HttpGetState handler)) (\<lambda>_. chosen ri) (deciding t ri)"
  "ri_requestType ri = GET_WS \<Longrightarrow>
   triple (deciding t ri) (setNextState srv (HttpWsState handler' 0 [])) (\<lambda>_. chosen ri) (deciding t ri)"
proof -
  assume get: "ri_requestType ri = GET"
  let ?closed = "\<lambda>(f, i). deciding t ri (f, i) \<and> io_closed i"
  have closes: "triple (deciding t ri) (on_io conn_close) (\<lambda>_. ?closed) (deciding t ri)"
    by (auto simp: triple_def on_io_app conn_close_def deciding_def)
  have "triple (deciding t ri) (get_onEnter handler) (\<lambda>_. ?closed) (deciding t ri)"
    unfolding get_onEnter_def
    by (intro triple_bindA [OF triple_deciding] triple_thenA [OF triple_deciding closes] deciding_on_io) simp
  then show "triple (deciding t ri) (setNextState srv (HttpGetState handler)) (\<lambda>_. chosen ri) (deciding t ri)"
    unfolding setNextState_def state_onEnter.simps
    by (rule triple_thenA [OF _ triple_modA]) (auto simp: chosen_def get)
next
  assume ws: "ri_requestType ri = GET_WS"
  have "keeps (deciding t ri) (ws_onEnter srv handler')"
    unfolding ws_onEnter_def by (intro keeps_bindA keeps_thenA keeps_liftR deciding_on_io) simp
  from triple_deciding [OF this] show
    "triple (deciding t ri) (setNextState srv (HttpWsState handler' 0 [])) (\<lambda>_. chosen ri) (deciding t ri)"
    unfolding setNextState_def state_onEnter.simps
    by (rule triple_thenA [OF _ triple_modA]) (auto simp: chosen_def ws)
qed

lemma get_requestInfo_deciding:
  "triple (deciding t ri) (f ri) Q E \<Longrightarrow> triple (deciding t ri) (bindA get_requestInfo f) Q E"
  by (auto simp: triple_def get_requestInfo_def deciding_def)

lemma init_dispatch_deciding:
  "triple (deciding t ri) (init_dispatch srv) (\<lambda>returned. if returned then chosen ri else deciding t ri) (deciding t ri)"
proof -
  let ?Q = "\<lambda>returned. if returned then chosen ri else deciding t ri"
  have get: "triple (deciding t ri) (bindA (on_io (httpHandlerFactory srv))
      (\<lambda>handler. thenA (setNextState srv (HttpGetState handler)) (retA True))) ?Q (deciding t ri)"
    if "ri_requestType ri = GET"
    by (intro triple_bindA [OF triple_deciding [OF deciding_on_io]] triple_thenA [OF setNextState_deciding(1) [OF that]]
        triple_retA) simp
  have ws: "triple (deciding t ri) (bindA (on_io (wsHandlerFactory srv))
      (\<lambda>handler. thenA (setNextState srv (HttpWsState handler 0 [])) (retA True))) ?Q (deciding t ri)"
    if "ri_requestType ri = GET_WS"
    by (intro triple_bindA [OF triple_deciding [OF deciding_on_io]] triple_thenA [OF setNextState_deciding(2) [OF that]]
        triple_retA) simp
  have no: "triple (deciding t ri) (retA False) ?Q (deciding t ri)"
    by (rule triple_retA) simp
  show ?thesis
    unfolding init_dispatch_eq
    by (intro get_requestInfo_deciding triple_bindA [OF triple_deciding [OF keeps_liftR]]
        triple_thenA [OF triple_deciding [OF deciding_on_io]]) (auto intro: get ws no)
qed

lemma snd_take_next [simp]: "snd (take_next st) = snd st"
  by (auto simp: take_next_def split: prod.split option.split)

text \<open>What is left of a call in the initial state once the request is complete.\<close>

lemma finish_request:
  assumes "tryA (thenA (on_requestInfo (parse_request (final_buffer t) (length t))) (init_dispatch srv))
      (\<lambda>exc. thenA (on_io (log_io (Log_Unparsed_Request exc))) (retA False)) (finished t, i) = (Inr returned, (f', i'))"
  shows "nextState (fst (take_next (f', i'))) = None \<and>
    (if returned then abs_phase (take_next (f', i')) = Answered \<and> io_closed i' \<and> request_kind t = Some GET
        \<or> (abs_phase (take_next (f', i')) = Talking \<or> abs_phase (take_next (f', i')) = Parted) \<and> request_kind t = Some GET_WS
          \<and> (\<exists>handler. curState (fst (take_next (f', i'))) = HttpWsState handler 0 [])
     else \<exists>recvBuf numRecv. f' = fst (take_next (f', i')) \<and> curState f' = HttpInitState recvBuf numRecv)
    \<and> (request_kind t \<notin> {Some GET, Some GET_WS} \<longrightarrow> io_wire i' = io_wire i)"
proof -
  obtain q ri where parse: "parse_request (final_buffer t) (length t) request_info_new = (q, ri)" by fastforce
  let ?f = "(finished t)\<lparr>requestInfo := ri\<rparr>"
  have req: "on_requestInfo (parse_request (final_buffer t) (length t)) (finished t, i) = (q, (?f, i))"
    using parse by (simp add: on_requestInfo_def finished_def)
  show ?thesis
  proof (cases q)
    case (Inl e)
    with assms req show ?thesis
      by (cases e) (auto simp: tryA_def thenA_app on_io_app log_io_def take_next_def)
  next
    case (Inr u)
    obtain r f1 i1 where run: "init_dispatch srv (?f, i) = (r, (f1, i1))" by (metis surj_pair)
    have start: "deciding t ri (?f, i)" by (simp add: deciding_def)
    have kind: "request_kind t = Some (ri_requestType ri)"
      using parse Inr by (simp add: request_kind_def)
    have wire: "io_wire i1 = io_wire i" if "ri_requestType ri \<notin> {GET, GET_WS}"
      using run that by (auto simp: init_dispatch_eq get_requestInfo_def bindA_app thenA_app on_io_app log_io_def
          split: prod.splits sum.splits)
    show ?thesis
    proof (cases r)
      case (Inl e)
      from triple_Inl [OF init_dispatch_deciding start run [unfolded Inl]] have "f1 = ?f" by (simp add: deciding_def)
      with assms req run Inr Inl wire show ?thesis
        by (cases e) (auto simp: kind tryA_def thenA_app on_io_app log_io_def take_next_def)
    next
      case (Inr b)
      note post = triple_Inr [OF init_dispatch_deciding start run [unfolded Inr]]
      have same: "returned = b" "f' = f1" "i' = i1"
        using assms req run \<open>q = Inr u\<close> Inr by (auto simp: tryA_def thenA_app)
      show ?thesis
        using post wire
        by (cases b) (auto simp: same kind chosen_def deciding_def take_next_def abs_phase_def split: if_splits)
    qed
  qed
qed

lemma init_onReceive_never_throws: "fst (init_onReceive srv recvBuf numRecv buf len st) \<noteq> Inl (Throw e)"
  by (cases st)
    (auto simp: init_onReceive_def bindA_app tryA_def thenA_app on_io_app log_io_def conn_close_def
      split: prod.split sum.split stop.split)

lemma receive_collecting:
  assumes "length t \<le> RECV_SIZE" and "\<not> io_closed i" and "len \<le> length buf" and "t' = t @ chars_of (take len buf)"
    and "http_onReceive srv buf len (waiting t, i) = (r, st')" and "r = Inr () \<or> r = Inl (Throw e)"
  shows "phase_step (Collecting t) (chars_of (take len buf)) (abs_phase st') \<and> phase_ok st'
    \<and> (complete_request t' \<and> request_kind t' \<in> {Some GET, Some GET_WS} \<or> io_wire (snd st') = io_wire i)"
proof -
  obtain q st1 where init: "init_onReceive srv (padded t) (length t) buf len (waiting t, i) = (q, st1)" by (metis surj_pair)
  then have "q \<noteq> Inl (Throw e)"
    using init_onReceive_never_throws [of srv "padded t" "length t" buf len "(waiting t, i)" e] by simp
  with assms(5,6) init have q: "q = Inr ()" and st': "st' = take_next st1"
    by (auto simp: onReceive_waiting thenA_app split: sum.splits)
  let ?attempt = "tryA (init_body srv (padded t) (length t) buf len) (\<lambda>exc. thenA (on_io (log_io (Log_Unparsed_Request exc))) (retA False))"
  obtain b f2 i2 where tried: "?attempt (waiting t, i) = (Inr b, (f2, i2))"
    and st1: "st1 = (if b then (f2, i2) else (f2, i2\<lparr>io_closed := True\<rparr>))"
    using init q by (auto simp: init_onReceive_def bindA_app on_io_app conn_close_def split: prod.splits sum.splits if_splits)
  obtain r0 st0 where body: "init_body srv (padded t) (length t) buf len (waiting t, i) = (r0, st0)" by (metis surj_pair)
  with tried have "\<forall>u. r0 \<noteq> Inl (UB u)" by (auto simp: tryA_def)
  note init' = init_body_waiting [OF assms(1,3,4) body this]
  show ?thesis
  proof (cases "complete_request t'")
    case False
    with init' body tried st1 have st1': "st1 = (waiting t', i)" and fits: "length t' \<le> RECV_SIZE" by (auto simp: tryA_def)
    then have "abs_phase st' = Collecting t'" and "phase_ok st'" and "snd st' = i"
      using assms(2) by (auto simp: st' take_next_def abs_phase_def phase_ok_def)
    with False assms(4) show ?thesis by (simp add: phase_step.wait)
  next
    case True
    let ?rest = "thenA (on_requestInfo (parse_request (final_buffer t') (length t'))) (init_dispatch srv)"
    have "tryA ?rest (\<lambda>exc. thenA (on_io (log_io (Log_Unparsed_Request exc))) (retA False)) (finished t', i) = (Inr b, (f2, i2))"
      using tried body init' True by (simp add: tryA_def)
    note post = finish_request [OF this]
    show ?thesis
    proof (cases b)
      case True
      obtain f3 where "take_next (f2, i2) = (f3, i2)" by (metis prod.collapse snd_conv snd_take_next)
      with True post \<open>complete_request t'\<close> show ?thesis
        by (auto simp: st' st1 phase_step_simps phase_ok_def abs_phase_def assms(4) split: http_state.splits if_splits)
    next
      case False
      with post have none: "nextState f2 = None" and cur: "\<exists>recvBuf numRecv. curState f2 = HttpInitState recvBuf numRecv"
        by auto
      then have "take_next (f2, i2\<lparr>io_closed := True\<rparr>) = (f2, i2\<lparr>io_closed := True\<rparr>)"
        by (simp add: take_next_def)
      with False post none cur \<open>complete_request t'\<close> show ?thesis
        by (auto simp: st' st1 phase_step_simps phase_ok_def abs_phase_def assms(4))
    qed
  qed
qed

lemma receive_talking:
  assumes "curState f = HttpWsState handler opcode inBuf" and "nextState f = None"
    and "http_onReceive srv buf len (f, i) = (r, st')"
  shows "(abs_phase st' = Talking \<or> abs_phase st' = Parted) \<and> phase_ok st'"
proof -
  obtain f' i' where st': "st' = (f', i')" by (cases st')
  from http_phase_is_final [OF assms(3) [unfolded st'] assms(2)] assms(1) show ?thesis
    by (auto simp: st' abs_phase_def phase_ok_def)
qed

section \<open>The thread\<close>

text \<open>What the answers to \<^verbatim>\<open>read\<close> have delivered: one segment per answer, cut to the worker's buffer.\<close>

definition segments :: "recv_answer list \<Rightarrow> string list" where
  "segments rs = [chars_of (take MAX_SIZE d). Received d \<leftarrow> rs, d \<noteq> []]"

lemma segments_simps [simp]:
  "segments [] = []"
  "segments (rs @ rs') = segments rs @ segments rs'"
  "segments [Recv_Failed e] = []"
  "segments [Received d] = (if d = [] then [] else [chars_of (take MAX_SIZE d)])"
  by (simp_all add: segments_def)

definition answerable :: "string list \<Rightarrow> bool" where
  "answerable ds \<longleftrightarrow> (\<exists>n. decided ds n \<and> request_kind (concat (take n ds)) \<in> {Some GET, Some GET_WS})"

lemma answerable_more: "answerable ds \<Longrightarrow> answerable (ds @ es)"
proof -
  assume "answerable ds"
  then obtain n where "decided ds n" "request_kind (concat (take n ds)) \<in> {Some GET, Some GET_WS}"
    by (auto simp: answerable_def)
  with decided_more [of ds n es] show ?thesis
    by (auto simp: answerable_def decided_def intro!: exI [of _ n])
qed

text \<open>The invariant of a connection that was in the phase \<open>p0\<close> with the answers and the wire of \<open>i0\<close>: its
  phase is one the specification reaches from there with what has been received since, and if it is looked at from its start and
  anything was sent, then an answerable request has been received.\<close>

definition phase_inv :: "phase \<Rightarrow> 'u io \<Rightarrow> 'u http_fsm \<times> 'u io \<Rightarrow> bool" where
  "phase_inv p0 i0 st \<longleftrightarrow> phase_ok st \<and> fsm_ok st \<and>
     (\<exists>used. io_recvs i0 = used @ io_recvs (snd st)
       \<and> phase_run p0 (segments used) (abs_phase st)
       \<and> (p0 = Collecting [] \<and> io_wire (snd st) \<noteq> io_wire i0 \<longrightarrow> answerable (segments used)))"

lemma phase_inv_start: "\<not> io_closed i \<Longrightarrow> phase_inv (Collecting []) i (http_fsm_new, i)"
proof -
  assume "\<not> io_closed i"
  then have "abs_phase (http_fsm_new, i) = Collecting []"
    by (simp add: abs_phase_def http_fsm_new_def)
  then show ?thesis
    by (auto simp: phase_inv_def phase_ok_new fsm_ok_new intro: phase_run.stop)
qed

lemma phase_inv_io:
  assumes "phase_inv p0 i0 (f, i)" and "io_closed i' = io_closed i" "io_wire i' = io_wire i"
    "io_recvs i' = io_recvs i"
  shows "phase_inv p0 i0 (f, i')"
  using assms fsm_ok_io [of f i i']
  by (auto simp: phase_inv_def phase_ok_def abs_phase_def split: http_state.splits)

lemma phase_inv_read:
  assumes "phase_inv p0 i0 (f, i)" and "io_recvs i = a # rs" and "segments [a] = []"
  shows "phase_inv p0 i0 (f, i\<lparr>io_recvs := rs\<rparr>)"
proof -
  from assms(1) obtain used where used: "io_recvs i0 = used @ io_recvs i"
    "phase_run p0 (segments used) (abs_phase (f, i))"
    "p0 = Collecting [] \<and> io_wire i \<noteq> io_wire i0 \<longrightarrow> answerable (segments used)"
    by (auto simp: phase_inv_def)
  have "segments (used @ [a]) = segments used" using assms(3) by simp
  moreover have "abs_phase (f, i\<lparr>io_recvs := rs\<rparr>) = abs_phase (f, i)" "phase_ok (f, i\<lparr>io_recvs := rs\<rparr>) = phase_ok (f, i)"
    by (cases "curState f"; simp add: abs_phase_def phase_ok_def)+
  ultimately show ?thesis
    using assms(1,2) used fsm_ok_io [of f i "i\<lparr>io_recvs := rs\<rparr>"]
    unfolding phase_inv_def by (intro conjI exI [of _ "used @ [a]"]) simp_all
qed

text \<open>What the steps of a thread keep: a step that is undefined or that starves ends the claim.\<close>

definition thread_phase_inv :: "phase \<Rightarrow> 'u io \<Rightarrow> ('u http_fsm, 'u) thread \<Rightarrow> bool" where
  "thread_phase_inv p0 i0 t \<longleftrightarrow> length (th_buf t) = MAX_SIZE
     \<and> ((\<forall>e. th_pc t \<noteq> Halted e) \<longrightarrow> phase_inv p0 i0 (wk_state (th_worker t)))"

lemma thread_do_phase:
  assumes "thread_phase_inv p0 i0 t" and "\<forall>e. th_pc t \<noteq> Halted e"
    and "\<And>x st'. m (wk_state (th_worker t)) = (Inr x, st') \<Longrightarrow>
      thread_phase_inv p0 i0 (k x (t\<lparr>th_worker := (th_worker t)\<lparr>wk_state := st'\<rparr>\<rparr>))"
    and "\<And>e st'. m (wk_state (th_worker t)) = (Inl (Throw e), st') \<Longrightarrow> phase_inv p0 i0 st'"
  shows "thread_phase_inv p0 i0 (th_do m k t)"
proof (cases rule: th_do_cases [where m = m and t = t and k = k])
  case (returns x st)
  with assms(3) show ?thesis by simp
next
  case (throws exc st)
  obtain f i where st: "st = (f, i)" by (cases st)
  have "phase_inv p0 i0 (f, i\<lparr>io_log := io_log i @ [Log_Error exc]\<rparr>)"
    by (rule phase_inv_io [OF assms(4) [OF throws(1) [unfolded st]]]) simp_all
  with assms(1) throws(2) show ?thesis by (simp add: thread_phase_inv_def st on_io_app log_io_def)
next
  case (halts e st)
  with assms(1) show ?thesis by (simp add: thread_phase_inv_def)
qed

context http_application
begin

lemma receive_recvs:
  "fsm_ok st \<Longrightarrow> fsm_ok (snd (http_onReceive srv buf len st)) \<and> io_recvs (snd (snd (http_onReceive srv buf len st))) = io_recvs (snd st)"
  using receive_keeps_fsm [of st "(io_fd_open (snd st), io_recvs (snd st))" buf len] by simp

lemma receive_phase:
  assumes "phase_inv p0 i0 (f, i)" and "\<not> io_closed i" and "io_recvs i = Received d # rs" and "d \<noteq> []"
    and "length (take MAX_SIZE d) \<le> length buf" and "take (length (take MAX_SIZE d)) buf = take MAX_SIZE d"
    and "http_onReceive srv buf (length (take MAX_SIZE d)) (f, i\<lparr>io_recvs := rs\<rparr>) = (r, st')"
    and "r = Inr () \<or> r = Inl (Throw e)"
  shows "phase_inv p0 i0 st'"
proof -
  let ?i = "i\<lparr>io_recvs := rs\<rparr>" and ?d = "chars_of (take MAX_SIZE d)"
  from assms(1) obtain used where used: "io_recvs i0 = used @ io_recvs i"
    "phase_run p0 (segments used) (abs_phase (f, i))"
    "p0 = Collecting [] \<and> io_wire i \<noteq> io_wire i0 \<longrightarrow> answerable (segments used)" and ok: "phase_ok (f, i)" "fsm_ok (f, i)"
    by (auto simp: phase_inv_def)
  have now: "fsm_ok st'" "io_recvs (snd st') = rs"
    using receive_recvs [of "(f, ?i)" buf "length (take MAX_SIZE d)"] fsm_ok_io [OF ok(2), of ?i] assms(7) by simp_all
  have "phase_step (abs_phase (f, i)) ?d (abs_phase st') \<and> phase_ok st'
      \<and> (p0 = Collecting [] \<and> io_wire (snd st') \<noteq> io_wire i0 \<longrightarrow> answerable (segments used @ [?d]))"
  proof (cases "curState f")
    case (HttpInitState recvBuf numRecv)
    with ok(1) assms(2) obtain t where t: "f = waiting t" "length t \<le> RECV_SIZE" by (auto simp: phase_ok_def)
    then have coll: "abs_phase (f, i) = Collecting t" using assms(2) by (simp add: abs_phase_def)
    from receive_collecting [OF t(2), of ?i "length (take MAX_SIZE d)" buf "t @ ?d" srv r st' e]
    have step: "phase_step (Collecting t) ?d (abs_phase st') \<and> phase_ok st'
        \<and> (complete_request (t @ ?d) \<and> request_kind (t @ ?d) \<in> {Some GET, Some GET_WS} \<or> io_wire (snd st') = io_wire i)"
      using assms(2,5,6,7,8) t(1) by simp
    have "answerable (segments used @ [?d])" if "p0 = Collecting []" "complete_request (t @ ?d)" "request_kind (t @ ?d) \<in> {Some GET, Some GET_WS}"
      unfolding answerable_def
      using decided_first [of "segments used" t ?d] phase_run_collecting [of "segments used" t] used(2) that coll
      by (intro exI [of _ "Suc (length (segments used))"]) simp
    with step coll used(3) answerable_more [of "segments used" "[?d]"] show ?thesis by auto
  next
    case (HttpGetState h)
    with ok(1) assms(2) show ?thesis by (simp add: phase_ok_def)
  next
    case (HttpWsState h op p)
    with assms(2) have talk: "abs_phase (f, i) = Talking" by (simp add: abs_phase_def)
    have "p0 = Collecting [] \<Longrightarrow> answerable (segments used)"
      using phase_run_decided [OF used(2)] by (auto simp: talk answerable_def)
    with receive_talking [OF HttpWsState _ assms(7)] ok(1) talk answerable_more [of "segments used" "[?d]"] show ?thesis
      by (auto simp: phase_ok_def intro: phase_step.talk)
  qed
  then show ?thesis
    using now used(1,2) assms(3,4) unfolding phase_inv_def
    by (intro conjI exI [of _ "used @ [Received d]"]) (auto intro: phase_run.step)
qed

lemma loop_phase:
  assumes "phase_inv p0 i0 st" and "length buf = MAX_SIZE" and "loop_iter (http_handler srv) sig buf st = (r, st')"
    and "r = Inr go \<or> r = Inl (Throw e)"
  shows "phase_inv p0 i0 st' \<and> (\<forall>buf'. r = Inr (Some buf') \<longrightarrow> length buf' = MAX_SIZE)"
proof -
  obtain f i where st: "st = (f, i)" by (cases st)
  note inv = phase_inv_io [OF assms(1) [unfolded st]]
  from assms(3) [unfolded st] assms(2) show ?thesis
  proof (cases rule: loop_iter_reads)
    case (idle i1)
    with inv [OF idle(1-3)] assms(2) show ?thesis by auto
  next
    case (no_data i1 a rs)
    then have "segments [a] = []" by (cases a) auto
    with phase_inv_read [OF inv [OF no_data(1-3)], of a rs] no_data assms(2) show ?thesis by auto
  next
    case (data i1 d rs buf')
    let ?n = "length (take MAX_SIZE d)"
    obtain out st2 where rec: "http_onReceive srv buf' ?n (f, i1\<lparr>io_recvs := rs\<rparr>) = (out, st2)" by (metis surj_pair)
    with data(9) have rs: "r = (case out of Inr _ \<Rightarrow> Inr (Some buf') | Inl e \<Rightarrow> Inl e)" "st' = st2"
      by (auto simp: http_handler_def thenA_app split: sum.splits)
    have "phase_inv p0 i0 st2"
      using receive_phase [OF inv [OF data(1-3)] _ _ data(6) _ data(8) rec, of e] data(1,3-5,7) assms(4) rs(1)
      by (auto split: sum.splits)
    with rs data(7) show ?thesis by (auto split: sum.splits)
  qed
qed

lemma disconnect_phase:
  assumes "phase_inv p0 i0 st"
  shows "phase_inv p0 i0 (snd (http_onDisconnect st))"
proof -
  obtain f i where st: "st = (f, i)" by (cases st)
  have fsm: "fsm_ok (snd (http_onDisconnect st))" "io_recvs (snd (snd (http_onDisconnect st))) = io_recvs i"
    using disconnect_keeps_fsm [of st "(io_fd_open (snd st), io_recvs (snd st))"] assms by (simp_all add: phase_inv_def st)
  show ?thesis
  proof (cases "curState f")
    case (HttpWsState h op p)
    obtain r i' where run: "wh_onDisconnect h i = (r, i')" by fastforce
    have st': "snd (http_onDisconnect st) = (f, i')"
      using HttpWsState run by (simp add: http_onDisconnect_def st on_io_app)
    from assms obtain used where used: "io_recvs i0 = used @ io_recvs i" "phase_ok (f, i)"
      "phase_run p0 (segments used) (abs_phase (f, i))"
      by (auto simp: phase_inv_def st)
    have "p0 = Collecting [] \<Longrightarrow> answerable (segments used)"
      using phase_run_decided [OF used(3)] HttpWsState by (auto simp: abs_phase_def answerable_def split: if_splits)
    moreover have "polite (wh_onDisconnect h)"
      using assms HttpWsState by (auto simp: phase_inv_def fsm_ok_def state_ok_def st intro: polite_ws_handler.onDisconnect_polite)
    with run have "io_closed i \<Longrightarrow> io_closed i'" using polite_closed by fastforce
    with used(3) HttpWsState have "phase_run p0 (segments used) (abs_phase (f, i'))"
      by (auto simp: abs_phase_def split: if_splits intro: phase_run.leave)
    ultimately show ?thesis
      using fsm used(1,2) HttpWsState by (auto simp: st' phase_inv_def phase_ok_def)
  qed (use assms in \<open>simp_all add: http_onDisconnect_def st\<close>)
qed

lemma step_phase:
  assumes "thread_phase_inv p0 i0 t"
  shows "thread_phase_inv p0 i0 (thread_step (http_handler srv) sig t)"
proof -
  have buf: "length (th_buf t) = MAX_SIZE" using assms by (simp add: thread_phase_inv_def)
  show ?thesis
  proof (cases "th_pc t")
    case At_Connect
    with assms show ?thesis
      by (simp add: thread_step_def th_do_def http_handler_def thread_phase_inv_def)
  next
    case In_Loop
    with assms have inv: "phase_inv p0 i0 (wk_state (th_worker t))" by (simp add: thread_phase_inv_def)
    show ?thesis
      unfolding thread_step_def In_Loop pc.case
    proof (rule thread_do_phase [OF assms])
      fix go st'
      assume "loop_iter (http_handler srv) sig (th_buf t) (wk_state (th_worker t)) = (Inr go, st')"
      from loop_phase [OF inv buf this, of go] buf
      show "thread_phase_inv p0 i0 ((case go of None \<Rightarrow> th_pc_update (\<lambda>_. At_Disconnect) | Some buf \<Rightarrow> th_buf_update (\<lambda>_. buf))
          (t\<lparr>th_worker := (th_worker t)\<lparr>wk_state := st'\<rparr>\<rparr>))"
        by (cases go) (simp_all add: thread_phase_inv_def)
    next
      fix e st'
      assume "loop_iter (http_handler srv) sig (th_buf t) (wk_state (th_worker t)) = (Inl (Throw e), st')"
      from loop_phase [OF inv buf this, of _ e] show "phase_inv p0 i0 st'" by simp
    qed (simp add: In_Loop)
  next
    case At_Disconnect
    with assms have inv: "phase_inv p0 i0 (wk_state (th_worker t))" by (simp add: thread_phase_inv_def)
    show ?thesis
      unfolding thread_step_def At_Disconnect pc.case
    proof (rule thread_do_phase [OF assms])
      fix x st'
      assume "sh_onDisconnect (http_handler srv) (wk_state (th_worker t)) = (Inr x, st')"
      with disconnect_phase [OF inv] buf
      show "thread_phase_inv p0 i0 (th_pc_update (\<lambda>_. At_Close) (t\<lparr>th_worker := (th_worker t)\<lparr>wk_state := st'\<rparr>\<rparr>))"
        by (simp add: http_handler_def thread_phase_inv_def)
    next
      fix e st'
      assume "sh_onDisconnect (http_handler srv) (wk_state (th_worker t)) = (Inl (Throw e), st')"
      with disconnect_phase [OF inv] show "phase_inv p0 i0 st'" by (simp add: http_handler_def)
    qed (simp add: At_Disconnect)
  next
    case At_Close
    obtain f i where st: "wk_state (th_worker t) = (f, i)" by (cases "wk_state (th_worker t)")
    with At_Close assms have inv: "phase_inv p0 i0 (f, i)" by (simp add: thread_phase_inv_def)
    have "phase_inv p0 i0 (f, i\<lparr>io_fd_open := False\<rparr>)"
      by (rule phase_inv_io [OF inv]) simp_all
    with At_Close buf st show ?thesis
      by (simp add: thread_step_def th_do_def on_io_app sock_close_def thread_phase_inv_def)
  qed (use assms in \<open>simp_all add: thread_step_def\<close>)
qed

lemma run_phase: "thread_phase_inv p0 i0 t \<Longrightarrow> thread_phase_inv p0 i0 (thread_run (http_handler srv) sigs t)"
  by (induction sigs arbitrary: t) (simp_all add: step_phase)

lemma session_phase:
  assumes "\<not> io_closed i" and "length buf = MAX_SIZE"
    and "t = thread_run (http_handler srv) sigs (thread_start http_fsm_new i buf)" and "\<forall>e. th_pc t \<noteq> Halted e"
  shows "phase_inv (Collecting []) i (wk_state (th_worker t))" and "length (th_buf t) = MAX_SIZE"
proof -
  have "thread_phase_inv (Collecting []) i (thread_start http_fsm_new i buf)"
    using phase_inv_start [OF assms(1)] assms(2) by (simp add: thread_phase_inv_def thread_start_def worker_start_def)
  from run_phase [OF this, of sigs] assms(3,4)
  show "phase_inv (Collecting []) i (wk_state (th_worker t))" and "length (th_buf t) = MAX_SIZE"
    by (simp_all add: thread_phase_inv_def)
qed

text \<open>From any point of a session to any later one.\<close>

lemma later_phase:
  assumes "phase_inv p0 i0 (wk_state (th_worker t))" and "length (th_buf t) = MAX_SIZE"
    and "\<forall>e. th_pc (thread_run (http_handler srv) sigs t) \<noteq> Halted e"
  shows "phase_inv (abs_phase (wk_state (th_worker t))) (snd (wk_state (th_worker t)))
    (wk_state (th_worker (thread_run (http_handler srv) sigs t)))"
proof -
  have "thread_phase_inv (abs_phase (wk_state (th_worker t))) (snd (wk_state (th_worker t))) t"
    using assms(1,2) by (auto simp: thread_phase_inv_def phase_inv_def intro!: exI [of _ "[]"] phase_run.stop)
  from run_phase [OF this, of sigs] assms(3) show ?thesis by (simp add: thread_phase_inv_def)
qed

end

text \<open>What the invariant says of what has been sent and of the state.\<close>

lemma phase_inv_answers:
  assumes "phase_inv (Collecting []) i0 (f, i)"
  shows "\<exists>used. io_recvs i0 = used @ io_recvs i
    \<and> (io_wire i \<noteq> io_wire i0 \<longrightarrow>
        (\<exists>n. decided (segments used) n \<and> request_kind (concat (take n (segments used))) \<in> {Some GET, Some GET_WS}))
    \<and> (case curState f of
         HttpInitState recvBuf numRecv \<Rightarrow> True
       | HttpGetState h \<Rightarrow> decided (segments used) (length (segments used)) \<and> request_kind (concat (segments used)) = Some GET
       | HttpWsState h opcode inBuf \<Rightarrow>
           \<exists>n. decided (segments used) n \<and> request_kind (concat (take n (segments used))) = Some GET_WS)"
proof -
  from assms obtain used where used: "io_recvs i0 = used @ io_recvs i"
    "phase_run (Collecting []) (segments used) (abs_phase (f, i))"
    "io_wire i \<noteq> io_wire i0 \<longrightarrow> answerable (segments used)"
    by (auto simp: phase_inv_def)
  with phase_run_decided [OF used(2) refl] show ?thesis
    by (intro exI [of _ used]) (auto simp: answerable_def abs_phase_def split: http_state.splits if_splits)
qed

section \<open>Properties\<close>

text \<open>The servers of the examples.\<close>

definition example_server :: "'u http_server \<Rightarrow> bool" where
  "example_server srv \<longleftrightarrow> (\<exists>fs basePath sha b64 al.
     srv = serve_files fs basePath sha b64 al \<or> srv = serve_ws_echo sha b64 al \<or> srv = serve_http (retA simple_do_GET) sha b64 al)"

lemma example_server_simps [simp]:
  "example_server (serve_files fs basePath sha b64 al)" "example_server (serve_ws_echo sha b64 al)"
  "example_server (serve_http (retA simple_do_GET) sha b64 al)"
  unfolding example_server_def by blast+

lemma example_application: "example_server srv \<Longrightarrow> http_application srv"
  unfolding example_server_def
  using files.http_application_axioms ws_echo.http_application_axioms simple.http_application_axioms by blast



end
