(* ===== verification/Ws_Sessions.thy ===== *)
theory Ws_Sessions
  imports Http_Sessions
begin

text \<open>
  Whole WebSocket connections: the upgrade, messages in fragments, and the close, for the machine of
  \<^verbatim>\<open>TcpServerHandler\<close> with the echo handler of \<^verbatim>\<open>examples/ws_echo/main.cpp\<close>; then what the
  WebSocket state does with input that does not fit one message per frame and one frame per segment.

  A message is an opcode and its fragments, each a masking key and a payload; \<open>message_frames\<close> are
  its RFC 6455 frames, of which every one is a segment of its own.
\<close>

section \<open>One frame\<close>

definition talking :: "'u ws_handler \<Rightarrow> byte \<Rightarrow> byte list \<Rightarrow> 'u http_fsm \<Rightarrow> 'u http_fsm" where
  "talking handler opcode inBuf f = f\<lparr>curState := HttpWsState handler opcode inBuf, nextState := None\<rparr>"

lemma talking_simps [simp]:
  "curState (talking h op p f) = HttpWsState h op p"
  "nextState (talking h op p f) = None"
  "(talking h op p f)\<lparr>curState := HttpWsState h' op' p'\<rparr> = talking h' op' p' f"
  by (simp_all add: talking_def)

lemma set_cur_talking [simp]:
  "set_cur (HttpWsState h' op' p') (talking h op p f, i) = (Inr (), (talking h' op' p' f, i))"
  by (simp add: set_cur_def)

lemma take_next_talking [simp]: "take_next (talking h op p f, i) = (talking h op p f, i)"
  by (simp add: take_next_def)

text \<open>The outcome of one call, once the frame has been decoded.\<close>

definition ws_decoded ::
  "'u http_server \<Rightarrow> 'u ws_handler \<Rightarrow> bool \<Rightarrow> byte \<Rightarrow> byte list \<Rightarrow> ('u http_fsm \<times> 'u io, unit) act"
where
  "ws_decoded srv h fin op p =
     thenA (try_onlyA is_invalid_argument
       (if \<not> fin then retA () else thenA (ws_dispatch srv h op p) (set_cur (HttpWsState h op [])))
       (\<lambda>exc. retA ())) (modA take_next)"

lemma onReceive_talking:
  "http_onReceive srv buf len (talking h op p f, i) =
     thenA (ws_onReceive srv h op p buf len) (modA take_next) (talking h op p f, i)"
  by (simp add: http_onReceive_def)

lemma receive_decoded:
  assumes "decode (alloc srv) buf len acc = Inr (fin, acc', opc)"
    and "op' = (if acc = [] then opc else op)"
  shows "http_onReceive srv buf len (talking h op acc f, i) =
    ws_decoded srv h fin op' acc' (talking h op' acc' f, i)"
proof -
  have "ws_onReceive srv h op acc buf len (talking h op acc f, i) =
      try_onlyA is_invalid_argument
       (if \<not> fin then retA () else thenA (ws_dispatch srv h op' acc') (set_cur (HttpWsState h op' [])))
       (\<lambda>exc. retA ()) (talking h op' acc' f, i)"
    using assms by (simp add: ws_onReceive_def try_onlyA_def tryA_def Let_def thenA_app [of "set_cur s" for s])
  then show ?thesis
    by (simp add: onReceive_talking ws_decoded_def thenA_app)
qed

lemma receive_frame:
  assumes "take len buf = rfc_frame fin opc (Some key) p @ rest" and "len \<le> length buf"
    and "opc \<le> 15" and "length key = 4" and "length acc + length p < 2 ^ 63"
    and "alloc srv (length acc + length p)"
  shows "http_onReceive srv buf len (talking h op acc f, i) =
    ws_decoded srv h fin (if acc = [] then opc else op) (acc @ p)
      (talking h (if acc = [] then opc else op) (acc @ p) f, i)"
proof -
  have "buf = rfc_frame fin opc (Some key) p @ rest @ drop len buf"
    using assms(1) by (metis append.assoc append_take_drop_id)
  moreover have "2 \<le> length (rfc_frame fin opc (Some key) p @ rest)"
    using ext_len_ge_2 [of "length p"] by (simp add: length_rfc_frame)
  then have "2 \<le> len"
    using assms(1,2) by (metis length_take min.absorb2)
  ultimately have "decode (alloc srv) buf len acc = Inr (fin, acc @ p, opc)"
    using decode_masked [of len opc acc p "alloc srv" key fin "rest @ drop len buf"] assms(3-6) by metis
  then show ?thesis
    by (rule receive_decoded) (rule refl)
qed

lemma ws_decoded_more: "ws_decoded srv h False op p (talking h op p f, i) = (Inr (), (talking h op p f, i))"
  by (simp add: ws_decoded_def thenA_app try_onlyA_def tryA_def)

lemma ws_decoded_dispatch:
  assumes "ws_dispatch srv h op p (talking h op p f, i) = (Inr (), (talking h op p' f, i'))"
  shows "ws_decoded srv h True op p (talking h op p f, i) = (Inr (), (talking h op [] f, i'))"
  using assms by (simp add: ws_decoded_def thenA_app try_onlyA_def tryA_def)

section \<open>Messages\<close>

type_synonym message = "byte \<times> (byte list \<times> byte list) list"

fun fragment_frames :: "byte \<Rightarrow> (byte list \<times> byte list) list \<Rightarrow> byte list list" where
  "fragment_frames opc [] = []"
| "fragment_frames opc ((key, p) # frs) =
     rfc_frame (frs = []) opc (Some key) p # fragment_frames OPCODE_CONTINUATION frs"

definition message_frames :: "message \<Rightarrow> byte list list" where
  "message_frames = (\<lambda>(op, frs). fragment_frames op frs)"

definition message_payload :: "(byte list \<times> byte list) list \<Rightarrow> byte list" where
  "message_payload frs = concat (map snd frs)"

definition echo_of :: "message \<Rightarrow> byte list" where
  "echo_of = (\<lambda>(op, frs). rfc_frame True op None (message_payload frs))"

definition fragments_ok :: "(byte list \<times> byte list) list \<Rightarrow> bool" where
  "fragments_ok frs \<longleftrightarrow> (\<forall>(key, p) \<in> set frs. length key = 4 \<and> ext_len (length p) + 4 + length p \<le> MAX_SIZE)"

text \<open>What the echo handler can echo: a text or binary message of at most 65535 bytes, no NUL in a
  text, and no empty first fragment (unless it is the only one).\<close>

definition message_ok :: "message \<Rightarrow> bool" where
  "message_ok = (\<lambda>(op, frs). op \<in> {OPCODE_TEXT, OPCODE_BINARY} \<and> frs \<noteq> [] \<and> fragments_ok frs
     \<and> (tl frs = [] \<or> snd (hd frs) \<noteq> []) \<and> length (message_payload frs) \<le> 65535
     \<and> (op = OPCODE_TEXT \<longrightarrow> 0 \<notin> set (message_payload frs)))"

lemma message_payload_simps [simp]:
  "message_payload [] = []"
  "message_payload ((key, p) # frs) = p @ message_payload frs"
  by (simp_all add: message_payload_def)

lemma fragments_ok_simps [simp]:
  "fragments_ok []"
  "fragments_ok ((key, p) # frs) \<longleftrightarrow>
     length key = 4 \<and> ext_len (length p) + 4 + length p \<le> MAX_SIZE \<and> fragments_ok frs"
  by (auto simp: fragments_ok_def)

text \<open>The echo of a complete message.\<close>

lemma dispatch_echo:
  assumes "op \<in> {OPCODE_TEXT, OPCODE_BINARY}" and "length p \<le> 65535"
    and "op = OPCODE_TEXT \<longrightarrow> 0 \<notin> set p" and "alloc srv (length p + 1)"
    and "conn_ready (length (rfc_frame True op None p) + n) i"
  shows "\<exists>p' i'. ws_dispatch srv ws_echo_handler op p (talking ws_echo_handler op p f, i) =
      (Inr (), (talking ws_echo_handler op p' f, i'))
    \<and> io_wire i' = io_wire i @ rfc_frame True op None p \<and> conn_ready n i' \<and> io_rest i' = io_rest i"
proof (cases "op = OPCODE_TEXT")
  case True
  have other: "op \<noteq> OPCODE_CONTINUATION" "op \<noteq> OPCODE_CONNECTION_CLOSE" "op \<noteq> OPCODE_CONNECTION_PING"
    "op \<noteq> OPCODE_BINARY"
    using True by (simp_all add: opcode_defs)
  have grow: "vec_resize (alloc srv) p (length p + 1) = Inr (p @ [0])"
    using assms(2,4) by (simp add: vec_resize_ok resized_grow)
  obtain i' where "ws_send_text (p @ [0]) i = (Inr (length p), i')"
    "io_wire i' = io_wire i @ rfc_frame True OPCODE_TEXT None p" "conn_ready n i'" "io_rest i' = io_rest i"
    using ws_send_text_ready [of p n i "[]"] assms(2,3,5) True by blast
  with other grow True show ?thesis
    by (auto simp: ws_dispatch_def thenA_app on_io_app ws_echo_handler_def echo_onText_def)
next
  case False
  then have bin: "op = OPCODE_BINARY" using assms(1) by simp
  have other: "op \<noteq> OPCODE_CONTINUATION" "op \<noteq> OPCODE_CONNECTION_CLOSE" "op \<noteq> OPCODE_CONNECTION_PING"
    using bin by (simp_all add: opcode_defs)
  obtain i' where "ws_send_data p (length p) i = (Inr (length p), i')"
    "io_wire i' = io_wire i @ rfc_frame True OPCODE_BINARY None p" "conn_ready n i'" "io_rest i' = io_rest i"
    using ws_send_data_ready [of p n i "[]"] assms(2,5) bin by auto
  with other bin show ?thesis
    by (auto simp: ws_dispatch_def thenA_app on_io_app ws_echo_handler_def echo_onData_def)
qed

lemma dispatch_close:
  assumes "conn_ready (4 + n) i"
  shows "\<exists>i'. ws_dispatch srv h OPCODE_CONNECTION_CLOSE p (st, i) = (Inr (), (st, i'\<lparr>io_closed := True\<rparr>))
    \<and> io_wire i' = io_wire i @ close_frame \<and> io_rest i' = io_rest i"
  using ws_close_ready [OF assms]
  by (auto simp: ws_dispatch_def on_io_app opcode_defs)

section \<open>A conversation of messages\<close>

definition small_allocs :: "'u http_server \<Rightarrow> bool" where
  "small_allocs srv \<longleftrightarrow> (\<forall>n \<le> 65536. alloc srv n)"

lemma length_frame_fragment:
  "length key = 4 \<Longrightarrow> length (rfc_frame fin opc (Some key) p) = ext_len (length p) + 4 + length p"
  by (simp add: length_rfc_frame)

text \<open>One fragment: in the middle of a message it is kept, at its end the message is echoed.\<close>

lemma receive_fragment:
  assumes "small_allocs srv" and "length buf = MAX_SIZE" and "take (length d) buf = d"
    and "d = rfc_frame (frs = []) opc (Some key) p" and "opc \<le> 15"
    and "fragments_ok ((key, p) # frs)" and "op' = (if acc = [] then opc else op)"
    and "op' \<in> {OPCODE_TEXT, OPCODE_BINARY}"
    and "length (acc @ p @ message_payload frs) \<le> 65535"
    and "op' = OPCODE_TEXT \<longrightarrow> 0 \<notin> set (acc @ p @ message_payload frs)"
    and "conn_ready (length (rfc_frame True op' None (acc @ p @ message_payload frs)) + n) i"
  shows "\<exists>acc' i'. http_onReceive srv buf (length d) (talking ws_echo_handler op acc f, i) =
      (Inr (), (talking ws_echo_handler op' acc' f, i'))
    \<and> io_rest i' = io_rest i
    \<and> (if frs = [] then acc' = [] \<and> io_wire i' = io_wire i @ rfc_frame True op' None (acc @ p) \<and> conn_ready n i'
       else acc' = acc @ p \<and> i' = i)"
proof -
  have len: "length d \<le> length buf"
    using assms(3) by (metis length_take min.cobounded1)
  have size: "length acc + length p \<le> 65535" and key: "length key = 4"
    using assms(6,9) by simp_all
  have "take (length d) buf = rfc_frame (frs = []) opc (Some key) p @ []"
    using assms(3,4) by simp
  then have run: "http_onReceive srv buf (length d) (talking ws_echo_handler op acc f, i) =
      ws_decoded srv ws_echo_handler (frs = []) op' (acc @ p) (talking ws_echo_handler op' (acc @ p) f, i)"
    using receive_frame [OF _ len assms(5) key, of "frs = []" p "[]" acc srv ws_echo_handler op f i]
      assms(1,7) size by (simp add: small_allocs_def)
  show ?thesis
  proof (cases "frs = []")
    case False
    then show ?thesis
      unfolding run by (simp add: ws_decoded_more)
  next
    case True
    have "alloc srv (length (acc @ p) + 1)"
      using assms(1) size by (simp add: small_allocs_def)
    from dispatch_echo [OF assms(8) _ _ this, of n i f] obtain p' i' where
      "ws_dispatch srv ws_echo_handler op' (acc @ p) (talking ws_echo_handler op' (acc @ p) f, i) =
        (Inr (), (talking ws_echo_handler op' p' f, i'))"
      "io_wire i' = io_wire i @ rfc_frame True op' None (acc @ p)" "conn_ready n i'" "io_rest i' = io_rest i"
      using assms(9-11) True by auto
    with True show ?thesis
      unfolding run by (auto dest!: ws_decoded_dispatch)
  qed
qed

text \<open>The conversation: the rest of a message (if one has begun), whole messages, a close frame.
  What has gone out together with the replies to come is \<open>all\<close>.\<close>

definition replies :: "byte \<Rightarrow> byte list \<Rightarrow> (byte list \<times> byte list) list \<Rightarrow> message list \<Rightarrow> byte list" where
  "replies op acc frs msgs =
     (if frs = [] then [] else rfc_frame True op None (acc @ message_payload frs))
     @ concat (map echo_of msgs) @ close_frame"

definition segments_of ::
  "(byte list \<times> byte list) list \<Rightarrow> message list \<Rightarrow> byte list \<times> byte list \<Rightarrow> byte list list"
where
  "segments_of frs msgs = (\<lambda>(ck, cp). fragment_frames OPCODE_CONTINUATION frs
     @ concat (map message_frames msgs) @ [rfc_frame True OPCODE_CONNECTION_CLOSE (Some ck) cp])"

definition begun_ok :: "byte \<Rightarrow> byte list \<Rightarrow> (byte list \<times> byte list) list \<Rightarrow> bool" where
  "begun_ok op acc frs \<longleftrightarrow> (acc = [] \<longleftrightarrow> frs = []) \<and> fragments_ok frs
     \<and> (frs \<noteq> [] \<longrightarrow> op \<in> {OPCODE_TEXT, OPCODE_BINARY} \<and> length (acc @ message_payload frs) \<le> 65535
        \<and> (op = OPCODE_TEXT \<longrightarrow> 0 \<notin> set (acc @ message_payload frs)))"

definition ws_talk :: "byte list \<Rightarrow> byte list list \<Rightarrow> 'u http_fsm \<times> 'u io \<Rightarrow> bool" where
  "ws_talk all ds = (\<lambda>(f, i).
     (ds = [] \<and> io_closed i \<and> io_wire i = all \<and> (\<exists>op p f0. f = talking ws_echo_handler op p f0))
     \<or> (\<exists>op acc frs msgs cl f0. f = talking ws_echo_handler op acc f0
          \<and> ds = segments_of frs msgs cl \<and> begun_ok op acc frs \<and> (\<forall>m \<in> set msgs. message_ok m)
          \<and> fragments_ok [cl] \<and> io_wire i @ replies op acc frs msgs = all
          \<and> conn_ready (length (replies op acc frs msgs)) i))"

lemma ws_talkI:
  "f = talking ws_echo_handler op acc f0 \<Longrightarrow> ds = segments_of frs msgs cl \<Longrightarrow> begun_ok op acc frs \<Longrightarrow>
   \<forall>m \<in> set msgs. message_ok m \<Longrightarrow> fragments_ok [cl] \<Longrightarrow> io_wire i @ replies op acc frs msgs = all \<Longrightarrow>
   conn_ready (length (replies op acc frs msgs)) i \<Longrightarrow> ws_talk all ds (f, i)"
  unfolding ws_talk_def by blast

lemma opcode_le_15 [simp]:
  "OPCODE_TEXT \<le> 15" "OPCODE_BINARY \<le> 15" "OPCODE_CONTINUATION \<le> 15" "OPCODE_CONNECTION_CLOSE \<le> 15"
  by (simp_all add: opcode_defs)

text \<open>A fragment of a message, begun or not.\<close>

lemma talk_fragment:
  assumes "small_allocs srv" and "length buf = MAX_SIZE" and "take (length d) buf = d"
    and "d = rfc_frame (frs = []) opc (Some key) p" and "opc \<le> 15"
    and "op' = (if acc = [] then opc else op)" and "acc @ p \<noteq> [] \<or> frs = []"
    and "fragments_ok ((key, p) # frs)" and "op' \<in> {OPCODE_TEXT, OPCODE_BINARY}"
    and "length (acc @ p @ message_payload frs) \<le> 65535"
    and "op' = OPCODE_TEXT \<longrightarrow> 0 \<notin> set (acc @ p @ message_payload frs)"
    and "\<forall>m \<in> set msgs. message_ok m" and "fragments_ok [cl]"
    and "io_wire i @ rfc_frame True op' None (acc @ p @ message_payload frs)
      @ concat (map echo_of msgs) @ close_frame = all"
    and "conn_ready (length (rfc_frame True op' None (acc @ p @ message_payload frs)
      @ concat (map echo_of msgs) @ close_frame)) i"
  shows "\<exists>h' i'. http_onReceive srv buf (length d) (talking ws_echo_handler op acc f0, i) = (Inr (), (h', i'))
    \<and> ws_talk all (segments_of frs msgs cl) (h', i') \<and> io_rest i' = io_rest i"
proof -
  let ?n = "length (concat (map echo_of msgs) @ close_frame)"
  have "conn_ready (length (rfc_frame True op' None (acc @ p @ message_payload frs)) + ?n) i"
    using assms(15) by simp
  from receive_fragment [OF assms(1-5,8,6,9-11) this] obtain acc' i' where
    run: "http_onReceive srv buf (length d) (talking ws_echo_handler op acc f0, i) =
      (Inr (), (talking ws_echo_handler op' acc' f0, i'))" "io_rest i' = io_rest i"
    and split: "if frs = [] then acc' = [] \<and> io_wire i' = io_wire i @ rfc_frame True op' None (acc @ p) \<and> conn_ready ?n i'
       else acc' = acc @ p \<and> i' = i"
    by blast
  have "ws_talk all (segments_of frs msgs cl) (talking ws_echo_handler op' acc' f0, i')"
  proof (rule ws_talkI [OF refl refl _ assms(12,13)])
    show "begun_ok op' acc' frs"
      using split assms(7-11) by (auto simp: begun_ok_def split: if_splits)
    show "io_wire i' @ replies op' acc' frs msgs = all"
      using split assms(14) by (auto simp: replies_def split: if_splits)
    show "conn_ready (length (replies op' acc' frs msgs)) i'"
      using split assms(15) by (auto simp: replies_def split: if_splits)
  qed
  with run show ?thesis by blast
qed

lemma talk_close:
  assumes "small_allocs srv" and "length buf = MAX_SIZE" and "take (length d) buf = d"
    and "d = rfc_frame True OPCODE_CONNECTION_CLOSE (Some ck) cp" and "fragments_ok [(ck, cp)]"
    and "io_wire i @ close_frame = all" and "conn_ready (length close_frame) i"
  shows "\<exists>h' i'. http_onReceive srv buf (length d) (talking ws_echo_handler op [] f0, i) = (Inr (), (h', i'))
    \<and> ws_talk all [] (h', i') \<and> io_polls i' = io_polls i \<and> io_recvs i' = io_recvs i
    \<and> io_signalStatus i' = io_signalStatus i"
proof -
  let ?cl = OPCODE_CONNECTION_CLOSE
  have len: "length d \<le> length buf"
    using assms(3) by (metis length_take min.cobounded1)
  have size: "length cp \<le> 65535" and key: "length ck = 4"
    using assms(5) by (simp_all add: MAX_SIZE_def)
  have "take (length d) buf = rfc_frame True ?cl (Some ck) cp @ []"
    using assms(3,4) by simp
  then have run: "http_onReceive srv buf (length d) (talking ws_echo_handler op [] f0, i) =
      ws_decoded srv ws_echo_handler True ?cl cp (talking ws_echo_handler ?cl cp f0, i)"
    using receive_frame [OF _ len _ key, of True ?cl cp "[]" "[]" srv ws_echo_handler op f0 i]
      assms(1) size by (simp add: small_allocs_def)
  have "length close_frame = 4" by (simp add: close_frame_def)
  with assms(7) have "conn_ready (4 + 0) i" by simp
  from dispatch_close [OF this, of srv ws_echo_handler cp "talking ws_echo_handler ?cl cp f0"]
  obtain i' where i': "ws_dispatch srv ws_echo_handler ?cl cp (talking ws_echo_handler ?cl cp f0, i) =
      (Inr (), (talking ws_echo_handler ?cl cp f0, i'\<lparr>io_closed := True\<rparr>))"
    "io_wire i' = io_wire i @ close_frame" "io_rest i' = io_rest i"
    by blast
  from ws_decoded_dispatch [OF i'(1)] i'(2) io_restD(1,2,5) [OF i'(3)] assms(6) show ?thesis
    unfolding run by (auto simp: ws_talk_def)
qed

text \<open>The first segment of what is still to come.\<close>

lemma segments_of_begun:
  "segments_of ((key, p) # frs) msgs cl =
     rfc_frame (frs = []) OPCODE_CONTINUATION (Some key) p # segments_of frs msgs cl"
  by (simp add: segments_of_def case_prod_unfold)

lemma segments_of_message:
  "segments_of [] ((op, (key, p) # frs) # msgs) cl =
     rfc_frame (frs = []) op (Some key) p # segments_of frs msgs cl"
  by (simp add: segments_of_def message_frames_def case_prod_unfold)

lemma segments_of_close:
  "segments_of [] [] (ck, cp) = [rfc_frame True OPCODE_CONNECTION_CLOSE (Some ck) cp]"
  by (simp add: segments_of_def)

lemma segments_cases:
  assumes "\<forall>m \<in> set msgs. message_ok m"
  obtains (begun) key p frs' where "frs = (key, p) # frs'"
    | (message) op1 key p frs' msgs' where "frs = []" "msgs = (op1, (key, p) # frs') # msgs'"
    | (close) ck cp where "frs = []" "msgs = []" "cl = (ck, cp)"
proof (cases frs)
  case (Cons fr frs')
  then show thesis using begun by (cases fr) blast
next
  case frs: Nil
  show thesis
  proof (cases msgs)
    case (Cons m msgs')
    moreover obtain op1 frs1 where m: "m = (op1, frs1)" by (cases m)
    ultimately have "frs1 \<noteq> []" using assms by (simp add: message_ok_def)
    then obtain key p frs' where "frs1 = (key, p) # frs'" by (cases frs1) auto
    with m Cons frs show thesis using message by blast
  next
    case Nil
    then show thesis using close frs by (cases cl) blast
  qed
qed

lemma ws_talk_segment:
  assumes "small_allocs srv" and "ws_talk all (d # ds) (h, i)"
    and "length buf = MAX_SIZE" and "take (length d) buf = d"
  shows "\<exists>h' i'. http_onReceive srv buf (length d) (h, i) = (Inr (), (h', i')) \<and> ws_talk all ds (h', i')
    \<and> io_polls i' = io_polls i \<and> io_recvs i' = io_recvs i \<and> io_signalStatus i' = io_signalStatus i"
proof -
  obtain op acc frs msgs cl f0 where h: "h = talking ws_echo_handler op acc f0"
    and ds: "d # ds = segments_of frs msgs cl" and begun: "begun_ok op acc frs"
    and msgs: "\<forall>m \<in> set msgs. message_ok m" and cl: "fragments_ok [cl]"
    and out: "io_wire i @ replies op acc frs msgs = all"
    and ready: "conn_ready (length (replies op acc frs msgs)) i"
    using assms(2) by (auto simp: ws_talk_def)
  note step = talk_fragment [OF assms(1,3,4)]
  show ?thesis
  using msgs
  proof (cases rule: segments_cases [where frs = frs and cl = cl])
    case (begun key p frs')
    have d: "d = rfc_frame (frs' = []) OPCODE_CONTINUATION (Some key) p" "ds = segments_of frs' msgs cl"
      using ds begun by (simp_all add: segments_of_begun)
    have acc: "acc \<noteq> []" "fragments_ok ((key, p) # frs')" "op \<in> {OPCODE_TEXT, OPCODE_BINARY}"
      "length (acc @ p @ message_payload frs') \<le> 65535"
      "op = OPCODE_TEXT \<longrightarrow> 0 \<notin> set (acc @ p @ message_payload frs')"
      using \<open>begun_ok op acc frs\<close> begun by (simp_all add: begun_ok_def)
    have echo: "replies op acc frs msgs = rfc_frame True op None (acc @ p @ message_payload frs')
        @ concat (map echo_of msgs) @ close_frame"
      using begun by (simp add: replies_def)
    have op: "op = (if acc = [] then OPCODE_CONTINUATION else op)" and ne: "acc @ p \<noteq> [] \<or> frs' = []"
      using acc(1) by simp_all
    show ?thesis
      unfolding h d(2)
      using step [OF d(1) opcode_le_15(3) op ne acc(2-5) msgs cl out [unfolded echo] ready [unfolded echo]]
        io_restD(1,2,5) by blast
  next
    case (message op1 key p frs' msgs')
    have m: "message_ok (op1, (key, p) # frs')" "\<forall>m \<in> set msgs'. message_ok m"
      using msgs message(2) by simp_all
    have acc: "acc = []" using \<open>begun_ok op acc frs\<close> message(1) by (simp add: begun_ok_def)
    have d: "d = rfc_frame (frs' = []) op1 (Some key) p" "ds = segments_of frs' msgs' cl"
      using ds message by (simp_all add: segments_of_message)
    have echo: "replies op acc frs msgs =
        rfc_frame True op1 None (acc @ p @ message_payload frs') @ concat (map echo_of msgs') @ close_frame"
      using message by (simp add: replies_def echo_of_def acc)
    have frag: "fragments_ok ((key, p) # frs')" "op1 \<in> {OPCODE_TEXT, OPCODE_BINARY}"
      "length (acc @ p @ message_payload frs') \<le> 65535"
      "op1 = OPCODE_TEXT \<longrightarrow> 0 \<notin> set (acc @ p @ message_payload frs')"
      using m(1) by (simp_all add: message_ok_def acc)
    have op: "op1 = (if acc = [] then op1 else op)" and ne: "acc @ p \<noteq> [] \<or> frs' = []" and "op1 \<le> 15"
      using m(1) by (auto simp: message_ok_def acc)
    show ?thesis
      unfolding h d(2)
      using step [OF d(1) \<open>op1 \<le> 15\<close> op ne frag m(2) cl out [unfolded echo] ready [unfolded echo]]
        io_restD(1,2,5) by blast
  next
    case (close ck cp)
    have acc: "acc = []" using \<open>begun_ok op acc frs\<close> close(1) by (simp add: begun_ok_def)
    have d: "d = rfc_frame True OPCODE_CONNECTION_CLOSE (Some ck) cp" "ds = []"
      using ds close by (simp_all add: segments_of_close)
    have echo: "replies op acc frs msgs = close_frame"
      using close by (simp add: replies_def)
    show ?thesis
      unfolding h d(2) acc
      using talk_close [OF assms(1,3,4) d(1), of i all op f0] cl out ready close(3)
      unfolding echo by blast
  qed
qed

lemma ws_talk_first:
  assumes "ws_talk all (d # ds) (h, i)"
  shows "\<not> io_closed i \<and> d \<noteq> [] \<and> length d \<le> MAX_SIZE"
proof -
  obtain op acc frs msgs cl where
    ds: "d # ds = segments_of frs msgs cl" and begun: "begun_ok op acc frs"
    and msgs: "\<forall>m \<in> set msgs. message_ok m" and cl: "fragments_ok [cl]"
    and ready: "conn_ready (length (replies op acc frs msgs)) i"
    using assms by (auto simp: ws_talk_def)
  have "\<exists>fin opc key p. d = rfc_frame fin opc (Some key) p \<and> fragments_ok [(key, p)]"
  proof (cases frs)
    case (Cons fr frs')
    with ds begun show ?thesis
      by (cases fr) (auto simp: segments_of_begun begun_ok_def)
  next
    case Nil
    show ?thesis
    proof (cases msgs)
      case (Cons m msgs')
      obtain op1 frs1 where m: "m = (op1, frs1)" by (cases m)
      with Cons msgs obtain key p frs' where "frs1 = (key, p) # frs'" "fragments_ok frs1"
        by (cases frs1) (auto simp: message_ok_def)
      with m Cons Nil ds show ?thesis
        by (auto simp: segments_of_message)
    next
      case msgs_Nil: Nil
      with Nil ds cl show ?thesis
        by (cases cl) (auto simp: segments_of_close)
    qed
  qed
  then obtain fin opc key p where d: "d = rfc_frame fin opc (Some key) p" "fragments_ok [(key, p)]"
    by blast
  then have "length d = ext_len (length p) + 4 + length p" by (simp add: length_rfc_frame)
  then have "0 < length d \<and> length d \<le> MAX_SIZE"
    using d(2) by simp
  with ready show ?thesis by (auto simp: conn_ready_def)
qed

lemma ws_talk_conversation:
  fixes srv :: "'u http_server"
  assumes "small_allocs srv"
  shows "conversation (http_handler srv) (ws_talk all)"
proof
  fix d ds buf and h :: "'u http_fsm" and i
  assume "ws_talk all (d # ds) (h, i)" and "length buf = MAX_SIZE" and "take (length d) buf = d"
  from ws_talk_segment [OF assms this]
  show "\<exists>h' i'. sh_onReceive (http_handler srv) buf (length d) (h, i) = (Inr (), (h', i')) \<and>
      ws_talk all ds (h', i') \<and> io_polls i' = io_polls i \<and> io_recvs i' = io_recvs i \<and>
      io_signalStatus i' = io_signalStatus i"
    by (simp add: http_handler_def)
next
  fix d ds and h :: "'u http_fsm" and i
  assume "ws_talk all (d # ds) (h, i)"
  from ws_talk_first [OF this] show "\<not> io_closed i" and "d \<noteq> [] \<and> length d \<le> MAX_SIZE"
    by simp_all
next
  fix ds ps rs and h :: "'u http_fsm" and i
  assume "ws_talk all ds (h, i)"
  then show "ws_talk all ds (h, i\<lparr>io_polls := ps, io_recvs := rs\<rparr>)"
    by (auto simp: ws_talk_def conn_ready_def io_willing_def)
qed

section \<open>The upgrade\<close>

definition switching_protocols :: "string \<Rightarrow> string \<Rightarrow> string" where
  "switching_protocols subprotocol accept =
     ''HTTP/1.1 101 Switching Protocols'' @ CRLF @ ''Upgrade: websocket'' @ CRLF
     @ ''Connection: Upgrade'' @ CRLF @ ''Sec-WebSocket-Version: 13'' @ CRLF
     @ (if subprotocol = [] then [] else ''Sec-WebSocket-Protocol: '' @ subprotocol @ CRLF)
     @ ''Sec-WebSocket-Accept: '' @ accept @ CRLF @ CRLF"

text \<open>A client's key has 24 characters; what follows it on its line is cut off.\<close>

lemma upgrade_response_key:
  "length key = 24 \<Longrightarrow> upgrade_response srv sub (key @ junk) =
     switching_protocols sub (base64 srv (sha1 srv (key @ WS_GUID)))"
  unfolding upgrade_response_def createAcceptKey_def switching_protocols_def
  by (simp del: append_Cons)

lemma header_map_lookup: "header_map hs k = map_option (\<lambda>v. v @ [CR]) (map_of hs k)"
  by (induction hs) (auto simp: header_map_def)

definition upgraded :: "string \<Rightarrow> (string \<times> string) list \<Rightarrow> 'u ws_handler \<Rightarrow> 'u http_fsm" where
  "upgraded path hs h =
     \<lparr>curState = HttpWsState h 0 [], nextState = None,
      requestInfo = \<lparr>ri_requestType = GET_WS, ri_path = path @ replicate (MAX_PATH_LEN - length path) NUL,
        ri_headers = header_map hs\<rparr>\<rparr>"

lemma request_done_upgrade:
  assumes "path_ok path" and "query_ok query" and "headers_ok hs" and "isWsRequest (header_map hs)"
    and "map_of hs ''Sec-WebSocket-Key'' = Some key" and "length key = 24"
    and "t = render_request path query hs" and "length t < RECV_SIZE"
    and "wsHandlerFactory srv = retA h"
    and "out = bytes_of (switching_protocols (wh_subprotocol h) (base64 srv (sha1 srv (key @ WS_GUID))))"
    and "length out < 2 ^ 64" and "conn_ready (length out + n) i"
    and "\<And>i. fst (wh_onConnect h i) = Inr ()"
  shows "\<exists>i'. request_done srv t (waiting t, i) = (Inr (), (upgraded path hs h, snd (wh_onConnect h i')))
    \<and> io_wire i' = io_wire i @ out \<and> conn_ready n i'
    \<and> io_rest i' = io_rest (i\<lparr>io_log := io_log i @ [Log_Request ''GET_WS'' path]\<rparr>)"
proof -
  let ?ri = "requestInfo (upgraded path hs h)"
  let ?i = "logged_request ?ri path i"
  have "4 \<le> length t" using render_request_ends assms(7) unfolding ends_request_def by blast
  then have parsed: "parse_request (padded t) (length t) request_info_new = (Inr (), ?ri)"
    using parse_request_render [OF assms(1-3) padded_NUL [OF assms(8), unfolded assms(7)]] assms(4,7)
    by (simp add: upgraded_def)
  have rpath: "request_path ?ri = Inr path"
    using request_path_request_for [of path] path_okD [OF assms(1)] assms(1)
    by (simp add: request_path_def request_for_def path_ok_def upgraded_def)
  have key: "ri_headers ?ri ''Sec-WebSocket-Key'' = Some (key @ [CR])"
    using assms(5) by (simp add: upgraded_def header_map_lookup)
  have "conn_ready (length out + n) ?i" using assms(12) by (simp add: logged_request_def)
  from tcp.send_ready [OF this assms(11)] obtain i2 where
    i2: "conn_send out ?i = (Inr (of_nat (length out)), i2)" "io_wire i2 = io_wire i @ out"
      "conn_ready n i2" "io_rest i2 = io_rest ?i"
    by (auto simp: logged_request_def)
  obtain i3 where i3: "wh_onConnect h i2 = (Inr (), i3)"
    using assms(13) by (metis prod.collapse)
  have "conn_send_chars (upgrade_response srv (wh_subprotocol h) (key @ [CR])) ?i = (Inr (of_nat (length out)), i2)"
    using i2(1) by (simp add: upgrade_response_key [OF assms(6)] assms(10) conn_send_chars_def)
  from request_done_ws [OF parsed rpath _ assms(9) key this i3] i2 i3 show ?thesis
    by (intro exI [of _ i2]) (simp add: upgraded_def logged_request_def)
qed

section \<open>Properties\<close>


definition ws_headers :: "(string \<times> string) list" where
  "ws_headers =
     [(''Upgrade'', ''websocket''), (''Connection'', ''keep-alive, Upgrade''),
      (''Sec-WebSocket-Key'', ''dGhlIHNhbXBsZSBub25jZQ=='')]"

lemma ws_headers_ok:
  "headers_ok ws_headers" "isWsRequest (header_map ws_headers)"
  "map_of ws_headers ''Sec-WebSocket-Key'' = Some ''dGhlIHNhbXBsZSBub25jZQ==''"
  by code_simp+


text \<open>The echo server's upgrade, after which the client talks.\<close>

lemma serve_ws_echo_simps [simp]:
  "wsHandlerFactory (serve_ws_echo sha b64 al) = retA ws_echo_handler"
  "base64 (serve_ws_echo sha b64 al) = b64" "sha1 (serve_ws_echo sha b64 al) = sha"
  "alloc (serve_ws_echo sha b64 al) = al" "wh_subprotocol ws_echo_handler = []"
  by (simp_all add: serve_ws_echo_def http_server_of_def ws_factory_default_def ws_echo_handler_def default_subprotocol_def)

lemma ws_echo_request:
  assumes "path_ok path" and "query_ok query" and "headers_ok hs" and "isWsRequest (header_map hs)"
    and "map_of hs ''Sec-WebSocket-Key'' = Some key" and "length key = 24"
    and "t = render_request path query hs" and "length t < RECV_SIZE"
    and "\<forall>m \<in> set msgs. message_ok m" and "fragments_ok [cl]"
    and "accept = bytes_of (switching_protocols [] (b64 (sha (key @ WS_GUID))))" and "length accept < 2 ^ 64"
    and "out = accept @ concat (map echo_of msgs) @ close_frame" and "conn_ready (length out) i" and "io_wire i = []"
  shows "\<exists>h' i'. request_done (serve_ws_echo sha b64 al) t (waiting t, i) = (Inr (), (h', i'))
    \<and> ws_talk out (segments_of [] msgs cl) (h', i')
    \<and> io_polls i' = io_polls i \<and> io_recvs i' = io_recvs i \<and> io_signalStatus i' = io_signalStatus i"
proof -
  let ?srv = "serve_ws_echo sha b64 al" and ?n = "length (concat (map echo_of msgs) @ close_frame)"
  have ready: "conn_ready (length accept + ?n) i" using assms(13,14) by simp
  have accept: "accept = bytes_of (switching_protocols (wh_subprotocol ws_echo_handler)
      (base64 ?srv (sha1 ?srv (key @ WS_GUID))))"
    by (simp add: assms(11))
  have connect: "fst (wh_onConnect ws_echo_handler i) = Inr ()" for i
    by (simp add: ws_echo_handler_def log_io_def)
  from request_done_upgrade [OF assms(1-8) serve_ws_echo_simps(1) accept assms(12) ready connect]
  obtain i1 where run: "request_done ?srv t (waiting t, i) =
      (Inr (), (upgraded path hs ws_echo_handler, snd (wh_onConnect ws_echo_handler i1)))"
    and i1: "io_wire i1 = accept" "conn_ready ?n i1"
      "io_rest i1 = io_rest (i\<lparr>io_log := io_log i @ [Log_Request ''GET_WS'' path]\<rparr>)"
    using assms(15) by auto
  let ?i' = "snd (wh_onConnect ws_echo_handler i1)"
  have i': "?i' = i1\<lparr>io_log := io_log i1 @ [Log_Info ''WebSocket connect.'']\<rparr>"
    by (simp add: ws_echo_handler_def log_io_def)
  have talking: "upgraded path hs ws_echo_handler = talking ws_echo_handler 0 [] (upgraded path hs ws_echo_handler)"
    by (simp add: upgraded_def talking_def)
  have "ws_talk out (segments_of [] msgs cl) (upgraded path hs ws_echo_handler, ?i')"
    by (rule ws_talkI [OF talking refl _ assms(9,10)])
      (use i1(1,2) in \<open>simp_all add: i' begun_ok_def replies_def assms(13)\<close>)
  with run i1 io_restD(1,2,5) [OF i1(3)] show ?thesis by (simp add: i')
qed

lemma ws_talk_over:
  assumes "conversation_then C1 (segments_of [] msgs cl) (ws_talk out) [] (h, i)"
  shows "io_closed i \<and> io_wire i = out \<and> (\<exists>op p f0. h = talking ws_echo_handler op p f0)"
  using assms by (auto simp: conversation_then_def ws_talk_def segments_of_def case_prod_unfold)

text \<open>A whole WebSocket session with the echo server: request, upgrade, any text and binary
  messages in any fragments, close. Every message comes back as one unfragmented frame of its kind
  with its whole payload, in order; the close frame is answered with a close frame, and the
  connection and the descriptor are closed.\<close>

theorem ws_echo_session:
  assumes "path_ok path" and "query_ok query" and "headers_ok hs" and "isWsRequest (header_map hs)"
    and "map_of hs ''Sec-WebSocket-Key'' = Some key" and "length key = 24"
    and "concat ds = bytes_of (render_request path query hs)" and "length (concat ds) < RECV_SIZE"
    and "segments_ok [] ds" and "\<forall>m \<in> set msgs. message_ok m" and "fragments_ok [cl]"
    and "received evs = ds @ segments_of [] msgs cl" and "last evs \<noteq> None"
    and "\<forall>n \<le> 65536. al n"
    and "accept = bytes_of (switching_protocols [] (b64 (sha (key @ WS_GUID))))" and "length accept < 2 ^ 64"
    and "out = accept @ concat (map echo_of msgs) @ close_frame"
    and "length out \<le> length ss" and "\<forall>a \<in> set ss. \<exists>k > 0. a = Sent k" and "length buf = MAX_SIZE"
  shows "\<exists>f i. worker_run (http_handler (serve_ws_echo sha b64 al)) (replicate (Suc (length evs)) None) buf
        (worker_start http_fsm_new (io_start ss (recv_script evs @ rs) (poll_script evs @ ps) (u :: 'u))) =
      (Inr (), \<lparr>wk_state = (f, i), wk_isActive = False\<rparr>)
    \<and> io_wire i = out \<and> io_closed i \<and> \<not> io_fd_open i"
proof -
  let ?srv = "serve_ws_echo sha b64 al :: 'u http_server"
  let ?t = "render_request path query hs" and ?ds2 = "segments_of [] msgs cl"
  let ?P = "\<lambda>i :: 'u io. conn_ready (length out) i \<and> io_wire i = []"
  let ?Q = "\<lambda>st :: 'u http_fsm \<times> 'u io. ws_talk out ?ds2 st"
  let ?C = "conversation_then (requesting ?t ?P ?Q) ?ds2 (ws_talk out)"
  let ?i = "io_start ss (recv_script evs @ rs) (poll_script evs @ ps) u"
  have t: "chars_of (concat ds) = ?t" "length ?t < RECV_SIZE" using assms(7,8) by simp_all
  have talk: "conversation (http_handler ?srv) (ws_talk out)"
    by (rule ws_talk_conversation) (simp add: small_allocs_def assms(14))
  have request: "conversation (http_handler ?srv) (requesting ?t ?P ?Q)"
  proof (rule request_conversation [OF render_request_ends t(2)])
    fix i :: "'u io"
    assume "?P i"
    with ws_echo_request [where sha = sha and ?b64.0 = b64, OF assms(1-6) refl t(2) assms(10,11,15-17)]
    show "\<exists>h' i'. request_done ?srv ?t (waiting ?t, i) = (Inr (), (h', i')) \<and> ?Q (h', i')
        \<and> io_polls i' = io_polls i \<and> io_recvs i' = io_recvs i \<and> io_signalStatus i' = io_signalStatus i"
      by blast
  qed (auto simp: conn_ready_def io_willing_def intro: conversation.scripts [OF talk])
  have "requesting ?t ?P ?Q [] st \<Longrightarrow> ws_talk out ?ds2 st" for st
    by (simp add: requesting_def case_prod_unfold)
  then have conv: "conversation (http_handler ?srv) ?C"
    by (rule conversation_then [OF request talk])
  have "4 \<le> length (concat ds)"
    using render_request_ends [of path query hs] t(1) unfolding ends_request_def
    by (metis length_chars_of)
  then have "ds \<noteq> []" by auto
  moreover have "?P ?i" using assms(18,19) by (simp add: conn_ready_def io_willing_def)
  ultimately have "requesting ?t ?P ?Q ds (http_fsm_new, ?i)"
    using requesting_start [of ds ?P ?i ?Q] assms(9) t(1) by simp
  with \<open>ds \<noteq> []\<close> have start: "?C (received evs) (http_fsm_new, ?i)"
    by (auto simp: conversation_then_def assms(12))
  have "io_closed i" if "?C [] (h, i)" for h i
    using ws_talk_over [OF that] by blast
  then obtain f i' where loop: "worker_loop (http_handler ?srv) (replicate (Suc (length evs)) None) buf (http_fsm_new, ?i) =
      (Inr (), (f, i'))" and C: "?C [] (f, i')"
    using conversation.loop_closing [OF conv start assms(20,13), of ps rs]
    by (auto simp del: worker_loop.simps)
  have disconnect: "sh_onDisconnect (http_handler ?srv) (f, i') =
      (Inr (), (f, i'\<lparr>io_log := io_log i' @ [Log_Info ''WebSocket disconnect.'']\<rparr>))"
    using ws_talk_over [OF C]
    by (auto simp: http_handler_def http_onDisconnect_def ws_echo_handler_def on_io_app log_io_def)
  have "sh_onConnect (http_handler ?srv) (wk_state (worker_start http_fsm_new ?i)) = (Inr (), (http_fsm_new, ?i))"
    by (simp add: http_handler_def worker_start_def)
  from worker_run_returns [OF this loop disconnect] ws_talk_over [OF C] show ?thesis
    by (simp add: worker_start_def)
qed

definition demo_messages :: "message list" where
  "demo_messages =
     [(OPCODE_TEXT, [([1, 2, 3, 4], [104]), ([5, 6, 7, 8], [105])]), (OPCODE_BINARY, [([0, 0, 0, 1], [])])]"

definition demo_events :: "byte list option list" where
  "demo_events =
     map Some (bytes_of (render_request ''/'' [] ws_headers) # segments_of [] demo_messages ([9, 9, 9, 9], []))"

theorem ws_echo_session_witness:
  "\<exists>f i. worker_run (http_handler (serve_ws_echo (\<lambda>_. []) (\<lambda>_. ''accept'') (\<lambda>_. True)))
        (replicate 6 None) (replicate MAX_SIZE 0)
        (worker_start http_fsm_new (io_start (replicate 200 (Sent 1))
          (recv_script demo_events @ []) (poll_script demo_events @ []) ())) =
      (Inr (), \<lparr>wk_state = (f, i), wk_isActive = False\<rparr>)
    \<and> io_wire i = bytes_of (switching_protocols [] ''accept'')
        @ [0x81, 0x02, 104, 105] @ [0x82, 0x00] @ [0x88, 0x02, 0x00, 0x00]"
proof -
  let ?d = "bytes_of (render_request ''/'' [] ws_headers)" and ?cl = "([9, 9, 9, 9], []) :: byte list \<times> byte list"
  let ?acc = "bytes_of (switching_protocols [] ''accept'')"
  let ?out = "?acc @ concat (map echo_of demo_messages) @ close_frame"
  have p: "path_ok ''/''" "query_ok []"
    by (simp_all add: path_ok_def query_ok_def MAX_PATH_LEN_def LF_def NUL_def)
  have k: "length ''dGhlIHNhbXBsZSBub25jZQ=='' = 24" by simp
  have len: "length ?d = 116" "length ?acc = 134" by code_simp+
  have replies: "concat (map echo_of demo_messages) = [0x81, 0x02, 104, 105] @ [0x82, 0x00]"
    by code_simp
  have d: "concat [?d] = ?d" "length (concat [?d]) < RECV_SIZE" "segments_ok [] [?d]"
    using len by (auto simp: RECV_SIZE_def MAX_SIZE_def)
  have m: "\<forall>m \<in> set demo_messages. message_ok m" "fragments_ok [?cl]"
    by (simp_all add: demo_messages_def message_ok_def MAX_SIZE_def ext_len_def)
  have e: "received demo_events = [?d] @ segments_of [] demo_messages ?cl" "last demo_events \<noteq> None"
    "Suc (length demo_events) = 6"
    by (simp_all add: demo_events_def received_def comp_def segments_of_def demo_messages_def message_frames_def)
  have o: "length ?acc < 2 ^ 64" "length ?out \<le> length (replicate 200 (Sent 1))"
    using len(2) by (simp_all add: replies close_frame_def)
  have x: "\<forall>n \<le> (65536 :: nat). True" "\<forall>a \<in> set (replicate 200 (Sent 1)). \<exists>k > 0. a = Sent k"
    "length (replicate MAX_SIZE 0 :: byte list) = MAX_SIZE"
    by simp_all
  from ws_echo_session [OF p ws_headers_ok k d m e(1,2), of "\<lambda>_. True" ?acc "\<lambda>_. ''accept''" "\<lambda>_. []" ?out
      "replicate 200 (Sent 1)" "replicate MAX_SIZE 0" "[]" "[]" "()", OF x(1) refl o(1) refl o(2) x(2,3)]
  show ?thesis
    unfolding e(3) replies close_frame_def by auto
qed

text \<open>C34. One frame per segment: when the client's next frame arrives in the same segment, it is
  lost. The call does exactly what it does for the first frame alone, whatever follows it and
  whatever the handler.\<close>

theorem ws_second_frame_dropped:
  assumes "opc \<le> 15" and "length key = 4" and "length acc + length p < 2 ^ 63"
    and "alloc srv (length acc + length p)" and "frame = rfc_frame fin opc (Some key) p"
  shows "http_onReceive srv (frame @ next_frame) (length (frame @ next_frame)) (talking h op acc f, i) =
    http_onReceive srv frame (length frame) (talking h op acc f, i)"
  using receive_frame [OF _ _ assms(1-4), of "length (frame @ next_frame)" "frame @ next_frame" fin next_frame h op f i]
    receive_frame [OF _ _ assms(1-4), of "length frame" frame fin "[]" h op f i] assms(5)
  by simp

theorem ws_second_frame_dropped_witness:
  "http_onReceive demo_server ([0x82, 0x81, 0, 0, 0, 0, 7] @ [0x82, 0x81, 0, 0, 0, 0, 8]) 14
      (talking ws_echo_handler 0 [] http_fsm_new, idle_io) =
    http_onReceive demo_server [0x82, 0x81, 0, 0, 0, 0, 7] 7 (talking ws_echo_handler 0 [] http_fsm_new, idle_io)"
proof -
  let ?a = "[0x82, 0x81, 0, 0, 0, 0, 7] :: byte list" and ?b = "[0x82, 0x81, 0, 0, 0, 0, 8] :: byte list"
  have frame: "?a = rfc_frame True 2 (Some [0, 0, 0, 0]) [7]"
    by code_simp
  have n: "length (?a @ ?b) = 14" "length ?a = 7" by simp_all
  have al: "alloc demo_server k" for k
    by (simp add: serve_ws_echo_def http_server_of_def)
  have "(2 :: byte) \<le> 15" "length [0, 0, 0, 0 :: byte] = 4" "length ([] :: byte list) + length [7 :: byte] < 2 ^ 63"
    by simp_all
  from ws_second_frame_dropped [OF this al frame, of ?b ws_echo_handler 0 http_fsm_new idle_io]
  show ?thesis unfolding n .
qed

text \<open>A ping is answered with the bare payload: not a pong frame but the bytes of its payload
  go out, which the client takes for the start of a frame.\<close>

theorem ws_ping_answered_raw:
  assumes "length key = 4" and "length p \<le> 125" and "alloc srv (length p)"
    and "frame = rfc_frame True OPCODE_CONNECTION_PING (Some key) p"
    and "\<not> io_closed i" and "\<forall>a \<in> set (io_sends i). \<exists>k > 0. a = Sent k"
    and "length p \<le> length (io_sends i)"
  shows "\<exists>f' i'. http_onReceive srv frame (length frame) (talking h op [] f, i) = (Inr (), (f', i'))
    \<and> io_wire i' = io_wire i @ p"
proof -
  let ?ping = OPCODE_CONNECTION_PING
  have run: "http_onReceive srv frame (length frame) (talking h op [] f, i) =
      ws_decoded srv h True ?ping p (talking h ?ping p f, i)"
    using receive_frame [of "length frame" frame True ?ping key p "[]" "[]" srv h op f i] assms(1-4)
    by (simp add: opcode_defs)
  let ?pong = "\<lparr>frame_data = rfc_frame True OPCODE_CONNECTION_PONG None p\<rparr>"
  have pong: "createPong p (length p) = Inr ?pong" "payloadLength ?pong = Inr (length p)"
    using ws_frame_new_ok [of OPCODE_CONNECTION_PONG "length p" p True] assms(2)
      payloadLength_new [of p "length p" True OPCODE_CONNECTION_PONG ?pong]
    by (simp_all add: createPong_def opcode_defs)
  have payload: "frame_payload ?pong = Inr p"
    using pong(2) assms(2) by (simp add: frame_payload_def rfc_frame_def rfc_header_def)
  have "conn_ready (length p + 0) i" "length p < 2 ^ 64"
    using assms(2,5-7) by (simp_all add: conn_ready_def io_willing_def)
  from tcp.send_ready [OF this] obtain i' where
    i': "conn_send p i = (Inr (of_nat (length p)), i')" "io_wire i' = io_wire i @ p" by blast
  have "ws_dispatch srv h ?ping p (talking h ?ping p f, i) = (Inr (), (talking h ?ping p f, i'))"
    unfolding ws_dispatch_def
    using pong payload i'(1) by (simp add: opcode_defs thenA_app on_io_app)
  from ws_decoded_dispatch [OF this] i'(2) show ?thesis
    unfolding run by blast
qed

theorem ws_ping_answered_raw_witness:
  "\<exists>f' i'. http_onReceive demo_server [0x89, 0x81, 0, 0, 0, 0, 7] 7
      (talking ws_echo_handler 0 [] http_fsm_new, io_start [Sent 1] [] [] ()) = (Inr (), (f', i')) \<and> io_wire i' = [7]"
proof -
  let ?a = "[0x89, 0x81, 0, 0, 0, 0, 7] :: byte list" and ?i = "io_start [Sent 1] [] [] ()"
  have frame: "?a = rfc_frame True OPCODE_CONNECTION_PING (Some [0, 0, 0, 0]) [7]"
    by code_simp
  have n: "length ?a = 7" "io_wire ?i @ [7] = [7]" by simp_all
  have al: "alloc demo_server (length [7 :: byte])"
    by (simp add: serve_ws_echo_def http_server_of_def)
  have "length [0, 0, 0, 0 :: byte] = 4" "length [7 :: byte] \<le> 125" by simp_all
  from ws_ping_answered_raw [OF this al frame, of ?i ws_echo_handler 0 http_fsm_new]
  show ?thesis unfolding n by simp
qed

text \<open>C35. A control frame between the fragments of a message is taken for its last fragment: its
  payload is appended and, as it has FIN set, the echo server echoes the unfinished message with it,
  whatever the opcode of the control frame.\<close>

theorem ws_control_frame_ends_message:
  assumes "acc \<noteq> []" and "op \<in> {OPCODE_TEXT, OPCODE_BINARY}" and "opc \<le> 15" and "length key = 4"
    and "length (acc @ p) \<le> 65535" and "op = OPCODE_TEXT \<longrightarrow> 0 \<notin> set (acc @ p)"
    and "\<forall>n \<le> 65536. alloc srv n" and "frame = rfc_frame True opc (Some key) p"
    and "\<not> io_closed i" and "\<forall>a \<in> set (io_sends i). \<exists>k > 0. a = Sent k"
    and "length (acc @ p) + 4 \<le> length (io_sends i)"
  shows "\<exists>i'. http_onReceive srv frame (length frame) (talking ws_echo_handler op acc f, i) =
      (Inr (), (talking ws_echo_handler op [] f, i'))
    \<and> io_wire i' = io_wire i @ rfc_frame True op None (acc @ p)"
proof -
  have size: "length acc + length p \<le> 65535" using assms(5) by simp
  have run: "http_onReceive srv frame (length frame) (talking ws_echo_handler op acc f, i) =
      ws_decoded srv ws_echo_handler True op (acc @ p) (talking ws_echo_handler op (acc @ p) f, i)"
    using receive_frame [of "length frame" frame True opc key p "[]" acc srv ws_echo_handler op f i]
      assms(1,3,4,7,8) size by simp
  have "conn_ready (length (rfc_frame True op None (acc @ p)) + 0) i"
    using assms(5,9-11) by (auto simp: conn_ready_def io_willing_def length_rfc_frame ext_len_def)
  moreover have "alloc srv (length (acc @ p) + 1)" using assms(7) size by simp
  ultimately obtain p' i' where
    "ws_dispatch srv ws_echo_handler op (acc @ p) (talking ws_echo_handler op (acc @ p) f, i) =
      (Inr (), (talking ws_echo_handler op p' f, i'))"
    "io_wire i' = io_wire i @ rfc_frame True op None (acc @ p)"
    using dispatch_echo [OF assms(2,5,6), of srv 0 i f] by blast
  then show ?thesis
    unfolding run by (auto dest!: ws_decoded_dispatch)
qed

theorem ws_control_frame_ends_message_witness:
  "\<exists>i'. http_onReceive demo_server [0x89, 0x81, 0, 0, 0, 0, 7] 7
      (talking ws_echo_handler OPCODE_BINARY [1] http_fsm_new, io_start (replicate 6 (Sent 1)) [] [] ()) =
      (Inr (), (talking ws_echo_handler OPCODE_BINARY [] http_fsm_new, i')) \<and> io_wire i' = [0x82, 0x02, 1, 7]"
proof -
  let ?a = "[0x89, 0x81, 0, 0, 0, 0, 7] :: byte list" and ?i = "io_start (replicate 6 (Sent 1)) [] [] ()"
  have frame: "?a = rfc_frame True OPCODE_CONNECTION_PING (Some [0, 0, 0, 0]) [7]"
    by code_simp
  have out: "rfc_frame True OPCODE_BINARY None ([1] @ [7]) = [0x82, 0x02, 1, 7]"
    by code_simp
  have n: "length ?a = 7" "io_wire ?i = []" by simp_all
  have al: "\<forall>n \<le> 65536. alloc demo_server n"
    by (simp add: serve_ws_echo_def http_server_of_def)
  have c: "[1 :: byte] \<noteq> []" "OPCODE_BINARY \<in> {OPCODE_TEXT, OPCODE_BINARY}" "OPCODE_CONNECTION_PING \<le> 15"
    "length [0, 0, 0, 0 :: byte] = 4" "length ([1] @ [7 :: byte]) \<le> 65535"
    "OPCODE_BINARY = OPCODE_TEXT \<longrightarrow> 0 \<notin> set ([1] @ [7 :: byte])"
    by (simp_all add: opcode_defs)
  from ws_control_frame_ends_message [OF c al frame, of ?i http_fsm_new]
  show ?thesis unfolding n out by simp
qed

definition client_frame :: "bool \<times> byte \<times> byte list \<times> byte list \<Rightarrow> byte list" where
  "client_frame = (\<lambda>(fin, opc, key, p). rfc_frame fin opc (Some key) p)"

definition frame_payloads :: "(bool \<times> byte \<times> byte list \<times> byte list) list \<Rightarrow> byte list" where
  "frame_payloads frs = concat (map (\<lambda>(fin, opc, key, p). p) frs)"

lemma frame_payloads_simps [simp]:
  "frame_payloads [] = []"
  "frame_payloads ((fin, opc, key, p) # frs) = p @ frame_payloads frs"
  by (simp_all add: frame_payloads_def)

text \<open>A binary message of more than 65535 bytes makes the echo server mute for good: the echo
  throws, the exception is swallowed, and the buffer is not cleared. From then on every frame, of
  any kind, is appended to it and nothing is sent any more.\<close>

theorem ws_oversize_mute:
  assumes "65535 < length acc" and "\<forall>(fin, opc, key, p) \<in> set frs. opc \<le> 15 \<and> length key = 4"
    and "length acc + length (frame_payloads frs) < 2 ^ 63" and "\<forall>n < 2 ^ 63. alloc srv n"
  shows "receive_segments srv (map client_frame frs) (talking ws_echo_handler OPCODE_BINARY acc f, i) =
    (Inr (), (talking ws_echo_handler OPCODE_BINARY (acc @ frame_payloads frs) f, i))"
  using assms(1-3)
proof (induction frs arbitrary: acc)
  case Nil
  then show ?case by simp
next
  case (Cons fr frs)
  obtain fin opc key p where fr: "fr = (fin, opc, key, p)" by (metis surj_pair)
  let ?frame = "client_frame fr" and ?e = ws_echo_handler
  have len: "length acc + length p < 2 ^ 63" and acc: "acc \<noteq> []" and op: "opc \<le> 15" "length key = 4"
    using Cons.prems fr by auto
  have run: "http_onReceive srv ?frame (length ?frame) (talking ?e OPCODE_BINARY acc f, i) =
      ws_decoded srv ?e fin OPCODE_BINARY (acc @ p) (talking ?e OPCODE_BINARY (acc @ p) f, i)"
    using receive_frame [of "length ?frame" ?frame fin opc key p "[]" acc srv ?e OPCODE_BINARY f i]
      acc op len assms(4) by (simp add: client_frame_def fr)
  have "ws_dispatch srv ?e OPCODE_BINARY (acc @ p) (talking ?e OPCODE_BINARY (acc @ p) f, i) =
      (Inl (Throw (Invalid_Argument ''Payload length > UINT16_MAX currently not supported.'')),
       (talking ?e OPCODE_BINARY (acc @ p) f, i))"
    using ws_send_data_too_long [of "length (acc @ p)" "acc @ p" i] Cons.prems(1)
    by (simp add: ws_dispatch_def opcode_defs on_io_app ws_echo_handler_def echo_onData_def thenA_app)
  then have "ws_decoded srv ?e fin OPCODE_BINARY (acc @ p) (talking ?e OPCODE_BINARY (acc @ p) f, i) =
      (Inr (), (talking ?e OPCODE_BINARY (acc @ p) f, i))"
    by (cases fin) (simp_all add: ws_decoded_def thenA_app try_onlyA_def tryA_def is_invalid_argument_def)
  moreover have "receive_segments srv (map client_frame frs) (talking ?e OPCODE_BINARY (acc @ p) f, i) =
      (Inr (), (talking ?e OPCODE_BINARY ((acc @ p) @ frame_payloads frs) f, i))"
    using Cons.prems fr by (intro Cons.IH) auto
  ultimately show ?case
    using run by (simp add: thenA_app fr)
qed

theorem ws_oversize_mute_witness:
  "receive_segments demo_server [[0x82, 0x81, 0, 0, 0, 0, 7]]
      (talking ws_echo_handler OPCODE_BINARY (replicate 65536 1) http_fsm_new, idle_io) =
    (Inr (), (talking ws_echo_handler OPCODE_BINARY (replicate 65536 1 @ [7]) http_fsm_new, idle_io))"
proof -
  let ?frs = "[(True, OPCODE_BINARY, [0, 0, 0, 0], [7])] :: (bool \<times> byte \<times> byte list \<times> byte list) list"
  have frames: "map client_frame ?frs = [[0x82, 0x81, 0, 0, 0, 0, 7]]"
    "frame_payloads ?frs = [7]"
    by code_simp+
  have "65535 < length (replicate 65536 (1 :: byte))"
    "\<forall>(fin, opc, key, p) \<in> set ?frs. opc \<le> 15 \<and> length key = 4"
    "length (replicate 65536 (1 :: byte)) + length (frame_payloads ?frs) < 2 ^ 63"
    "\<forall>n < 2 ^ 63. alloc demo_server n"
    unfolding length_replicate frames(2) by (simp_all add: serve_ws_echo_def http_server_of_def)
  from ws_oversize_mute [OF this, of http_fsm_new idle_io] show ?thesis
    unfolding frames .
qed

text \<open>A message whose first fragment is empty, which RFC 6455 allows, ends the connection: the
  start of a message is told by the empty buffer, so the second fragment counts as a first one of
  opcode 0, and the exception for that leaves \<^verbatim>\<open>onReceive\<close>, whatever the handler.\<close>

theorem ws_empty_first_fragment:
  assumes "length key = 4" and "length key' = 4" and "opc \<le> 15" and "\<forall>n \<le> 65536. alloc srv n"
    and "length p \<le> 65536"
  shows "fst (receive_segments srv [rfc_frame False opc (Some key) [], rfc_frame True OPCODE_CONTINUATION (Some key') p]
      (talking h op [] f, i)) =
    Inl (Throw (Runtime_Error ''WebSocket opcode must not be 0 when FIN bit is set.''))"
proof -
  let ?a = "rfc_frame False opc (Some key) []" and ?c = OPCODE_CONTINUATION
  let ?b = "rfc_frame True ?c (Some key') p"
  have a: "http_onReceive srv ?a (length ?a) (talking h op [] f, i) = (Inr (), (talking h opc [] f, i))"
    using receive_frame [of "length ?a" ?a False opc key "[]" "[]" "[]" srv h op f i] assms
    by (simp add: ws_decoded_more)
  have b: "http_onReceive srv ?b (length ?b) (talking h opc [] f, i) =
      ws_decoded srv h True ?c p (talking h ?c p f, i)"
    using receive_frame [of "length ?b" ?b True ?c key' p "[]" "[]" srv h opc f i] assms by simp
  have "fst (ws_decoded srv h True ?c p (talking h ?c p f, i)) =
      Inl (Throw (Runtime_Error ''WebSocket opcode must not be 0 when FIN bit is set.''))"
    by (simp add: ws_decoded_def ws_dispatch_def thenA_app try_onlyA_def tryA_def is_invalid_argument_def)
  then obtain st where "http_onReceive srv ?b (length ?b) (talking h opc [] f, i) =
      (Inl (Throw (Runtime_Error ''WebSocket opcode must not be 0 when FIN bit is set.'')), st)"
    unfolding b by (metis prod.collapse)
  with a show ?thesis
    by (simp add: thenA_app)
qed

theorem ws_empty_first_fragment_witness:
  "fst (receive_segments demo_server [[0x01, 0x80, 0, 0, 0, 0], [0x80, 0x81, 0, 0, 0, 0, 7]]
      (talking ws_echo_handler 0 [] http_fsm_new, idle_io)) =
    Inl (Throw (Runtime_Error ''WebSocket opcode must not be 0 when FIN bit is set.''))"
proof -
  have frames: "rfc_frame False OPCODE_TEXT (Some [0, 0, 0, 0]) [] = [0x01, 0x80, 0, 0, 0, 0]"
    "rfc_frame True OPCODE_CONTINUATION (Some [0, 0, 0, 0]) [7] = [0x80, 0x81, 0, 0, 0, 0, 7]"
    by code_simp+
  have "length [0, 0, 0, 0 :: byte] = 4" "length [0, 0, 0, 0 :: byte] = 4" "OPCODE_TEXT \<le> 15"
    "\<forall>n \<le> 65536. alloc demo_server n" "length [7 :: byte] \<le> 65536"
    by (simp_all add: serve_ws_echo_def http_server_of_def)
  from ws_empty_first_fragment [OF this, of ws_echo_handler 0 http_fsm_new idle_io] show ?thesis
    unfolding frames .
qed

end
