(* ===== verification/Tcp_System.thy ===== *)
theory Tcp_System
  imports Tcp_Threads Tcp_Server
begin

text \<open>
  The server and its workers together: \<^verbatim>\<open>Server::serve\<close> of \<^verbatim>\<open>src/tcp/socks_tcp.cpp\<close> and one
  \<^verbatim>\<open>ClientWorker::run\<close> per connection, interleaved in any order.

  The server moves by iterations of its loop and, after it, by joins; a worker by the steps of
  \<open>Tcp_Threads\<close>; a signal can come at any time. The threads share the signal status and the flag
  \<^verbatim>\<open>_isActive\<close> of each worker. What the environment of \<open>Tcp_Server\<close> was free to do there, the end of
  a thread, is done by the thread itself here, and \<^verbatim>\<open>join\<close> waits for it.

  The connection with number \<open>k\<close> starts in \<open>env k\<close>, and its buffer, which the code does not
  initialise, is \<open>bufs k\<close>. An exception of the server's thread ends the program
  (\<open>serve_exception_terminates\<close>) and is no step.
\<close>

section \<open>The steps\<close>

text \<open>One iteration of the loop of \<^verbatim>\<open>serve\<close>: whether it goes on.\<close>

definition serve_iter :: "(int \<Rightarrow> 'h) \<Rightarrow> tcp_options \<Rightarrow> int \<Rightarrow> ('h server, bool) act" where
  "serve_iter createServerHandler options fd =
     bindA (getA sv_signalStatus) (\<lambda>signalStatus.
     if signalStatus \<noteq> NO_SIGNAL then retA False
     else bindA (on_kernel (ls_accept ListenSocketImpl fd)) (\<lambda>clientSocket.
          case clientSocket of
            None \<Rightarrow> retA True
          | Some client_fd \<Rightarrow> thenA (serve_client createServerHandler options client_fd) (retA True)))"

datatype 'h server_pc = Serving | Joining "'h client_worker list" | Returned

record ('h, 'u) system =
  sys_pc :: "'h server_pc"
  sys_server :: "'h server"
  sys_threads :: "nat \<Rightarrow> ('h, 'u) thread option"

text \<open>The thread of each new worker starts.\<close>

definition spawn ::
  "(nat \<Rightarrow> 'u io) \<Rightarrow> (nat \<Rightarrow> byte list) \<Rightarrow> nat \<Rightarrow> 'h client_worker list
   \<Rightarrow> (nat \<Rightarrow> ('h, 'u) thread option) \<Rightarrow> nat \<Rightarrow> ('h, 'u) thread option"
where
  "spawn env bufs n ws ths k =
     (case find (\<lambda>w. n \<le> cw_thr w \<and> cw_thr w = k) ws of
        None \<Rightarrow> ths k
      | Some w \<Rightarrow> Some (thread_start (cw_handler w) (env k) (bufs k)))"

datatype label = By_Server | By_Worker nat | By_Signal int

text \<open>What a thread sees of the signal status.\<close>

definition seen_signal :: "'h server \<Rightarrow> int option" where
  "seen_signal s = (if sv_signalStatus s = NO_SIGNAL then None else Some (sv_signalStatus s))"

inductive sys_step ::
  "('h, 'u) server_handler \<Rightarrow> (int \<Rightarrow> 'h) \<Rightarrow> tcp_options \<Rightarrow> int \<Rightarrow> (nat \<Rightarrow> 'u io) \<Rightarrow> (nat \<Rightarrow> byte list)
   \<Rightarrow> ('h, 'u) system \<Rightarrow> label \<Rightarrow> ('h, 'u) system \<Rightarrow> bool"
  for handler fac options fd env bufs
where
  iterate: "sys_step handler fac options fd env bufs S By_Server
     (S\<lparr>sys_server := s',
        sys_threads := spawn env bufs (sv_started (sys_server S)) (sv_workers s') (sys_threads S)\<rparr>)"
    if "sys_pc S = Serving" and "serve_iter fac options fd (sys_server S) = (Inr True, s')"
| leave: "sys_step handler fac options fd env bufs S By_Server
     (S\<lparr>sys_pc := Joining (sv_workers s'), sys_server := s'\<rparr>)"
    if "sys_pc S = Serving" and "serve_iter fac options fd (sys_server S) = (Inr False, s')"
| join: "sys_step handler fac options fd env bufs S By_Server
     (S\<lparr>sys_pc := Joining ws, sys_server := s'\<rparr>)"
    if "sys_pc S = Joining (w # ws)" and "sys_threads S (cw_thr w) = Some t" and "th_pc t = Ended"
      and "worker_finish w (sys_server S) = (Inr (), s')"
| finish: "sys_step handler fac options fd env bufs S By_Server
     (S\<lparr>sys_pc := Returned\<rparr>)"
    if "sys_pc S = Joining []"
| work: "sys_step handler fac options fd env bufs S (By_Worker k)
     (S\<lparr>sys_threads := (sys_threads S)(k \<mapsto> t'),
        sys_server := (sys_server S)\<lparr>sv_active :=
          (if wk_isActive (th_worker t') then sv_active (sys_server S) else sv_active (sys_server S) - {k})\<rparr>\<rparr>)"
    if "sys_threads S k = Some t" and "\<not> th_over t"
      and "t' = thread_step handler (seen_signal (sys_server S)) t"
| signal: "sys_step handler fac options fd env bufs S (By_Signal n)
     (S\<lparr>sys_server := (sys_server S)\<lparr>sv_signalStatus := n\<rparr>\<rparr>)"
    if "n \<noteq> NO_SIGNAL"

text \<open>A run, with the labels of its steps.\<close>

inductive sys_run ::
  "('h, 'u) server_handler \<Rightarrow> (int \<Rightarrow> 'h) \<Rightarrow> tcp_options \<Rightarrow> int \<Rightarrow> (nat \<Rightarrow> 'u io) \<Rightarrow> (nat \<Rightarrow> byte list)
   \<Rightarrow> ('h, 'u) system \<Rightarrow> label list \<Rightarrow> ('h, 'u) system \<Rightarrow> bool"
  for handler fac options fd env bufs
where
  stop: "sys_run handler fac options fd env bufs S [] S"
| step: "sys_run handler fac options fd env bufs S (labs @ [lab]) S''"
    if "sys_run handler fac options fd env bufs S labs S'"
      and "sys_step handler fac options fd env bufs S' lab S''"

definition sys_start :: "sys_answer list \<Rightarrow> ('h, 'u) system" where
  "sys_start as =
     \<lparr>sys_pc = Serving, sys_server = server_start as (\<lambda>_. True), sys_threads = Map.empty\<rparr>"

section \<open>What an iteration does\<close>

lemma serve_loop_iter:
  "serve_loop fac options fd (t # ts) =
     thenA (modA (apply_tick t))
       (bindA (serve_iter fac options fd) (\<lambda>go. if go then serve_loop fac options fd ts else retA ()))"
  unfolding serve_loop.simps serve_iter_def
  by (auto simp: bindA_app thenA_app fun_eq_iff split: prod.split sum.split option.split)

lemma serve_iter_leave: "serve_iter fac options fd s = (Inr False, s') \<longleftrightarrow> sv_signalStatus s \<noteq> NO_SIGNAL \<and> s' = s"
  by (auto simp: serve_iter_def bindA_app thenA_app split: prod.splits sum.splits option.splits)

text \<open>An iteration that goes on: no client, a client turned away, or a new worker.\<close>

lemma serve_iter_go:
  assumes "serve_iter fac options fd s = (Inr True, s')"
  obtains (none) k where "s' = s\<lparr>sv_kernel := k\<rparr>"
  | (turned_away) k where "s' = (snd (cleanup s))\<lparr>sv_kernel := k\<rparr>"
  | (admitted) k cfd where "length (sv_workers (snd (cleanup s))) < maxClients options"
      "s' = snd (emplace_worker cfd (fac cfd) ((snd (cleanup s))\<lparr>sv_kernel := k\<rparr>))"
proof -
  obtain c k where run: "listen_accept fd (sv_kernel s) = (Inr c, k)"
    and go: "(case c of None \<Rightarrow> retA True
      | Some cfd \<Rightarrow> thenA (serve_client fac options cfd) (retA True)) (s\<lparr>sv_kernel := k\<rparr>) = (Inr True, s')"
    using assms by (auto simp: serve_iter_def bindA_app on_kernel_def split: prod.splits sum.splits if_splits)
  show thesis
  proof (cases c)
    case None
    with go show thesis by (intro none [of k]) simp
  next
    case (Some cfd)
    let ?s = "s\<lparr>sv_kernel := k\<rparr>"
    have clean: "cleanup ?s = (Inr (), (snd (cleanup s))\<lparr>sv_kernel := k\<rparr>)"
      by (simp add: cleanup_run worker_isActive_def)
    show thesis
    proof (cases "length (sv_workers (snd (cleanup s))) < maxClients options")
      case True
      with go Some clean have "s' = snd (emplace_worker cfd (fac cfd) ((snd (cleanup s))\<lparr>sv_kernel := k\<rparr>))"
        by (simp add: serve_client_def thenA_app bindA_app emplace_worker_def)
      with True show thesis by (rule admitted)
    next
      case False
      obtain r k' where "client_write cfd bye k = (r, k')" by (metis surj_pair)
      with go Some clean False have "s' = (snd (cleanup s))\<lparr>sv_kernel := k'\<rparr>"
        by (cases r) (simp_all add: serve_client_def thenA_app bindA_app on_kernel_def)
      then show thesis by (rule turned_away)
    qed
  qed
qed

section \<open>The invariant\<close>

definition unjoined :: "('h, 'u) system \<Rightarrow> 'h client_worker list" where
  "unjoined S = (case sys_pc S of Serving \<Rightarrow> sv_workers (sys_server S) | Joining ws \<Rightarrow> ws | Returned \<Rightarrow> [])"

lemma unjoined_same:
  "sys_pc S' = sys_pc S \<Longrightarrow> sv_workers (sys_server S') = sv_workers (sys_server S) \<Longrightarrow> unjoined S' = unjoined S"
  by (simp add: unjoined_def split: server_pc.split)

text \<open>The threads started are those of the workers still to be joined and those joined; a joined
  thread has ended; the flags \<^verbatim>\<open>_isActive\<close> the server reads are those the threads have set.\<close>

definition sys_ok :: "tcp_options \<Rightarrow> ('h, 'u) system \<Rightarrow> bool" where
  "sys_ok options S \<longleftrightarrow>
     length (sv_workers (sys_server S)) \<le> maxClients options
   \<and> set (unjoined S) \<subseteq> set (sv_workers (sys_server S))
   \<and> mset (map cw_thr (unjoined S)) + mset (sv_joined (sys_server S)) = mset [0..<sv_started (sys_server S)]
   \<and> dom (sys_threads S) = {..<sv_started (sys_server S)}
   \<and> (\<forall>k t. sys_threads S k = Some t \<longrightarrow>
        (k \<in> sv_active (sys_server S) \<longleftrightarrow> th_pc t \<noteq> Ended) \<and> (wk_isActive (th_worker t) \<longleftrightarrow> th_pc t \<noteq> Ended))
   \<and> set (sv_joined (sys_server S)) \<inter> sv_active (sys_server S) = {}"

lemma sys_ok_start: "sys_ok options (sys_start as)"
  by (simp add: sys_ok_def sys_start_def unjoined_def server_start_def)

lemma sys_okD:
  assumes "sys_ok options S"
  shows "length (sv_workers (sys_server S)) \<le> maxClients options"
    and "set (unjoined S) \<subseteq> set (sv_workers (sys_server S))"
    and "mset (map cw_thr (unjoined S)) + mset (sv_joined (sys_server S)) = mset [0..<sv_started (sys_server S)]"
    and "dom (sys_threads S) = {..<sv_started (sys_server S)}"
    and "sys_threads S k = Some t \<Longrightarrow> k \<in> sv_active (sys_server S) \<longleftrightarrow> th_pc t \<noteq> Ended"
    and "sys_threads S k = Some t \<Longrightarrow> wk_isActive (th_worker t) \<longleftrightarrow> th_pc t \<noteq> Ended"
    and "set (sv_joined (sys_server S)) \<inter> sv_active (sys_server S) = {}"
  using assms by (auto simp: sys_ok_def)

text \<open>The thread numbers of a system whose invariant holds.\<close>

lemma thread_numbers:
  assumes "sys_ok options S"
  shows "set (map cw_thr (unjoined S)) \<union> set (sv_joined (sys_server S)) = {..<sv_started (sys_server S)}"
    and "distinct (map cw_thr (unjoined S))"
proof -
  have m: "mset (map cw_thr (unjoined S) @ sv_joined (sys_server S)) = mset [0..<sv_started (sys_server S)]"
    using sys_okD(3) [OF assms] by simp
  have "set (map cw_thr (unjoined S) @ sv_joined (sys_server S)) = set [0..<sv_started (sys_server S)]"
    using arg_cong [OF m, of set_mset] by (simp only: set_mset_mset)
  then show "set (map cw_thr (unjoined S)) \<union> set (sv_joined (sys_server S)) = {..<sv_started (sys_server S)}"
    by (simp add: atLeast0LessThan)
  have "distinct (map cw_thr (unjoined S) @ sv_joined (sys_server S))"
    using m by (metis distinct_upt mset_eq_imp_distinct_iff)
  then show "distinct (map cw_thr (unjoined S))" by simp
qed

lemma thread_step_active:
  assumes "wk_isActive (th_worker t) \<longleftrightarrow> th_pc t \<noteq> Ended"
  shows "wk_isActive (th_worker (thread_step handler sig t)) \<longleftrightarrow> th_pc (thread_step handler sig t) \<noteq> Ended"
  using assms
  by (cases "th_pc t")
    (auto simp: thread_step_def th_do_def split: prod.split sum.split stop.split option.split)

lemma sys_ok_cleaned:
  assumes "sys_ok options S" and "sys_pc S = Serving"
  shows "sys_ok options (S\<lparr>sys_server := (snd (cleanup (sys_server S)))\<lparr>sv_kernel := k\<rparr>\<rparr>)"
proof -
  let ?s = "sys_server S" and ?a = "\<lambda>w. worker_isActive w (sys_server S)"
  let ?s' = "snd (cleanup ?s)"
  have same: "sv_started ?s' = sv_started ?s" "sv_active ?s' = sv_active ?s"
    by (simp_all add: cleanup_run)
  have threads: "mset (map cw_thr (sv_workers ?s')) + mset (sv_joined ?s') = mset [0..<sv_started ?s]"
    using threads_cleanup [of ?s] sys_okD(3) [OF assms(1)] assms(2) unfolding threads_def unjoined_def by simp
  have len: "length (sv_workers ?s') \<le> maxClients options"
    using order_trans [OF length_filter_le [of ?a "sv_workers ?s"] sys_okD(1) [OF assms(1)]]
    by (simp add: cleanup_run)
  have "set (sv_joined ?s') \<inter> sv_active ?s = {}"
    using sys_okD(7) [OF assms(1)] by (auto simp: cleanup_run worker_isActive_def)
  with threads len assms show ?thesis
    unfolding sys_ok_def by (simp add: unjoined_def same)
qed

lemma spawn_old: "\<forall>w \<in> set ws. cw_thr w < n \<Longrightarrow> spawn env bufs n ws ths = ths"
proof -
  assume "\<forall>w \<in> set ws. cw_thr w < n"
  then have "find (\<lambda>w. n \<le> cw_thr w \<and> cw_thr w = k) ws = None" for k
    by (auto simp: find_None_iff)
  then show ?thesis by (simp add: spawn_def fun_eq_iff)
qed

lemma find_append: "find P (xs @ ys) = (case find P xs of None \<Rightarrow> find P ys | Some x \<Rightarrow> Some x)"
  by (induction xs) simp_all

lemma spawn_new:
  assumes "\<forall>w \<in> set ws. cw_thr w < n"
  shows "spawn env bufs n (ws @ [\<lparr>cw_thr = n, cw_socket = fd, cw_handler = h\<rparr>]) ths =
    ths(n \<mapsto> thread_start h (env n) (bufs n))"
proof -
  have "find (\<lambda>w. n \<le> cw_thr w \<and> cw_thr w = k) ws = None" for k
    using assms by (auto simp: find_None_iff)
  then show ?thesis
    by (simp add: spawn_def fun_eq_iff find_append)
qed

lemma workers_below:
  assumes "sys_ok options S" and "sys_pc S = Serving"
  shows "\<forall>w \<in> set (sv_workers (sys_server S)). cw_thr w < sv_started (sys_server S)"
  using thread_numbers(1) [OF assms(1)] assms(2) by (auto simp: unjoined_def)

text \<open>An iteration, seen from the system: the threads stay as they are, or a new one starts, in the
  state its handler was made in.\<close>

lemma iterate_threads:
  assumes "sys_ok options S" and "sys_pc S = Serving" and "serve_iter fac options fd (sys_server S) = (Inr True, s')"
  shows "spawn env bufs (sv_started (sys_server S)) (sv_workers s') (sys_threads S) = sys_threads S
      \<and> sys_ok options (S\<lparr>sys_server := s'\<rparr>)
    \<or> (\<exists>cfd. let n = sv_started (sys_server S);
          ths = (sys_threads S)(n \<mapsto> thread_start (fac cfd) (env n) (bufs n)) in
        spawn env bufs n (sv_workers s') (sys_threads S) = ths \<and> sys_ok options (S\<lparr>sys_server := s', sys_threads := ths\<rparr>))"
  using assms(3)
proof (cases rule: serve_iter_go)
  case (none k)
  with assms workers_below [OF assms(1,2)] show ?thesis
    by (simp add: spawn_old sys_ok_def unjoined_def)
next
  case (turned_away k)
  with sys_ok_cleaned [OF assms(1,2)] workers_below [OF assms(1,2)] show ?thesis
    by (simp add: spawn_old cleanup_run)
next
  case (admitted k cfd)
  let ?n = "sv_started (sys_server S)"
  let ?ths = "(sys_threads S)(?n \<mapsto> thread_start (fac cfd) (env ?n) (bufs ?n))"
  have below: "\<forall>w \<in> set (sv_workers (snd (cleanup (sys_server S)))). cw_thr w < ?n"
    using workers_below [OF assms(1,2)] by (simp add: cleanup_run)
  have "spawn env bufs ?n (sv_workers s') (sys_threads S) = ?ths"
    using spawn_new [OF below] by (simp add: admitted(2) emplace_worker_def cleanup_run)
  moreover have "sys_ok options (S\<lparr>sys_server := s', sys_threads := ?ths\<rparr>)"
    using sys_ok_cleaned [OF assms(1,2), of k] admitted assms(2) thread_numbers(1) [OF assms(1)]
    by (auto simp: sys_ok_def unjoined_def emplace_worker_def cleanup_run thread_start_def worker_start_def lessThan_Suc)
  ultimately show ?thesis by (auto simp: Let_def)
qed

text \<open>What a step of a thread does to the system keeps the invariant.\<close>

lemma sys_ok_threads:
  assumes "sys_ok options S" and "sys_threads S k = Some t" and "\<not> th_over t"
    and "wk_isActive (th_worker t') \<longleftrightarrow> th_pc t' \<noteq> Ended"
  shows "sys_ok options (S\<lparr>sys_threads := (sys_threads S)(k \<mapsto> t'),
        sys_server := (sys_server S)\<lparr>sv_active :=
          (if wk_isActive (th_worker t') then sv_active (sys_server S) else sv_active (sys_server S) - {k})\<rparr>\<rparr>)"
    (is "sys_ok options ?S'")
proof -
  have k: "k < sv_started (sys_server S)" "k \<in> sv_active (sys_server S)"
    using sys_okD(4,5) [OF assms(1)] assms(2,3) by (auto simp: th_over_def)
  have dom: "insert k (dom (sys_threads S)) = dom (sys_threads S)" using assms(2) by auto
  have same: "unjoined ?S' = unjoined S" by (rule unjoined_same) simp_all
  show ?thesis
    using assms(1,4) k dom unfolding sys_ok_def same by auto
qed

lemma sys_ok_step:
  assumes "sys_step handler fac options fd env bufs S lab S'" and "sys_ok options S"
  shows "sys_ok options S'"
  using assms(1)
proof (cases rule: sys_step.cases)
  case (iterate s')
  from iterate_threads [OF assms(2) iterate(3,4), of env bufs] show ?thesis
    unfolding iterate(2) by (auto simp: Let_def)
next
  case (leave s')
  with assms(2) show ?thesis
    by (auto simp: serve_iter_leave sys_ok_def unjoined_def)
next
  case (join w ws t s')
  let ?s = "sys_server S"
  have active: "cw_thr w \<notin> sv_active ?s"
    using sys_okD(5) [OF assms(2) join(4)] join(5) by simp
  with join(6) have s': "s' = ?s\<lparr>sv_joined := sv_joined ?s @ [cw_thr w]\<rparr>"
    by (simp add: worker_finish_inactive worker_isActive_def)
  show ?thesis
    using assms(2) join(3) active unfolding join(2) s' by (simp add: sys_ok_def unjoined_def)
next
  case finish
  with assms(2) show ?thesis
    by (simp add: sys_ok_def unjoined_def)
next
  case (work k t t')
  have act: "wk_isActive (th_worker t') \<longleftrightarrow> th_pc t' \<noteq> Ended"
    using thread_step_active sys_okD(6) [OF assms(2) work(3)] work(5) by blast
  from sys_ok_threads [OF assms(2) work(3,4) this] show ?thesis unfolding work(2) .
next
  case (signal n)
  have same: "unjoined S' = unjoined S"
    by (rule unjoined_same) (simp_all add: signal(2))
  show ?thesis
    using assms(2) unfolding sys_ok_def same by (simp add: signal(2))
qed

lemma sys_ok_run: "sys_run handler fac options fd env bufs S labs S' \<Longrightarrow> sys_ok options S \<Longrightarrow> sys_ok options S'"
  by (induction rule: sys_run.induct) (auto intro: sys_ok_step)

lemma sys_ok_reachable: "sys_run handler fac options fd env bufs (sys_start as) labs S \<Longrightarrow> sys_ok options S"
  by (rule sys_ok_run [OF _ sys_ok_start])

section \<open>Threads do not interfere\<close>

lemma serve_iter_signalStatus:
  "serve_iter fac options fd s = (Inr b, s') \<Longrightarrow> sv_signalStatus s' = sv_signalStatus s"
proof (cases b)
  case True
  assume "serve_iter fac options fd s = (Inr b, s')"
  then have "serve_iter fac options fd s = (Inr True, s')" using True by simp
  then show ?thesis
    by (cases rule: serve_iter_go) (simp_all add: cleanup_run emplace_worker_def)
qed (simp add: serve_iter_leave)

lemma step_signalStatus:
  assumes "sys_step handler fac options fd env bufs S lab S'" and "sys_ok options S"
  shows "sv_signalStatus (sys_server S') =
    (case lab of By_Signal n \<Rightarrow> n | _ \<Rightarrow> sv_signalStatus (sys_server S))"
  using assms(1)
proof (cases rule: sys_step.cases)
  case (join w ws t s')
  then show ?thesis by (auto simp: worker_finish_def split: if_splits)
qed (auto dest: serve_iter_signalStatus)

lemma run_signalStatus:
  "sys_run handler fac options fd env bufs (sys_start as) labs S \<Longrightarrow>
   sv_signalStatus (sys_server S) = NO_SIGNAL \<or> By_Signal (sv_signalStatus (sys_server S)) \<in> set labs"
proof (induction "sys_start as :: ('a, 'b) system" labs S rule: sys_run.induct)
  case stop
  then show ?case by (simp add: sys_start_def server_start_def NO_SIGNAL_def)
next
  case (step labs S' lab S'')
  from step_signalStatus [OF step(3) sys_ok_reachable [OF step(1)]] step(2) show ?case
    by (auto split: label.splits)
qed

text \<open>What a thread has become depends on its own steps only: whatever the others have done in between,
  it is what \<open>thread_run\<close> makes of its start in as many steps as it has taken.\<close>

definition own_run ::
  "('h, 'u) server_handler \<Rightarrow> (int \<Rightarrow> 'h) \<Rightarrow> (nat \<Rightarrow> 'u io) \<Rightarrow> (nat \<Rightarrow> byte list) \<Rightarrow> label list \<Rightarrow> nat
   \<Rightarrow> ('h, 'u) thread option \<Rightarrow> bool"
where
  "own_run handler fac env bufs labs k th =
     (case th of
        None \<Rightarrow> By_Worker k \<notin> set labs
      | Some t \<Rightarrow> \<exists>cfd sigs. t = thread_run handler sigs (thread_start (fac cfd) (env k) (bufs k))
          \<and> length sigs = count_list labs (By_Worker k)
          \<and> (\<forall>n. Some n \<in> set sigs \<longrightarrow> By_Signal n \<in> set labs))"

lemma own_run_other:
  "own_run handler fac env bufs labs k th \<Longrightarrow> lab \<noteq> By_Worker k \<Longrightarrow> own_run handler fac env bufs (labs @ [lab]) k th"
  by (auto simp: own_run_def count_list_append split: option.splits)

lemma run_threads:
  "sys_run handler fac options fd env bufs (sys_start as) labs S \<Longrightarrow>
   own_run handler fac env bufs labs k (sys_threads S k)"
proof (induction "sys_start as :: ('a, 'b) system" labs S rule: sys_run.induct)
  case stop
  then show ?case by (simp add: sys_start_def own_run_def)
next
  case (step labs S lab S')
  have ok: "sys_ok options S" using sys_ok_reachable step(1) .
  from step(3) show ?case
  proof (cases rule: sys_step.cases)
    case (iterate s')
    from iterate_threads [OF ok iterate(3,4), of env bufs]
    consider "spawn env bufs (sv_started (sys_server S)) (sv_workers s') (sys_threads S) = sys_threads S"
      | cfd where "spawn env bufs (sv_started (sys_server S)) (sv_workers s') (sys_threads S) =
          (sys_threads S)(sv_started (sys_server S) \<mapsto>
            thread_start (fac cfd) (env (sv_started (sys_server S))) (bufs (sv_started (sys_server S))))"
      by (auto simp: Let_def)
    then show ?thesis
    proof cases
      case 1
      with step(2) show ?thesis by (simp add: iterate own_run_other)
    next
      case (2 cfd)
      show ?thesis
      proof (cases "k = sv_started (sys_server S)")
        case True
        then have "sys_threads S k = None"
          using sys_okD(4) [OF ok] by auto
        with step(2) have "count_list labs (By_Worker k) = 0"
          by (simp add: own_run_def count_list_0_iff)
        with 2 True show ?thesis
          by (auto simp: iterate own_run_def count_list_append intro!: exI [of _ "[]"] exI [of _ cfd])
      next
        case False
        with 2 step(2) show ?thesis by (simp add: iterate own_run_other)
      qed
    qed
  next
    case (work j t t')
    show ?thesis
    proof (cases "j = k")
      case True
      let ?sig = "seen_signal (sys_server S)"
      from step(2) work(3) True obtain cfd sigs where
        t: "t = thread_run handler sigs (thread_start (fac cfd) (env k) (bufs k))"
        and len: "length sigs = count_list labs (By_Worker k)"
        and sigs: "\<forall>n. Some n \<in> set sigs \<longrightarrow> By_Signal n \<in> set labs"
        by (auto simp: own_run_def)
      have "t' = thread_run handler (sigs @ [?sig]) (thread_start (fac cfd) (env k) (bufs k))"
        using t work(5) by (simp add: thread_run_append)
      moreover have "\<forall>n. Some n \<in> set (sigs @ [?sig]) \<longrightarrow> By_Signal n \<in> set labs"
        using sigs run_signalStatus [OF step(1)] by (auto simp: seen_signal_def split: if_splits)
      ultimately show ?thesis
        using True len work(1) unfolding work(2) own_run_def
        by (auto simp: count_list_append intro!: exI [of _ cfd] exI [of _ "sigs @ [?sig]"])
    next
      case False
      with step(2) show ?thesis by (simp add: work own_run_other)
    qed
  qed (use step(2) in \<open>simp_all add: own_run_other\<close>)
qed

section \<open>The threads that run\<close>

lemma running_unjoined:
  assumes "sys_ok options S" and "sys_threads S k = Some t" and "th_pc t \<noteq> Ended"
  shows "k \<in> set (map cw_thr (unjoined S))"
proof -
  have "k < sv_started (sys_server S)" "k \<notin> set (sv_joined (sys_server S))"
    using sys_okD(4,7) [OF assms(1)] sys_okD(5) [OF assms(1,2)] assms(2,3) by auto
  with thread_numbers(1) [OF assms(1)] show ?thesis by blast
qed

lemma unjoined_length: "sys_ok options S \<Longrightarrow> length (unjoined S) \<le> maxClients options"
proof -
  assume ok: "sys_ok options S"
  have "distinct (unjoined S)"
    using thread_numbers(2) [OF ok] by (simp add: distinct_map)
  then have "length (unjoined S) = card (set (unjoined S))"
    by (simp add: distinct_card)
  also have "\<dots> \<le> card (set (sv_workers (sys_server S)))"
    using sys_okD(2) [OF ok] by (simp add: card_mono)
  also have "\<dots> \<le> length (sv_workers (sys_server S))"
    by (rule card_length)
  also have "\<dots> \<le> maxClients options"
    using sys_okD(1) [OF ok] .
  finally show ?thesis .
qed

section \<open>Shutting down\<close>

text \<open>How many steps a thread can still make once a signal has come, and the whole system.\<close>

definition th_left :: "('h, 'u) thread \<Rightarrow> nat" where
  "th_left t = (case th_pc t of At_Connect \<Rightarrow> 4 | In_Loop \<Rightarrow> 3 | At_Disconnect \<Rightarrow> 2 | At_Close \<Rightarrow> 1 | _ \<Rightarrow> 0)"

definition threads_left :: "('h, 'u) system \<Rightarrow> nat" where
  "threads_left S =
     sum (\<lambda>k. case sys_threads S k of None \<Rightarrow> 0 | Some t \<Rightarrow> th_left t) {..<sv_started (sys_server S)}"

definition sys_left :: "('h, 'u) system \<Rightarrow> nat" where
  "sys_left S = (case sys_pc S of Serving \<Rightarrow> length (unjoined S) + 2 | Joining ws \<Rightarrow> length ws + 1 | Returned \<Rightarrow> 0)
     + threads_left S"

lemma th_left_step: "n \<noteq> 0 \<Longrightarrow> \<not> th_over t \<Longrightarrow> th_left (thread_step handler (Some n) t) < th_left t"
  using step_signal_over [of n t handler]
  by (cases "th_pc t") (auto simp: th_left_def th_over_def)

lemma threads_left_bound: "sys_ok options S \<Longrightarrow> threads_left S \<le> 4 * length (unjoined S)"
proof -
  assume ok: "sys_ok options S"
  let ?f = "\<lambda>k. case sys_threads S k of None \<Rightarrow> 0 | Some t \<Rightarrow> th_left t"
  have sub: "set (map cw_thr (unjoined S)) \<subseteq> {..<sv_started (sys_server S)}"
    using thread_numbers(1) [OF ok] by blast
  have rest: "?f k = 0" if "k \<notin> set (map cw_thr (unjoined S))" for k
    using running_unjoined [OF ok, of k] that
    by (cases "sys_threads S k") (auto simp: th_left_def split: pc.split)
  have "threads_left S = sum ?f (set (map cw_thr (unjoined S)))"
    unfolding threads_left_def using sub rest by (intro sum.mono_neutral_right) auto
  also have "\<dots> \<le> of_nat (card (set (map cw_thr (unjoined S)))) * 4"
    by (rule sum_bounded_above) (auto simp: th_left_def split: option.split pc.split)
  also have "\<dots> \<le> 4 * length (unjoined S)"
    using card_length [of "map cw_thr (unjoined S)"] by simp
  finally show ?thesis .
qed

lemma sys_left_bound: "sys_ok options S \<Longrightarrow> sys_left S \<le> 5 * maxClients options + 2"
  using threads_left_bound [of options S] unjoined_length [of options S]
  by (auto simp: sys_left_def unjoined_def split: server_pc.splits)

lemma sys_left_step:
  assumes "sys_step handler fac options fd env bufs S lab S'" and "sys_ok options S"
    and "sv_signalStatus (sys_server S) \<noteq> NO_SIGNAL"
  shows "if \<exists>n. lab = By_Signal n then sys_left S' = sys_left S else sys_left S' < sys_left S"
  using assms(1)
proof (cases rule: sys_step.cases)
  case (iterate s')
  with assms(3) show ?thesis by (simp add: serve_iter_def bindA_app)
next
  case (leave s')
  then show ?thesis
    by (simp add: serve_iter_leave sys_left_def threads_left_def unjoined_def)
next
  case (join w ws t s')
  then show ?thesis
    by (auto simp: sys_left_def threads_left_def worker_finish_def split: if_splits)
next
  case finish
  then show ?thesis
    by (simp add: sys_left_def threads_left_def)
next
  case (work k t t')
  let ?g = "\<lambda>ths j. case ths j of None \<Rightarrow> 0 | Some t \<Rightarrow> th_left t"
  have k: "k \<in> {..<sv_started (sys_server S)}"
    using sys_okD(4) [OF assms(2)] work(3) by auto
  have less: "th_left t' < th_left t"
    using th_left_step [OF _ work(4)] assms(3) work(5) by (simp add: seen_signal_def NO_SIGNAL_def)
  have "sum (?g ((sys_threads S)(k \<mapsto> t'))) {..<sv_started (sys_server S)} < sum (?g (sys_threads S)) {..<sv_started (sys_server S)}"
    using k less work(3) by (intro sum_strict_mono_ex1) auto
  moreover have "unjoined S' = unjoined S"
    by (rule unjoined_same) (simp_all add: work(2))
  moreover have "sys_pc S' = sys_pc S" "sys_threads S' = (sys_threads S)(k \<mapsto> t')"
    "sv_started (sys_server S') = sv_started (sys_server S)"
    by (simp_all add: work(2))
  ultimately show ?thesis
    using work(1) unfolding sys_left_def threads_left_def by (simp split: server_pc.split)
next
  case (signal n)
  then show ?thesis
    by (simp add: sys_left_def threads_left_def unjoined_def split: server_pc.split)
qed

definition not_signal :: "label \<Rightarrow> bool" where
  "not_signal lab = (case lab of By_Signal n \<Rightarrow> False | _ \<Rightarrow> True)"

lemma not_signal_simps [simp]:
  "not_signal By_Server" "not_signal (By_Worker k)" "\<not> not_signal (By_Signal n)"
  by (simp_all add: not_signal_def)

lemma sys_left_run:
  assumes "sys_run handler fac options fd env bufs S labs S'" and "sys_ok options S"
    and "sv_signalStatus (sys_server S) \<noteq> NO_SIGNAL"
  shows "sv_signalStatus (sys_server S') \<noteq> NO_SIGNAL \<and> length (filter not_signal labs) + sys_left S' \<le> sys_left S"
  using assms
proof (induction S labs S' rule: sys_run.induct)
  case (stop S)
  then show ?case by simp
next
  case (step S labs S' lab S'')
  have ok: "sys_ok options S'" using sys_ok_run [OF step(1,4)] .
  have ih: "sv_signalStatus (sys_server S') \<noteq> NO_SIGNAL" "length (filter not_signal labs) + sys_left S' \<le> sys_left S"
    using step by simp_all
  have "lab = By_Signal n \<Longrightarrow> n \<noteq> NO_SIGNAL" for n
    using step(2) by (auto elim: sys_step.cases)
  with ih step_signalStatus [OF step(2) ok] sys_left_step [OF step(2) ok ih(1)] show ?case
    by (auto split: label.splits)
qed

text \<open>Nothing waits forever after a signal: until \<^verbatim>\<open>serve\<close> has returned the server or some thread can
  move, unless a thread has halted.\<close>

lemma no_deadlock:
  assumes "sys_ok options S" and "sv_signalStatus (sys_server S) \<noteq> NO_SIGNAL" and "sys_pc S \<noteq> Returned"
    and "\<forall>k t e. sys_threads S k = Some t \<longrightarrow> th_pc t \<noteq> Halted e"
  shows "\<exists>lab S'. not_signal lab \<and> sys_step handler fac options fd env bufs S lab S'"
proof (cases "sys_pc S")
  case Serving
  have "serve_iter fac options fd (sys_server S) = (Inr False, sys_server S)"
    using assms(2) by (simp add: serve_iter_leave)
  from sys_step.leave [OF Serving this] not_signal_simps(1) show ?thesis by blast
next
  case (Joining ws)
  show ?thesis
  proof (cases ws)
    case Nil
    with Joining have "sys_pc S = Joining []" by simp
    from sys_step.finish [OF this] not_signal_simps(1) show ?thesis by blast
  next
    case (Cons w ws')
    have "cw_thr w < sv_started (sys_server S)"
      using thread_numbers(1) [OF assms(1)] Joining Cons by (auto simp: unjoined_def)
    then obtain t where t: "sys_threads S (cw_thr w) = Some t"
      using sys_okD(4) [OF assms(1)] by (metis domD lessThan_iff)
    show ?thesis
    proof (cases "th_pc t = Ended")
      case True
      with sys_okD(5) [OF assms(1) t] have "worker_finish w (sys_server S) =
          (Inr (), (sys_server S)\<lparr>sv_joined := sv_joined (sys_server S) @ [cw_thr w]\<rparr>)"
        by (simp add: worker_finish_inactive worker_isActive_def)
      from sys_step.join [OF Joining [unfolded Cons] t True this] not_signal_simps(1) show ?thesis by blast
    next
      case False
      with assms(4) t have "\<not> th_over t" by (auto simp: th_over_def)
      from sys_step.work [OF t this refl] not_signal_simps(2) show ?thesis by blast
    qed
  qed
qed (use assms(3) in simp)

section \<open>What is known of a run alone holds among others\<close>

lemma worker_loop_more:
  "worker_loop handler sigs buf st = (r, st') \<Longrightarrow> r \<noteq> Inl Starved \<Longrightarrow> worker_loop handler (sigs @ extra) buf st = (r, st')"
proof (induction sigs arbitrary: buf st)
  case Nil
  then show ?case by simp
next
  case (Cons sig sigs)
  obtain r1 st1 where iter: "loop_iter handler sig buf st = (r1, st1)"
    by (metis surj_pair)
  show ?case
  proof (cases "\<exists>buf'. r1 = Inr (Some buf')")
    case True
    then obtain buf' where r1: "r1 = Inr (Some buf')" ..
    have "worker_loop handler sigs buf' st1 = (r, st')"
      using Cons.prems(1) iter r1 by (simp add: worker_loop_iter bindA_app del: worker_loop.simps)
    from Cons.IH [OF this Cons.prems(2)] iter r1 show ?thesis
      by (simp add: worker_loop_iter bindA_app del: worker_loop.simps)
  next
    case False
    then show ?thesis
      using Cons.prems(1) iter
      by (cases r1) (auto simp: worker_loop_iter bindA_app simp del: worker_loop.simps split: option.splits)
  qed
qed

lemma worker_run_more:
  assumes "worker_run handler sigs buf w = (Inr (), w')"
  shows "worker_run handler (sigs @ extra) buf w = (Inr (), w')"
proof -
  obtain r st where run: "run_body handler sigs buf (wk_state w) = (r, st)" by (metis surj_pair)
  have r: "r \<noteq> Inl Starved"
    using assms run by (auto simp: worker_run_def tryA_def split: prod.splits)
  have "run_body handler (sigs @ extra) buf (wk_state w) = (r, st)"
  proof -
    obtain r0 st0 where Pair: "sh_onConnect handler (wk_state w) = (r0, st0)" by (metis surj_pair)
    show ?thesis
    proof (cases r0)
      case (Inl e)
      with Pair run show ?thesis by (auto simp: run_body_def thenA_app)
    next
      case (Inr u)
      obtain r1 st1 where loop: "worker_loop handler sigs buf st0 = (r1, st1)" by (metis surj_pair)
      then have "r1 \<noteq> Inl Starved"
        using Pair Inr run r by (auto simp: run_body_def thenA_app)
      from worker_loop_more [OF loop this] Pair Inr loop run show ?thesis
        by (simp add: run_body_def thenA_app)
    qed
  qed
  with run assms show ?thesis by (simp add: worker_run_def tryA_def)
qed

lemma thread_halted_stays: "th_pc (thread_run handler sigs t) = Halted e \<Longrightarrow>
    thread_run handler (sigs @ extra) t = thread_run handler sigs t"
  by (simp add: thread_run_append th_overI)

text \<open>If \<^verbatim>\<open>run\<close> alone returns when no signal comes, then in every interleaving without a signal the
  thread never halts, has ended after three steps more, and ends with the same result.\<close>

lemma alone_in_system:
  assumes "sys_run handler fac options fd env bufs (sys_start as) labs S" and "\<forall>n. By_Signal n \<notin> set labs"
    and "\<And>cfd. worker_run handler (replicate n None) (bufs k) (worker_start (fac cfd) (env k)) = (Inr (), w cfd)"
    and "sys_threads S k = Some t"
  shows "\<exists>cfd. (\<forall>e. th_pc t \<noteq> Halted e) \<and> (n + 3 \<le> count_list labs (By_Worker k) \<longrightarrow> th_pc t = Ended)
    \<and> (th_pc t = Ended \<longrightarrow> th_worker t = w cfd)"
proof -
  obtain cfd sigs where t: "t = thread_run handler sigs (thread_start (fac cfd) (env k) (bufs k))"
    and len: "length sigs = count_list labs (By_Worker k)"
    and seen: "\<forall>n. Some n \<in> set sigs \<longrightarrow> By_Signal n \<in> set labs"
    using run_threads [OF assms(1), of k] assms(4) by (auto simp: own_run_def)
  let ?t = "thread_start (fac cfd) (env k) (bufs k)" and ?m = "length sigs"
  have sigs: "sigs = replicate ?m None"
    using seen assms(2) by (intro replicate_eqI) (auto, metis not_None_eq)
  let ?all = "None # replicate n None @ [None, None]"
  have "?all = replicate (Suc n + 2) None"
    unfolding replicate_add by (simp add: numeral_eq_Suc)
  then have "?all = replicate (n + 3) None"
    by (simp add: numeral_eq_Suc)
  then have ended: "th_pc (thread_run handler (replicate (n + 3) None) ?t) = Ended"
      "th_worker (thread_run handler (replicate (n + 3) None) ?t) = w cfd"
    using thread_run_reaches [OF assms(3), of None None None cfd] by metis+
  show ?thesis
  proof (cases "n + 3 \<le> ?m")
    case True
    then have "replicate ?m None = replicate (n + 3) None @ replicate (?m - (n + 3)) (None :: int option)"
      by (simp flip: replicate_add)
    then have "t = thread_run handler (replicate (n + 3) None) ?t"
      using ended(1) by (subst t, subst sigs) (simp add: thread_run_append th_overI)
    with ended show ?thesis by auto
  next
    case False
    then have rep: "replicate (n + 3) None = sigs @ replicate (n + 3 - ?m) (None :: int option)"
      by (subst sigs) (simp flip: replicate_add)
    have over: "th_over t \<Longrightarrow> thread_run handler (replicate (n + 3) None) ?t = t"
      unfolding rep thread_run_append t [symmetric] by simp
    have "th_pc t \<noteq> Halted e" for e
      using over ended(1) by (auto simp: th_over_def)
    moreover have "th_pc t = Ended \<Longrightarrow> th_worker t = w cfd"
      using over ended(2) by (simp add: th_over_def)
    ultimately show ?thesis
      using False len by auto
  qed
qed

section \<open>Running the steps\<close>

text \<open>The steps as a function of their label.\<close>

definition sys_do ::
  "('h, 'u) server_handler \<Rightarrow> (int \<Rightarrow> 'h) \<Rightarrow> tcp_options \<Rightarrow> int \<Rightarrow> (nat \<Rightarrow> 'u io) \<Rightarrow> (nat \<Rightarrow> byte list)
   \<Rightarrow> label \<Rightarrow> ('h, 'u) system \<Rightarrow> ('h, 'u) system option"
where
  "sys_do handler fac options fd env bufs lab S =
     (case lab of
        By_Server \<Rightarrow>
          (case sys_pc S of
             Serving \<Rightarrow>
               (case serve_iter fac options fd (sys_server S) of
                  (Inr True, s') \<Rightarrow> Some (S\<lparr>sys_server := s', sys_threads :=
                    spawn env bufs (sv_started (sys_server S)) (sv_workers s') (sys_threads S)\<rparr>)
                | (Inr False, s') \<Rightarrow> Some (S\<lparr>sys_pc := Joining (sv_workers s'), sys_server := s'\<rparr>)
                | _ \<Rightarrow> None)
           | Joining [] \<Rightarrow> Some (S\<lparr>sys_pc := Returned\<rparr>)
           | Joining (w # ws) \<Rightarrow>
               (case (map_option th_pc (sys_threads S (cw_thr w)), worker_finish w (sys_server S)) of
                  (Some Ended, (Inr _, s')) \<Rightarrow> Some (S\<lparr>sys_pc := Joining ws, sys_server := s'\<rparr>)
                | _ \<Rightarrow> None)
           | Returned \<Rightarrow> None)
      | By_Worker k \<Rightarrow>
          (case sys_threads S k of
             None \<Rightarrow> None
           | Some t \<Rightarrow>
               if th_over t then None
               else let t' = thread_step handler (seen_signal (sys_server S)) t in
                 Some (S\<lparr>sys_threads := (sys_threads S)(k \<mapsto> t'),
                   sys_server := (sys_server S)\<lparr>sv_active :=
                     (if wk_isActive (th_worker t') then sv_active (sys_server S) else sv_active (sys_server S) - {k})\<rparr>\<rparr>))
      | By_Signal n \<Rightarrow>
          if n = NO_SIGNAL then None
          else Some (S\<lparr>sys_server := (sys_server S)\<lparr>sv_signalStatus := n\<rparr>\<rparr>))"

lemma sys_step_do:
  "sys_step handler fac options fd env bufs S lab S' \<longleftrightarrow> sys_do handler fac options fd env bufs lab S = Some S'"
proof
  assume "sys_step handler fac options fd env bufs S lab S'"
  then show "sys_do handler fac options fd env bufs lab S = Some S'"
    by (cases rule: sys_step.cases) (simp_all add: sys_do_def)
next
  assume do: "sys_do handler fac options fd env bufs lab S = Some S'"
  show "sys_step handler fac options fd env bufs S lab S'"
  proof (cases lab)
    case (By_Worker k)
    with do obtain t where t: "sys_threads S k = Some t" "\<not> th_over t"
      by (auto simp: sys_do_def split: option.splits if_splits)
    with do By_Worker sys_step.work [OF t refl, of handler fac options fd env bufs] show ?thesis
      by (simp add: sys_do_def Let_def)
  next
    case By_Server
    with do show ?thesis
      by (auto simp: sys_do_def intro: sys_step.intros
          split: server_pc.splits prod.splits sum.splits bool.splits list.splits option.splits pc.splits)
  next
    case (By_Signal n)
    with do show ?thesis
      by (auto simp: sys_do_def intro: sys_step.intros split: if_splits)
  qed
qed

fun sys_exec ::
  "('h, 'u) server_handler \<Rightarrow> (int \<Rightarrow> 'h) \<Rightarrow> tcp_options \<Rightarrow> int \<Rightarrow> (nat \<Rightarrow> 'u io) \<Rightarrow> (nat \<Rightarrow> byte list)
   \<Rightarrow> label list \<Rightarrow> ('h, 'u) system \<Rightarrow> ('h, 'u) system option"
where
  "sys_exec handler fac options fd env bufs [] S = Some S"
| "sys_exec handler fac options fd env bufs (lab # labs) S =
     (case sys_do handler fac options fd env bufs lab S of
        None \<Rightarrow> None
      | Some S' \<Rightarrow> sys_exec handler fac options fd env bufs labs S')"

lemma sys_run_more:
  "sys_run handler fac options fd env bufs S1 labs S2 \<Longrightarrow> sys_run handler fac options fd env bufs S0 labs0 S1 \<Longrightarrow>
   sys_run handler fac options fd env bufs S0 (labs0 @ labs) S2"
proof (induction S1 labs S2 rule: sys_run.induct)
  case (stop S)
  then show ?case by simp
next
  case (step S labs S' lab S'')
  from sys_run.step [OF step(3) [OF step(4)] step(2)] show ?case by simp
qed

lemma sys_exec_run:
  "sys_exec handler fac options fd env bufs labs S = Some S' \<Longrightarrow> sys_run handler fac options fd env bufs S labs S'"
proof (induction labs arbitrary: S)
  case Nil
  then show ?case by (simp add: sys_run.stop)
next
  case (Cons lab labs)
  then obtain S1 where do1: "sys_do handler fac options fd env bufs lab S = Some S1"
    and run: "sys_run handler fac options fd env bufs S1 labs S'"
    by (auto split: option.splits)
  from do1 have "sys_run handler fac options fd env bufs S ([] @ [lab]) S1"
    using sys_run.step [OF sys_run.stop] by (simp add: sys_step_do)
  from sys_run_more [OF run this] show ?case by simp
qed

text \<open>A thread can go on by itself while no signal has come.\<close>

lemma thread_can_run:
  assumes "sys_threads S k = Some t" and "sv_signalStatus (sys_server S) = NO_SIGNAL"
  shows "\<exists>S' j. sys_run handler fac options fd env bufs S (replicate j (By_Worker k)) S'
    \<and> sys_threads S' k = Some (thread_run handler (replicate m None) t)"
  using assms
proof (induction m arbitrary: S t)
  case 0
  then have "sys_run handler fac options fd env bufs S (replicate 0 (By_Worker k)) S
      \<and> sys_threads S k = Some (thread_run handler (replicate 0 None) t)"
    by (simp add: sys_run.stop)
  then show ?case by blast
next
  case (Suc m)
  show ?case
  proof (cases "th_over t")
    case True
    then have "sys_run handler fac options fd env bufs S (replicate 0 (By_Worker k)) S
        \<and> sys_threads S k = Some (thread_run handler (replicate (Suc m) None) t)"
      using Suc.prems(1) by (simp add: sys_run.stop del: replicate.simps(2))
    then show ?thesis by blast
  next
    case False
    obtain S1 where work: "sys_step handler fac options fd env bufs S (By_Worker k) S1"
      and S1: "sys_threads S1 k = Some (thread_step handler None t)" "sv_signalStatus (sys_server S1) = NO_SIGNAL"
      using sys_step.work [OF Suc.prems(1) False refl, of handler fac options fd env bufs] Suc.prems(2)
      by (fastforce simp: seen_signal_def)
    from Suc.IH [OF S1] obtain S' j where
      run: "sys_run handler fac options fd env bufs S1 (replicate j (By_Worker k)) S'"
      and t: "sys_threads S' k = Some (thread_run handler (replicate m None) (thread_step handler None t))"
      by blast
    have "sys_run handler fac options fd env bufs S [By_Worker k] S1"
      using sys_run.step [OF sys_run.stop work] by simp
    from sys_run_more [OF run this]
    have "sys_run handler fac options fd env bufs S (replicate (Suc j) (By_Worker k)) S'"
      by simp
    moreover have "sys_threads S' k = Some (thread_run handler (replicate (Suc m) None) t)"
      using t by simp
    ultimately show ?thesis by blast
  qed
qed

text \<open>An example: a client connects and is silent, a signal comes, and the server shuts down.\<close>

abbreviation idle_handler :: "(unit, unit) server_handler" where
  "idle_handler \<equiv> \<lparr>sh_onConnect = retA (), sh_onReceive = \<lambda>_ _. retA (), sh_onDisconnect = retA ()\<rparr>"

abbreviation demo_env :: "nat \<Rightarrow> unit io" where
  "demo_env \<equiv> \<lambda>_. io_start [] [] [Poll_Timeout] ()"

abbreviation demo_bufs :: "nat \<Rightarrow> byte list" where
  "demo_bufs \<equiv> \<lambda>_. []"

abbreviation demo_start :: "(unit, unit) system" where
  "demo_start \<equiv> sys_start [Sys_Revents 1, Sys_Ok 7, Sys_Ok 0]"

abbreviation demo_exec :: "label list \<Rightarrow> (unit, unit) system \<Rightarrow> (unit, unit) system option" where
  "demo_exec \<equiv> sys_exec idle_handler (\<lambda>_. ()) ServerOptions 3 demo_env demo_bufs"

lemmas demo_simps = sys_do_def sys_start_def server_start_def serve_iter_def bindA_app thenA_app NO_SIGNAL_def
  on_kernel_def listen_accept_def SocketImpl_new_def listen_poll_def syscall_def serve_client_def cleanup_run emplace_worker_def
  POLLIN_def setTcpNoDelay_def ServerOptions_def spawn_def thread_start_def worker_start_def th_over_def
  thread_step_def th_do_def loop_iter_def on_io_app isReadable_timeout seen_signal_def Let_def

lemma demo_connected:
  "\<exists>S t. demo_exec [By_Server, By_Worker 0, By_Worker 0] demo_start = Some S
     \<and> sys_pc S = Serving \<and> sys_threads S 0 = Some t \<and> th_pc t = In_Loop"
  by (simp add: demo_simps)

lemma demo_signalled:
  "\<exists>S. demo_exec [By_Server, By_Worker 0, By_Signal 15] demo_start = Some S
     \<and> sv_signalStatus (sys_server S) = 15 \<and> sys_pc S = Serving"
  by (simp add: demo_simps)

lemma demo_ended:
  "\<exists>S t. demo_exec [By_Server, By_Worker 0, By_Signal 15, By_Worker 0, By_Worker 0, By_Worker 0] demo_start = Some S
     \<and> sys_threads S 0 = Some t \<and> th_pc t = Ended"
  by (simp add: demo_simps sock_close_def)

text \<open>One client in a server of its own: the server accepts it, and its thread runs to the end that \<^verbatim>\<open>run\<close>
  alone has.\<close>

lemma one_client_ends:
  assumes "worker_run handler (replicate n None) (bufs 0) (worker_start (fac (7 :: int)) (env 0)) = (Inr (), w)"
  shows "\<exists>labs S t. sys_run handler fac ServerOptions 3 env bufs (sys_start [Sys_Revents 1, Sys_Ok 7, Sys_Ok 0]) labs S
    \<and> (\<forall>n. By_Signal n \<notin> set labs) \<and> sys_threads S 0 = Some t \<and> th_pc t = Ended \<and> th_worker t = w"
proof -
  let ?t = "thread_start (fac 7) (env 0) (bufs 0)"
  obtain S0 where S0: "sys_exec handler fac ServerOptions 3 env bufs [By_Server] (sys_start [Sys_Revents 1, Sys_Ok 7, Sys_Ok 0]) = Some S0"
    "sys_threads S0 0 = Some ?t" "sv_signalStatus (sys_server S0) = NO_SIGNAL"
    by (simp add: demo_simps)
  have "None # replicate n None @ [None, None] = replicate (n + 3) (None :: int option)"
    unfolding replicate_Suc [symmetric] by (simp add: numeral_eq_Suc flip: replicate_append_same)
  then have over: "th_pc (thread_run handler (replicate (n + 3) None) ?t) = Ended"
      "th_worker (thread_run handler (replicate (n + 3) None) ?t) = w"
    using thread_run_reaches [OF assms, of None None None] by metis+
  from thread_can_run [OF S0(2,3), of handler fac ServerOptions 3 env bufs "n + 3"] obtain S j where
    run: "sys_run handler fac ServerOptions 3 env bufs S0 (replicate j (By_Worker 0)) S"
    and t: "sys_threads S 0 = Some (thread_run handler (replicate (n + 3) None) ?t)" by blast
  note sys_run_more [OF run sys_exec_run [OF S0(1)]]
  with over t show ?thesis
    by (intro exI [of _ "[By_Server] @ replicate j (By_Worker 0)"] exI [of _ S]) auto
qed

section \<open>Properties\<close>



text \<open>C15. The threads that run are within bounds, and what they run on exists: whatever the
  interleaving, at most \<^verbatim>\<open>maxClients\<close> threads have not ended, each of them is the thread of exactly
  one \<^verbatim>\<open>ClientWorker\<close> the server still holds (the object its \<^verbatim>\<open>this\<close> points to), and \<^verbatim>\<open>serve\<close> has not
  returned before all of them have ended.\<close>

theorem running_threads_owned:
  assumes "sys_run handler fac options fd env bufs (sys_start as) labs S"
    and "running = {k. \<exists>t. sys_threads S k = Some t \<and> th_pc t \<noteq> Ended}"
  shows "card running \<le> maxClients options
    \<and> (\<forall>k \<in> running. \<exists>!w. w \<in> set (unjoined S) \<and> cw_thr w = k)
    \<and> set (unjoined S) \<subseteq> set (sv_workers (sys_server S))
    \<and> (sys_pc S = Returned \<longrightarrow> running = {})"
proof -
  have ok: "sys_ok options S" using sys_ok_reachable assms(1) .
  have sub: "running \<subseteq> set (map cw_thr (unjoined S))"
    using running_unjoined [OF ok] by (auto simp: assms(2))
  have "card running \<le> card (set (map cw_thr (unjoined S)))"
    using sub by (rule card_mono [rotated]) simp
  also have "\<dots> \<le> maxClients options"
    using card_length [of "map cw_thr (unjoined S)"] unjoined_length [OF ok] by simp
  finally have "card running \<le> maxClients options" .
  moreover have "\<exists>!w. w \<in> set (unjoined S) \<and> cw_thr w = k" if "k \<in> running" for k
    using sub that thread_numbers(2) [OF ok] by (auto simp: distinct_map inj_on_def)
  moreover have "running = {}" if "sys_pc S = Returned"
    using sub that by (simp add: unjoined_def)
  ultimately show ?thesis
    using sys_okD(2) [OF ok] by blast
qed

theorem running_threads_owned_witness:
  "\<exists>S. demo_exec [By_Server, By_Worker 0, By_Worker 0] demo_start = Some S
    \<and> (\<exists>!w. w \<in> set (unjoined S) \<and> cw_thr w = 0)"
proof -
  obtain S t where ex: "demo_exec [By_Server, By_Worker 0, By_Worker 0] demo_start = Some S"
    and t: "sys_threads S 0 = Some t" "th_pc t = In_Loop"
    using demo_connected by blast
  from running_threads_owned [OF sys_exec_run [OF ex] refl] t ex show ?thesis by auto
qed



text \<open>C12. Shutting down the whole program: once a signal has come, however the threads are scheduled
  from then on, they and the server make at most \<open>5 * maxClients + 2\<close> more steps; as long as
  \<^verbatim>\<open>serve\<close> has not returned and no thread has halted, one of them can make a step; and when \<^verbatim>\<open>serve\<close>
  has returned, every thread has ended and has been joined once.\<close>

theorem system_shutdown:
  assumes "sys_run handler fac options fd env bufs (sys_start as) labs S"
    and "sv_signalStatus (sys_server S) \<noteq> NO_SIGNAL"
    and "sys_run handler fac options fd env bufs S labs' S'"
  shows "length (filter not_signal labs') \<le> 5 * maxClients options + 2
    \<and> (sys_pc S' = Returned \<longrightarrow> mset (sv_joined (sys_server S')) = mset [0..<sv_started (sys_server S')]
        \<and> (\<forall>k t. sys_threads S' k = Some t \<longrightarrow> th_pc t = Ended))
    \<and> (sys_pc S' \<noteq> Returned \<and> (\<forall>k t e. sys_threads S' k = Some t \<longrightarrow> th_pc t \<noteq> Halted e) \<longrightarrow>
        (\<exists>lab S''. not_signal lab \<and> sys_step handler fac options fd env bufs S' lab S''))"
proof -
  have ok: "sys_ok options S" using sys_ok_reachable assms(1) .
  have ok': "sys_ok options S'" using sys_ok_run [OF assms(3) ok] .
  note left = sys_left_run [OF assms(3) ok assms(2)]
  have "length (filter not_signal labs') \<le> 5 * maxClients options + 2"
    using left sys_left_bound [OF ok] by linarith
  moreover have "mset (sv_joined (sys_server S')) = mset [0..<sv_started (sys_server S')]
      \<and> (\<forall>k t. sys_threads S' k = Some t \<longrightarrow> th_pc t = Ended)" if "sys_pc S' = Returned"
    using that sys_okD(3) [OF ok'] running_unjoined [OF ok'] by (auto simp: unjoined_def)
  ultimately show ?thesis
    using no_deadlock [OF ok'] left by blast
qed

theorem system_shutdown_witness:
  "\<exists>S lab S''. demo_exec [By_Server, By_Worker 0, By_Signal 15] demo_start = Some S
    \<and> sys_step idle_handler (\<lambda>_. ()) ServerOptions 3 demo_env demo_bufs S lab S''"
proof -
  obtain S where ex: "demo_exec [By_Server, By_Worker 0, By_Signal 15] demo_start = Some S"
    and S: "sv_signalStatus (sys_server S) = 15" "sys_pc S = Serving"
    using demo_signalled by blast
  have halted: "\<forall>k t e. sys_threads S k = Some t \<longrightarrow> th_pc t \<noteq> Halted e"
    using ex by (auto simp: demo_simps split: if_splits)
  have "sv_signalStatus (sys_server S) \<noteq> NO_SIGNAL" using S by (simp add: NO_SIGNAL_def)
  from system_shutdown [OF sys_exec_run [OF ex] this sys_run.stop] S halted ex show ?thesis
    by (auto simp del: sys_exec.simps)
qed

end
