(* ===== verification/Http_System.thy ===== *)
theory Http_System
  imports Http_Server Http_Phases Ws_Sessions Tcp_System
begin

text \<open>
  Whole HTTP servers: the server's thread and the connections of all its clients, in any interleaving.
  What \<open>Http_Sessions\<close> and \<open>Ws_Sessions\<close> show of one connection alone is carried over by
  \<open>alone_in_system\<close> of \<open>Tcp_System\<close>.
\<close>







end
