(* ===== verification/Posix_Signal.thy ===== *)
theory Posix_Signal
  imports Posix_Socket
begin

text \<open>
  The quit condition of \<^verbatim>\<open>examples/system_context/system_posix.cpp\<close> as the process sees it:
  \<^verbatim>\<open>initQuitCondition\<close> installs \<^verbatim>\<open>sigHandler\<close> with \<^verbatim>\<open>std::signal\<close>, the kernel delivers signals,
  and \<^verbatim>\<open>quitCondition\<close> reads the status the handler has set.

  The default action of a signal is the environment's: \<open>kills n\<close> says that it ends the process. ISO C
  leaves open whether \<^verbatim>\<open>signal\<close> installs a handler for good or for one delivery; the flag
  \<open>one_shot\<close> is that choice (the GNU C library installs for good).
\<close>

section \<open>The code\<close>

datatype disposition = Sig_Default | Sig_Handler

record process =
  pr_disposition :: "int \<Rightarrow> disposition"
  pr_signalStatus :: int
  pr_killed :: bool

definition SIGINT :: int where "SIGINT = 2"
definition SIGTERM :: int where "SIGTERM = 15"

definition std_signal :: "int \<Rightarrow> disposition \<Rightarrow> (process, unit) act" where
  "std_signal n d = modA (\<lambda>p. p\<lparr>pr_disposition := (pr_disposition p)(n := d)\<rparr>)"

definition initQuitCondition :: "(process, unit) act" where
  "initQuitCondition = thenA (std_signal SIGINT Sig_Handler) (std_signal SIGTERM Sig_Handler)"

definition process_quitCondition :: "process \<Rightarrow> bool" where
  "process_quitCondition p \<longleftrightarrow> pr_signalStatus p \<noteq> NO_SIGNAL"

text \<open>The delivery of a signal to a living process.\<close>

definition deliver :: "bool \<Rightarrow> (int \<Rightarrow> bool) \<Rightarrow> int \<Rightarrow> process \<Rightarrow> process" where
  "deliver one_shot kills n p =
     (if pr_killed p then p
      else case pr_disposition p n of
        Sig_Handler \<Rightarrow> p\<lparr>pr_signalStatus := n,
          pr_disposition := (if one_shot then (pr_disposition p)(n := Sig_Default) else pr_disposition p)\<rparr>
      | Sig_Default \<Rightarrow> p\<lparr>pr_killed := kills n\<rparr>)"

definition process_start :: process where
  "process_start = \<lparr>pr_disposition = \<lambda>_. Sig_Default, pr_signalStatus = NO_SIGNAL, pr_killed = False\<rparr>"

section \<open>Signals after the initialisation\<close>

text \<open>The state after the initialisation and the delivery of the signals \<open>ns\<close>.\<close>

definition after_signals :: "bool \<Rightarrow> (int \<Rightarrow> bool) \<Rightarrow> int list \<Rightarrow> process" where
  "after_signals one_shot kills ns = fold (deliver one_shot kills) ns (snd (initQuitCondition process_start))"

lemma installed: "pr_disposition (snd (initQuitCondition process_start)) n =
    (if n \<in> {SIGINT, SIGTERM} then Sig_Handler else Sig_Default)"
  by (simp add: initQuitCondition_def std_signal_def thenA_app process_start_def)

text \<open>What has happened to a process that had the signals \<open>ns\<close>: it is alive as long as each was caught or
  harmless, and the status is the last caught one.\<close>

definition caught :: "bool \<Rightarrow> int list \<Rightarrow> int \<Rightarrow> bool" where
  "caught one_shot before n \<longleftrightarrow> n \<in> {SIGINT, SIGTERM} \<and> (one_shot \<longrightarrow> n \<notin> set before)"

lemma after_signals_snoc:
  "after_signals one_shot kills (ns @ [n]) = deliver one_shot kills n (after_signals one_shot kills ns)"
  by (simp add: after_signals_def)

lemma after_signals_alive:
  assumes "\<not> pr_killed (after_signals one_shot kills ns)"
  shows "pr_disposition (after_signals one_shot kills ns) n = (if caught one_shot ns n then Sig_Handler else Sig_Default)
    \<and> (pr_signalStatus (after_signals one_shot kills ns) = NO_SIGNAL \<longleftrightarrow> set ns \<inter> {SIGINT, SIGTERM} = {})"
  using assms
proof (induction ns arbitrary: n rule: rev_induct)
  case Nil
  then show ?case
    by (simp add: after_signals_def installed caught_def)
      (simp add: initQuitCondition_def std_signal_def thenA_app process_start_def)
next
  case (snoc m ns)
  let ?p = "after_signals one_shot kills ns"
  have alive: "\<not> pr_killed ?p"
    using snoc.prems by (auto simp: after_signals_snoc deliver_def)
  note ih = snoc.IH [OF alive]
  show ?case
  proof (cases "caught one_shot ns m")
    case True
    then have "pr_disposition ?p m = Sig_Handler" "m \<in> {SIGINT, SIGTERM}"
      using ih [of m] by (auto simp: caught_def)
    then show ?thesis
      using alive ih [of n] True
      by (auto simp: after_signals_snoc deliver_def caught_def SIGINT_def SIGTERM_def NO_SIGNAL_def)
  next
    case False
    then have "pr_disposition ?p m = Sig_Default"
      using ih [of m] by simp
    moreover have "m \<in> {SIGINT, SIGTERM} \<longrightarrow> m \<in> set ns"
      using False by (auto simp: caught_def)
    ultimately show ?thesis
      using alive ih [of n] by (auto simp: after_signals_snoc deliver_def caught_def)
  qed
qed

section \<open>Properties\<close>

text \<open>After \<^verbatim>\<open>initQuitCondition\<close> the quit condition holds exactly from the first SIGINT or SIGTERM
  on, whatever signals come, as long as the process lives; and the first of them does not end it:
  a process that is ended has had another deadly signal, or, where handlers are installed for one
  delivery only, one of the two a second time.\<close>

theorem quit_condition_after_init:
  assumes "p = after_signals one_shot kills ns"
  shows "(\<not> pr_killed p \<longrightarrow> (process_quitCondition p \<longleftrightarrow> set ns \<inter> {SIGINT, SIGTERM} \<noteq> {}))
    \<and> (pr_killed p \<longrightarrow> (\<exists>n before after. ns = before @ n # after \<and> kills n
        \<and> (n \<in> {SIGINT, SIGTERM} \<longrightarrow> one_shot \<and> n \<in> set before)))"
proof -
  have "\<exists>n before after. ns = before @ n # after \<and> kills n \<and> (n \<in> {SIGINT, SIGTERM} \<longrightarrow> one_shot \<and> n \<in> set before)"
    if "pr_killed (after_signals one_shot kills ns)" for ns
    using that
  proof (induction ns rule: rev_induct)
    case Nil
    then show ?case
      by (simp add: after_signals_def initQuitCondition_def std_signal_def thenA_app process_start_def)
  next
    case (snoc m ns)
    show ?case
    proof (cases "pr_killed (after_signals one_shot kills ns)")
      case True
      with snoc.IH obtain n before after where "ns = before @ n # after" "kills n"
        "n \<in> {SIGINT, SIGTERM} \<longrightarrow> one_shot \<and> n \<in> set before" by blast
      then show ?thesis by (intro exI [of _ n] exI [of _ before] exI [of _ "after @ [m]"]) simp
    next
      case False
      with snoc.prems after_signals_alive [OF False, of m] have "kills m" "\<not> caught one_shot ns m"
        by (auto simp: after_signals_snoc deliver_def split: if_splits)
      then show ?thesis
        by (intro exI [of _ m] exI [of _ ns] exI [of _ "[]"]) (auto simp: caught_def)
    qed
  qed
  with after_signals_alive [of one_shot kills ns SIGINT] assms show ?thesis
    by (auto simp: process_quitCondition_def)
qed

theorem quit_condition_after_init_witness:
  "process_quitCondition (after_signals False (\<lambda>n. n \<noteq> 17) [17, 2])
   \<and> \<not> process_quitCondition (after_signals False (\<lambda>n. n \<noteq> 17) [17])"
proof -
  have "\<not> pr_killed (after_signals False (\<lambda>n. n \<noteq> 17) [17, 2])" "\<not> pr_killed (after_signals False (\<lambda>n. n \<noteq> 17) [17])"
    by code_simp+
  with quit_condition_after_init [OF refl, of False "\<lambda>n. n \<noteq> 17" "[17, 2]"]
    quit_condition_after_init [OF refl, of False "\<lambda>n. n \<noteq> 17" "[17]"]
  show ?thesis by (simp add: SIGINT_def SIGTERM_def)
qed

end
