(* ===== verification/Push_Servers.thy ===== *)
theory Push_Servers
  imports Ws_Handler
begin

text \<open>
  The push servers of \<^verbatim>\<open>examples/tcp_push/main.cpp\<close> and \<^verbatim>\<open>examples/ws_push\<close>
  (\<^verbatim>\<open>manager.hpp\<close>, \<^verbatim>\<open>handler.{hpp,cpp}\<close>, \<^verbatim>\<open>pusher.cpp\<close>): a manager that knows the connections,
  handlers that enter and leave it, and a thread that pushes a counter to all of them.

  Here several connections live in one state: \<open>hub_conns\<close> maps addresses to connections, and the
  manager's \<^verbatim>\<open>std::set\<close> of pointers is the sorted list of addresses. The mutex makes each of the
  manager's three operations one step.
\<close>

section \<open>The code\<close>

record 'u hub =
  hub_conns :: "'u connections"
  hub_elements :: "nat list"
  hub_signalStatus :: int

definition on_conn :: "nat \<Rightarrow> ('u io, 'a) act \<Rightarrow> ('u hub, 'a) act" where
  "on_conn c m = (\<lambda>s. case at_conn c m (hub_conns s) of (r, cs) \<Rightarrow> (r, s\<lparr>hub_conns := cs\<rparr>))"

definition addElem :: "nat \<Rightarrow> ('u hub, unit) act" where
  "addElem c = modA (\<lambda>s. s\<lparr>hub_elements := insort_insert c (hub_elements s)\<rparr>)"

definition delElem :: "nat \<Rightarrow> ('u hub, unit) act" where
  "delElem c = modA (\<lambda>s. s\<lparr>hub_elements := remove1 c (hub_elements s)\<rparr>)"

text \<open>\<^verbatim>\<open>ConnMgr\<close> of \<^verbatim>\<open>tcp_push\<close> is the same class under another name.\<close>

definition addConn :: "nat \<Rightarrow> ('u hub, unit) act" where
  "addConn c = modA (\<lambda>s. s\<lparr>hub_elements := insort_insert c (hub_elements s)\<rparr>)"

definition delConn :: "nat \<Rightarrow> ('u hub, unit) act" where
  "delConn c = modA (\<lambda>s. s\<lparr>hub_elements := remove1 c (hub_elements s)\<rparr>)"

fun push_loop :: "('u io, 'a) act \<Rightarrow> nat list \<Rightarrow> ('u hub, unit) act" where
  "push_loop send [] = retA ()"
| "push_loop send (c # cs) = thenA (on_conn c send) (push_loop send cs)"

definition push :: "('u io, 'a) act \<Rightarrow> ('u hub, unit) act" where
  "push send = (\<lambda>s. push_loop send (hub_elements s) s)"

definition push_onConnect :: "string \<Rightarrow> nat \<Rightarrow> ('u hub, unit) act" where
  "push_onConnect greeting c = thenA (on_conn c (log_io (Log_Info greeting))) (addConn c)"

definition push_onDisconnect :: "string \<Rightarrow> nat \<Rightarrow> ('u hub, unit) act" where
  "push_onDisconnect farewell c = thenA (delConn c) (on_conn c (log_io (Log_Info farewell)))"

definition tcp_push_onReceive :: "nat \<Rightarrow> byte list \<Rightarrow> nat \<Rightarrow> ('u hub, unit) act" where
  "tcp_push_onReceive c buf len =
     bindA (liftR (region buf len)) (\<lambda>bytes. thenA (on_conn c (conn_send bytes)) (retA ()))"

definition ws_push_onData :: "nat \<Rightarrow> byte list \<Rightarrow> nat \<Rightarrow> ('u hub, unit) act" where
  "ws_push_onData c buf len = thenA (on_conn c (ws_send_data buf len)) (retA ())"

text \<open>The message: the counter, the newline of \<^verbatim>\<open>std::endl\<close>, the terminator.\<close>

definition counter_message :: "nat \<Rightarrow> byte list" where
  "counter_message cnt = bytes_of (dec cnt @ [LF]) @ [0]"

definition tcp_push_send :: "nat \<Rightarrow> ('u io, unit) act" where
  "tcp_push_send cnt = thenA (conn_send (counter_message cnt)) (retA ())"

definition ws_push_send :: "nat \<Rightarrow> ('u io, unit) act" where
  "ws_push_send cnt = thenA (ws_send_text (counter_message cnt)) (retA ())"

text \<open>The thread's loop; the list says which signal came before each check.\<close>

fun pusher_loop :: "(nat \<Rightarrow> ('u io, unit) act) \<Rightarrow> int option list \<Rightarrow> nat \<Rightarrow> ('u hub, unit) act" where
  "pusher_loop send [] cnt = failA Starved"
| "pusher_loop send (sig # sigs) cnt =
     thenA (modA (\<lambda>s. s\<lparr>hub_signalStatus := (case sig of None \<Rightarrow> hub_signalStatus s | Some n \<Rightarrow> n)\<rparr>))
    (bindA (getA hub_signalStatus) (\<lambda>signalStatus.
     if signalStatus \<noteq> NO_SIGNAL then retA ()
     else thenA (push (send cnt)) (pusher_loop send sigs (Suc cnt))))"

text \<open>\<^verbatim>\<open>pusherRunner\<close> is a thread's function: an exception that leaves it is \<^verbatim>\<open>std::terminate\<close>.\<close>

definition pusherRunner :: "(nat \<Rightarrow> ('u io, unit) act) \<Rightarrow> int option list \<Rightarrow> ('u hub, unit) act" where
  "pusherRunner send sigs = tryA (pusher_loop send sigs 0) (\<lambda>e. failA Terminate)"

section \<open>The manager\<close>

definition hub_ok :: "'u hub \<Rightarrow> bool" where
  "hub_ok s \<longleftrightarrow> sorted (hub_elements s) \<and> distinct (hub_elements s)"

lemma on_conn_elements: "hub_elements (snd (on_conn c m s)) = hub_elements s"
  by (simp add: on_conn_def split: prod.split)

lemma hub_ok_on_conn [kept]: "keeps hub_ok (on_conn c m)"
  by (rule keepsI) (simp add: hub_ok_def on_conn_elements)

lemma hub_ok_addElem [kept]: "keeps hub_ok (addElem c)"
  by (rule keepsI) (simp add: hub_ok_def addElem_def sorted_insort_insert distinct_insort_insert)

lemma hub_ok_delElem [kept]: "keeps hub_ok (delElem c)"
  by (rule keepsI) (simp add: hub_ok_def delElem_def sorted_remove1)

lemma on_conn_run:
  "hub_conns s c = Some i \<Longrightarrow> m i = (r, i') \<Longrightarrow>
   on_conn c m s = (r, s\<lparr>hub_conns := (hub_conns s)(c \<mapsto> i')\<rparr>)"
  by (simp add: on_conn_def at_conn_def)

lemma on_conn_dangling:
  "hub_conns s c = None \<Longrightarrow> on_conn c m s = (Inl (UB Dangling_Pointer), s)"
  by (simp add: on_conn_def at_conn_def)

text \<open>A push in which every send returns: each connection of the list has been sent to once, the
  others are as they were.\<close>

lemma push_loop_run:
  assumes "distinct cs" and "\<forall>c \<in> set cs. \<exists>i x i'. hub_conns s c = Some i \<and> send i = (Inr x, i')"
  shows "push_loop send cs s = (Inr (), s\<lparr>hub_conns := (\<lambda>c. if c \<in> set cs
    then map_option (\<lambda>i. snd (send i)) (hub_conns s c) else hub_conns s c)\<rparr>)"
  using assms
proof (induction cs arbitrary: s)
  case Nil
  then show ?case by simp
next
  case (Cons c cs)
  then obtain i x i' where i: "hub_conns s c = Some i" "send i = (Inr x, i')" by auto
  let ?s = "s\<lparr>hub_conns := (hub_conns s)(c \<mapsto> i')\<rparr>"
  have "\<forall>d \<in> set cs. \<exists>i x i'. hub_conns ?s d = Some i \<and> send i = (Inr x, i')"
    using Cons.prems by auto
  then have "push_loop send cs ?s = (Inr (), ?s\<lparr>hub_conns := (\<lambda>d. if d \<in> set cs
      then map_option (\<lambda>i. snd (send i)) (hub_conns ?s d) else hub_conns ?s d)\<rparr>)"
    using Cons.prems(1) by (intro Cons.IH) simp_all
  also have "?s\<lparr>hub_conns := (\<lambda>d. if d \<in> set cs
      then map_option (\<lambda>i. snd (send i)) (hub_conns ?s d) else hub_conns ?s d)\<rparr> =
    s\<lparr>hub_conns := (\<lambda>d. if d \<in> set (c # cs)
      then map_option (\<lambda>i. snd (send i)) (hub_conns s d) else hub_conns s d)\<rparr>"
    using Cons.prems(1) i by (auto simp: fun_eq_iff)
  finally show ?case
    by (simp only: push_loop.simps thenA_Inr [where m = "on_conn c send", OF on_conn_run [where m = send, OF i]])
qed

section \<open>Properties\<close>

text \<open>C37. A push reaches every connection the manager knows, once, and no other: if all of them are
  alive, open and their kernels accept the bytes, each gets exactly the counter's message, and the
  manager is unchanged.\<close>

theorem push_reaches_all:
  assumes "hub_ok s"
    and "\<forall>c \<in> set (hub_elements s). \<exists>i. hub_conns s c = Some i \<and> \<not> io_closed i
      \<and> length (counter_message cnt) \<le> length (io_sends i) \<and> (\<forall>a \<in> set (io_sends i). \<exists>k > 0. a = Sent k)"
    and "length (counter_message cnt) < 2 ^ 64"
  shows "\<exists>s'. push (tcp_push_send cnt) s = (Inr (), s') \<and> hub_elements s' = hub_elements s
    \<and> (\<forall>c. c \<notin> set (hub_elements s) \<longrightarrow> hub_conns s' c = hub_conns s c)
    \<and> (\<forall>c \<in> set (hub_elements s). \<exists>i i'. hub_conns s c = Some i \<and> hub_conns s' c = Some i'
        \<and> io_wire i' = io_wire i @ counter_message cnt)"
proof -
  have sent: "\<exists>i i'. hub_conns s c = Some i \<and> tcp_push_send cnt i = (Inr (), i')
      \<and> io_wire i' = io_wire i @ counter_message cnt" if c: "c \<in> set (hub_elements s)" for c
  proof -
    obtain i where i: "hub_conns s c = Some i" and "conn_ready (length (counter_message cnt) + 0) i"
      using assms(2) c by (auto simp: conn_ready_def io_willing_def)
    from tcp.send_ready [OF this(2) assms(3)] i show ?thesis
      by (auto simp: tcp_push_send_def thenA_app)
  qed
  then have "\<forall>c \<in> set (hub_elements s). \<exists>i x i'. hub_conns s c = Some i \<and> tcp_push_send cnt i = (Inr x, i')"
    by blast
  with assms(1) have run: "push (tcp_push_send cnt) s = (Inr (), s\<lparr>hub_conns := (\<lambda>c. if c \<in> set (hub_elements s)
      then map_option (\<lambda>i. snd (tcp_push_send cnt i)) (hub_conns s c) else hub_conns s c)\<rparr>)"
    by (simp add: push_def push_loop_run hub_ok_def)
  show ?thesis
    unfolding run using sent by fastforce
qed

theorem push_reaches_all_witness:
  "\<exists>s'. push (tcp_push_send 7) \<lparr>hub_conns = [1 \<mapsto> io_start (replicate 3 (Sent 1)) [] [] (),
      2 \<mapsto> io_start (replicate 3 (Sent 5)) [] [] ()], hub_elements = [1, 2], hub_signalStatus = 0\<rparr> = (Inr (), s')
    \<and> (\<exists>i. hub_conns s' 2 = Some i \<and> io_wire i = [55, 10, 0])"
proof -
  let ?s = "\<lparr>hub_conns = [1 \<mapsto> io_start (replicate 3 (Sent 1)) [] [] (),
      2 \<mapsto> io_start (replicate 3 (Sent 5)) [] [] ()], hub_elements = [1, 2], hub_signalStatus = 0\<rparr>"
  have msg: "counter_message 7 = [55, 10, 0]"
    by code_simp
  have "hub_ok ?s" by (simp add: hub_ok_def)
  from push_reaches_all [OF this, of 7] msg show ?thesis by auto
qed

text \<open>A push to a connection whose worker is gone: a handler that was left by an exception has
  not called \<^verbatim>\<open>onDisconnect\<close>, so its pointer stays in the manager, and once the connection has been
  destroyed the next push follows it. A send that throws instead ends the whole program, because
  the exception leaves the pusher's thread.\<close>

theorem push_to_lost_connection:
  assumes "c \<in> set (hub_elements s)" and "hub_signalStatus s = 0"
    and "hub_elements s = before @ c # behind"
    and "\<forall>d \<in> set before. \<exists>i i'. hub_conns s d = Some i \<and> send 0 i = (Inr (), i')" and "distinct (hub_elements s)"
    and "hub_conns s c = None \<or> (\<exists>i. hub_conns s c = Some i \<and> fst (send 0 i) = Inl (Throw e))"
  shows "fst (pusherRunner send (None # sigs) s) =
    Inl (if hub_conns s c = None then UB Dangling_Pointer else Terminate)"
proof -
  let ?s = "s\<lparr>hub_conns := (\<lambda>d. if d \<in> set before
    then map_option (\<lambda>i. snd (send 0 i)) (hub_conns s d) else hub_conns s d)\<rparr>"
  have "\<forall>d \<in> set before. \<exists>i x i'. hub_conns s d = Some i \<and> send 0 i = (Inr x, i')"
    using assms(4) by blast
  moreover have "distinct before" "c \<notin> set before"
    using assms(3,5) by auto
  ultimately have first: "push_loop (send 0) before s = (Inr (), ?s)" and same: "hub_conns ?s c = hub_conns s c"
    by (simp_all add: push_loop_run)
  have app: "push_loop m (cs @ ds) st = thenA (push_loop m cs) (push_loop m ds) st" for m cs ds and st :: "'a hub"
    by (induction cs arbitrary: st) (simp_all add: thenA_app split: prod.split sum.split)
  have "push (send 0) s = push_loop (send 0) (c # behind) ?s"
    by (simp add: push_def assms(3) app first thenA_app del: push_loop.simps)
  moreover have "fst (push_loop (send 0) (c # behind) ?s) =
      Inl (if hub_conns s c = None then UB Dangling_Pointer else Throw e)"
  proof (cases "hub_conns s c")
    case None
    with same show ?thesis by (simp add: on_conn_dangling thenA_app)
  next
    case (Some i)
    then obtain i' where "send 0 i = (Inl (Throw e), i')"
      using assms(6) by (metis option.distinct(1) option.inject prod.collapse)
    with Some same show ?thesis by (simp add: on_conn_run thenA_app)
  qed
  ultimately obtain s' where "push (send 0) s = (Inl (if hub_conns s c = None then UB Dangling_Pointer else Throw e), s')"
    by (metis prod.collapse)
  with assms(2) show ?thesis
    by (simp add: pusherRunner_def tryA_def thenA_app NO_SIGNAL_def)
qed

theorem push_to_lost_connection_witness:
  "fst (pusherRunner tcp_push_send [None, None] \<lparr>hub_conns = [1 \<mapsto> io_start [Send_Failed (E_OTHER 32)] [] [] ()],
      hub_elements = [1], hub_signalStatus = 0\<rparr>) = Inl Terminate
   \<and> fst (pusherRunner tcp_push_send [None] \<lparr>hub_conns = Map.empty :: unit connections, hub_elements = [1],
      hub_signalStatus = 0\<rparr>) = Inl (UB Dangling_Pointer)"
proof -
  let ?i = "io_start [Send_Failed (E_OTHER 32)] [] [] ()"
  let ?s = "\<lparr>hub_conns = [1 \<mapsto> ?i], hub_elements = [1], hub_signalStatus = 0\<rparr>"
  let ?t = "\<lparr>hub_conns = Map.empty :: unit connections, hub_elements = [1], hub_signalStatus = 0\<rparr>"
  have "counter_message 0 = [48, 10, 0]"
    by code_simp
  then have "fst (tcp_push_send 0 ?i) = Inl (Throw (Errno_Error (E_OTHER 32)))"
    by (simp add: tcp_push_send_def conn_send_def sock_write_def bindA_app thenA_app retriable_def)
  then have a: "fst (pusherRunner tcp_push_send [None, None] ?s) = Inl Terminate"
    using push_to_lost_connection [of 1 ?s "[]" "[]" tcp_push_send "Errno_Error (E_OTHER 32)" "[None]"] by simp
  have "fst (pusherRunner tcp_push_send [None] ?t) = Inl (UB Dangling_Pointer)"
    using push_to_lost_connection [of 1 ?t "[]" "[]" tcp_push_send "Errno_Error (E_OTHER 32)" "[]"] by simp
  with a show ?thesis by simp
qed

end
