(* ===== verification/Tcp_Echo.thy ===== *)
theory Tcp_Echo
  imports Tcp_Worker
begin

text \<open>
  The echo server of \<^verbatim>\<open>examples/tcp_echo/main.cpp\<close>: the smallest server handler, and the worker
  loop run on it from the first byte to the end of file.
\<close>

section \<open>The code\<close>

definition echo_onConnect :: "(unit \<times> 'u io, unit) act" where
  "echo_onConnect = on_io (log_io (Log_Info ''Connection established.''))"

definition echo_onDisconnect :: "(unit \<times> 'u io, unit) act" where
  "echo_onDisconnect = on_io (log_io (Log_Info ''Connection closed.''))"

definition got_message :: "nat \<Rightarrow> log_line" where
  "got_message len = Log_Info (''Got message with length '' @ dec len @ '' bytes.'')"

definition sent_message :: "nat \<Rightarrow> log_line" where
  "sent_message len = Log_Info (''Sent message with length '' @ dec len @ '' bytes.'')"

definition echo_onReceive :: "byte list \<Rightarrow> nat \<Rightarrow> (unit \<times> 'u io, unit) act" where
  "echo_onReceive buf len =
     thenA (on_io (log_io (got_message len)))
    (thenA (bindA (liftR (region buf len)) (\<lambda>bytes. on_io (conn_send bytes)))
           (on_io (log_io (sent_message len))))"

definition echo_handler :: "(unit, 'u) server_handler" where
  "echo_handler =
     \<lparr>sh_onConnect = echo_onConnect, sh_onReceive = echo_onReceive,
      sh_onDisconnect = echo_onDisconnect\<rparr>"

section \<open>The contract of the worker\<close>

lemma fd_conn_send [simp]: "io_fd_open (snd (conn_send b i)) = io_fd_open i"
proof -
  obtain r i' where "conn_send b i = (r, i')" by (cases "conn_send b i")
  then show ?thesis using io_restD(3) [OF conn_send_rest] by fastforce
qed

lemma fd_log_io [simp]: "io_fd_open (snd (log_io l i)) = io_fd_open i"
  by (simp add: log_io_def)

lemma keeps_fd_on_io [kept]:
  "(\<And>i. io_fd_open (snd (m i)) = io_fd_open i) \<Longrightarrow> keeps (\<lambda>st. io_fd_open (snd st) = b) (on_io m)"
  by (auto simp: keeps_def on_io_app)

lemma fd_unchanged: "(\<And>b. keeps (\<lambda>st. io_fd_open (snd st) = b) m) \<Longrightarrow>
    io_fd_open (snd (snd (m st))) = io_fd_open (snd st)"
  unfolding keeps_def by blast

interpretation echo: server_callbacks echo_handler "\<lambda>_. True"
proof
  fix st :: "unit \<times> 'u io" and buf len
  show "io_fd_open (snd (snd (sh_onConnect echo_handler st))) = io_fd_open (snd st)"
    by (rule fd_unchanged) (simp add: echo_handler_def echo_onConnect_def keeps_fd_on_io)
  show "io_fd_open (snd (snd (sh_onDisconnect echo_handler st))) = io_fd_open (snd st)"
    by (rule fd_unchanged) (simp add: echo_handler_def echo_onDisconnect_def keeps_fd_on_io)
  show "io_fd_open (snd (snd (sh_onReceive echo_handler buf len st))) = io_fd_open (snd st)"
    by (rule fd_unchanged)
      (simp add: echo_handler_def echo_onReceive_def keeps_fd_on_io keeps_thenA keeps_bindA)
qed simp_all

section \<open>Echoing a whole conversation\<close>

lemma echo_onReceive_ready:
  assumes "conn_ready (length (take len buf) + n) i" and "len \<le> length buf" and "length buf < 2 ^ 64"
  shows "\<exists>i'. sh_onReceive echo_handler buf len ((), i) = (Inr (), ((), i'))
    \<and> io_wire i' = io_wire i @ take len buf \<and> conn_ready n i'
    \<and> io_polls i' = io_polls i \<and> io_recvs i' = io_recvs i \<and> io_signalStatus i' = io_signalStatus i"
proof -
  let ?i = "i\<lparr>io_log := io_log i @ [got_message len]\<rparr>"
  have ready: "conn_ready (length (take len buf) + n) ?i"
    using assms(1) by (simp add: conn_ready_def io_willing_def)
  have "length (take len buf) < 2 ^ 64"
    using assms(2,3) by simp
  from tcp.send_ready [OF ready this] obtain i1 where "conn_send (take len buf) ?i = (Inr (of_nat (length (take len buf))), i1)"
    "io_wire i1 = io_wire ?i @ take len buf" "conn_ready n i1" "io_rest i1 = io_rest ?i"
    by blast
  with assms(2) show ?thesis
    using io_restD [of i1 ?i]
    by (simp add: echo_handler_def echo_onReceive_def log_io_def on_io_app thenA_app
        conn_ready_def io_willing_def)
qed

text \<open>The bytes to come are what the kernel has yet to accept, and together with what has gone out
  they are \<open>all\<close>.\<close>

definition echoing :: "byte list \<Rightarrow> byte list list \<Rightarrow> unit \<times> 'u io \<Rightarrow> bool" where
  "echoing all ds = (\<lambda>(u, i). conn_ready (length (concat ds)) i \<and> io_wire i @ concat ds = all
     \<and> (\<forall>d \<in> set ds. d \<noteq> [] \<and> length d \<le> MAX_SIZE))"

interpretation echo: conversation echo_handler "echoing all" for all
proof
  fix d ds buf and h :: unit and i :: "'u io"
  assume C: "echoing all (d # ds) (h, i)" and buf: "length buf = MAX_SIZE" "take (length d) buf = d"
  have "conn_ready (length (take (length d) buf) + length (concat ds)) i" "length d \<le> length buf"
    "length buf < 2 ^ 64"
    using C buf by (simp_all add: echoing_def MAX_SIZE_def)
  from echo_onReceive_ready [OF this] C buf(2)
  show "\<exists>h' i'. sh_onReceive echo_handler buf (length d) (h, i) = (Inr (), (h', i'))
      \<and> echoing all ds (h', i') \<and> io_polls i' = io_polls i \<and> io_recvs i' = io_recvs i
      \<and> io_signalStatus i' = io_signalStatus i"
    by (auto simp: echoing_def)
qed (auto simp: echoing_def conn_ready_def io_willing_def)

section \<open>Properties\<close>

text \<open>The echo server echoes: whatever arrives, in pieces of any size and with any pauses, goes
  back byte for byte and in order until the end of file, provided the kernel accepts the bytes;
  then the descriptor is closed and the worker is no longer active.\<close>

theorem echo_server_echoes:
  assumes "w = worker_start () (io_start ss (recv_script evs @ [Received []])
      (poll_script evs @ [Poll_Ready POLLIN]) u)"
    and "\<forall>d \<in> set (received evs). d \<noteq> [] \<and> length d \<le> MAX_SIZE"
    and "length (concat (received evs)) \<le> length ss" and "\<forall>a \<in> set ss. \<exists>k > 0. a = Sent k"
    and "length buf = MAX_SIZE"
  shows "\<exists>i. worker_run echo_handler (replicate (Suc (length evs)) None) buf w =
      (Inr (), \<lparr>wk_state = ((), i), wk_isActive = False\<rparr>)
    \<and> io_wire i = concat (received evs) \<and> \<not> io_fd_open i"
proof -
  let ?i = "io_start ss (recv_script evs @ [Received []]) (poll_script evs @ [Poll_Ready POLLIN]) u"
  let ?i1 = "?i\<lparr>io_log := io_log ?i @ [Log_Info ''Connection established.'']\<rparr>"
  have start: "echoing (concat (received evs)) (received evs) ((), ?i1)"
    using assms(2-4) by (simp add: echoing_def conn_ready_def io_willing_def)
  have open_end: "evs = [] \<or> last evs \<noteq> None \<or>
      (\<forall>(h :: unit) (i :: 'a io). echoing (concat (received evs)) [] (h, i) \<longrightarrow> \<not> io_closed i)"
    by (simp add: echoing_def conn_ready_def)
  obtain i' buf' where loop1:
    "worker_loop echo_handler (replicate (length evs) None @ [None]) buf ((), ?i1) =
      worker_loop echo_handler [None] buf' ((), i')"
    and i': "echoing (concat (received evs)) [] ((), i')" "io_polls i' = [Poll_Ready POLLIN]"
      "io_recvs i' = [Received []]" "io_signalStatus i' = 0"
    using echo.loop [OF start assms(5) open_end, of "[Poll_Ready POLLIN]" "[Received []]" "[None]"]
    by (auto simp del: worker_loop.simps)
  let ?i2 = "i'\<lparr>io_polls := [], io_recvs := []\<rparr>"
  have loop: "worker_loop echo_handler (replicate (Suc (length evs)) None) buf ((), ?i1) = (Inr (), ((), ?i2))"
    unfolding replicate_None_Suc loop1
    using i' by (intro worker_loop_eof) (simp_all add: echoing_def conn_ready_def)
  have disconnect: "sh_onDisconnect echo_handler ((), ?i2) =
      (Inr (), ((), ?i2\<lparr>io_log := io_log ?i2 @ [Log_Info ''Connection closed.'']\<rparr>))"
    by (simp add: echo_handler_def echo_onDisconnect_def log_io_def on_io_app)
  have "sh_onConnect echo_handler (wk_state w) = (Inr (), ((), ?i1))"
    by (simp add: assms(1) worker_start_def echo_handler_def echo_onConnect_def log_io_def on_io_app)
  note worker_run_returns [OF this loop disconnect]
  with i'(1) show ?thesis by (auto simp: assms(1) worker_start_def echoing_def)
qed

theorem echo_server_echoes_witness:
  "\<exists>i. worker_run echo_handler [None, None, None, None] (replicate MAX_SIZE 0)
      (worker_start () (io_start [Sent 1, Sent 1, Sent 5] [Received [1, 2], Received [3], Received []]
        [Poll_Ready POLLIN, Poll_Timeout, Poll_Ready POLLIN, Poll_Ready POLLIN] ())) =
      (Inr (), \<lparr>wk_state = ((), i), wk_isActive = False\<rparr>)
    \<and> io_wire i = [1, 2, 3] \<and> \<not> io_fd_open i"
  using echo_server_echoes [of _ "[Sent 1, Sent 1, Sent 5]" "[Some [1, 2], None, Some [3]]" "()"
      "replicate MAX_SIZE 0", OF refl]
  by (simp add: MAX_SIZE_def del: worker_loop.simps)

end
