(* ===== verification/Example_Mains.thy ===== *)
theory Example_Mains
  imports Http_Server Posix_Signal Push_Servers Tcp_Echo
begin

text \<open>
  The \<^verbatim>\<open>main\<close> functions of \<^verbatim>\<open>examples/\<close> and the handler factories they give to the servers.

  The state is the process with its signal dispositions and what the server and the pusher use. An HTTP
  \<^verbatim>\<open>main\<close> is given with the factories its workers run with (\<open>http_server\<close>), because the server's thread
  only passes them on. The exit code is a value of the result, and so are the error lines logged.
\<close>

section \<open>The code\<close>

definition on_process :: "(process, 'a) act \<Rightarrow> (process \<times> 's, 'a) act" where
  "on_process m = (\<lambda>(p, s). case m p of (r, p') \<Rightarrow> (r, (p', s)))"

definition on_program :: "('s, 'a) act \<Rightarrow> (process \<times> 's, 'a) act" where
  "on_program m = (\<lambda>(p, s). case m s of (r, s') \<Rightarrow> (r, (p, s')))"

definition main_of :: "('h server, unit) act \<Rightarrow> (process \<times> 'h server, int \<times> log_line list) act" where
  "main_of run = thenA (on_process initQuitCondition) (on_program (server_main run))"

definition echo_createServerHandler :: "int \<Rightarrow> unit" where
  "echo_createServerHandler socket = ()"

definition tcp_echo_main :: "tick list \<Rightarrow> (process \<times> unit server, int \<times> log_line list) act" where
  "tcp_echo_main ts = main_of (serve echo_createServerHandler ServerOptions ts)"

definition simple_createHttpHandler :: "'u http_handler_factory" where
  "simple_createHttpHandler = retA simple_do_GET"

type_synonym 'u http_main =
  "'u http_server \<times> (process \<times> 'u http_fsm server, int \<times> log_line list) act"

definition http_simple_main ::
  "(string \<Rightarrow> byte list) \<Rightarrow> (byte list \<Rightarrow> string) \<Rightarrow> (nat \<Rightarrow> bool) \<Rightarrow> tick list \<Rightarrow> 'u http_main"
where
  "http_simple_main sha b64 al ts =
     (serve_http simple_createHttpHandler sha b64 al, main_of (http_serve HttpServerOptions ts))"

definition http_server_main ::
  "file_system \<Rightarrow> (string \<Rightarrow> byte list) \<Rightarrow> (byte list \<Rightarrow> string) \<Rightarrow> (nat \<Rightarrow> bool) \<Rightarrow> tick list \<Rightarrow> 'u http_main"
where
  "http_server_main fs sha b64 al ts =
     (serve_files fs ''/tmp'' sha b64 al, main_of (http_serve HttpServerOptions ts))"

definition ws_echo_main ::
  "(string \<Rightarrow> byte list) \<Rightarrow> (byte list \<Rightarrow> string) \<Rightarrow> (nat \<Rightarrow> bool) \<Rightarrow> tick list \<Rightarrow> 'u http_main"
where
  "ws_echo_main sha b64 al ts = (serve_ws_echo sha b64 al, main_of (http_serve HttpServerOptions ts))"

text \<open>The \<^verbatim>\<open>main\<close> functions of the push servers: the pusher's thread runs beside \<^verbatim>\<open>serve\<close>, and \<^verbatim>\<open>join\<close> waits until
  it has ended. \<open>sigs\<close> is the signals it finds at its checks.\<close>

definition push_main ::
  "('h server, unit) act \<Rightarrow> (nat \<Rightarrow> ('u io, unit) act) \<Rightarrow> int option list
   \<Rightarrow> (process \<times> 'h server \<times> 'u hub, int \<times> log_line list) act"
where
  "push_main run send sigs =
     thenA (on_process initQuitCondition)
    (bindA (on_program (\<lambda>(s, h). case server_main run s of (r, s') \<Rightarrow> (r, (s', h)))) (\<lambda>retVal.
     thenA (on_program (\<lambda>(s, h). case pusherRunner send sigs h of (r, h') \<Rightarrow> (r, (s, h'))))
       (retA retVal)))"

definition push_createServerHandler :: "int \<Rightarrow> unit" where
  "push_createServerHandler socket = ()"

definition tcp_push_main ::
  "tick list \<Rightarrow> int option list \<Rightarrow> (process \<times> unit server \<times> 'u hub, int \<times> log_line list) act"
where
  "tcp_push_main ts sigs = push_main (serve push_createServerHandler ServerOptions ts) tcp_push_send sigs"

definition ws_push_main ::
  "tick list \<Rightarrow> int option list \<Rightarrow> (process \<times> 'v http_fsm server \<times> 'u hub, int \<times> log_line list) act"
where
  "ws_push_main ts sigs = push_main (http_serve HttpServerOptions ts) ws_push_send sigs"

section \<open>Exit codes\<close>

lemma server_main_outcome:
  "fst (server_main run s) =
    (case fst (run s) of
       Inr _ \<Rightarrow> Inr (EXIT_SUCCESS, [])
     | Inl (Throw e) \<Rightarrow> Inr (EXIT_FAILURE, [Log_Error e])
     | Inl e \<Rightarrow> Inl e)"
  by (simp add: server_main_def tryA_def thenA_app split: prod.split sum.split stop.split)

lemma main_of_outcome:
  "fst (main_of run (p, s)) = fst (server_main run s)
   \<and> fst (snd (main_of run (p, s))) = snd (initQuitCondition p)"
  by (simp add: main_of_def thenA_app on_process_def on_program_def initQuitCondition_def std_signal_def
      split: prod.split)

lemma pusher_loop_needs_signal:
  assumes "hub_signalStatus h = NO_SIGNAL" and "\<forall>n. Some n \<in> set sigs \<longrightarrow> n = NO_SIGNAL"
  shows "fst (pusher_loop send sigs cnt h) \<noteq> Inr ()"
  using assms
proof (induction sigs arbitrary: cnt h)
  case Nil
  then show ?case by simp
next
  case (Cons sig sigs)
  let ?h = "h\<lparr>hub_signalStatus := (case sig of None \<Rightarrow> hub_signalStatus h | Some n \<Rightarrow> n)\<rparr>"
  have none: "hub_signalStatus ?h = NO_SIGNAL"
    using Cons.prems by (cases sig) simp_all
  obtain r h' where push: "push (send cnt) ?h = (r, h')" by fastforce
  have same: "hub_signalStatus (snd (push_loop m cs x)) = hub_signalStatus x" for m cs and x :: "'a hub"
    by (induction cs arbitrary: x)
      (auto simp: thenA_app on_conn_def split: prod.split sum.split)
  show ?case
  proof (cases r)
    case (Inl e)
    with push none show ?thesis by (simp add: thenA_app)
  next
    case (Inr u)
    have "hub_signalStatus h' = NO_SIGNAL"
      using same [of "send cnt" "hub_elements ?h" ?h] push none by (simp add: push_def)
    moreover have "\<forall>n. Some n \<in> set sigs \<longrightarrow> n = NO_SIGNAL" using Cons.prems(2) by simp
    ultimately have "fst (pusher_loop send sigs (Suc cnt) h') \<noteq> Inr ()" by (rule Cons.IH)
    with push none Inr show ?thesis by (simp add: thenA_app)
  qed
qed

section \<open>Properties\<close>

text \<open>C39. A push server cannot report an error of \<^verbatim>\<open>serve\<close>: whatever has become of the server's thread,
  \<^verbatim>\<open>main\<close> waits for the pusher, which ends on a signal only, so without one there is no exit code,
  however long it runs.\<close>

theorem push_main_waits_for_signal:
  assumes "hub_signalStatus h = NO_SIGNAL" and "\<forall>n. Some n \<in> set sigs \<longrightarrow> n = NO_SIGNAL"
  shows "\<forall>code. fst (push_main run send sigs (p, s, h)) \<noteq> Inr code"
proof
  fix code
  obtain r h' where run: "pusherRunner send sigs h = (r, h')" by fastforce
  have "r \<noteq> Inr ()"
    using pusher_loop_needs_signal [OF assms, of send 0] run
    by (auto simp: pusherRunner_def tryA_def split: prod.splits sum.splits stop.splits)
  then obtain e where "r = Inl e" by (cases r) auto
  with run show "fst (push_main run send sigs (p, s, h)) \<noteq> Inr code"
    by (simp add: push_main_def thenA_app bindA_app on_process_def on_program_def split: prod.split sum.split)
qed

text \<open>Port 5555 is taken: \<^verbatim>\<open>serve\<close> fails at once, the pusher goes on. The echo server exits.\<close>

theorem push_main_waits_for_signal_witness:
  "(\<forall>code. fst (tcp_push_main [] (replicate 9 None) (process_start,
      server_start [Sys_Ok 3, Sys_Ok 0, Sys_Ok 2, Sys_Ok 0, Sys_Fail (E_OTHER 98), Sys_Ok 0] (\<lambda>_. True),
      \<lparr>hub_conns = Map.empty :: unit connections, hub_elements = [], hub_signalStatus = 0\<rparr>)) \<noteq> Inr code)
   \<and> fst (tcp_echo_main [] (process_start,
      server_start [Sys_Ok 3, Sys_Ok 0, Sys_Ok 2, Sys_Ok 0, Sys_Fail (E_OTHER 98), Sys_Ok 0] (\<lambda>_. True))) =
     Inr (EXIT_FAILURE, [Log_Error (Errno_Error (E_OTHER 98))])"
proof
  show "\<forall>code. fst (tcp_push_main [] (replicate 9 None) (process_start,
      server_start [Sys_Ok 3, Sys_Ok 0, Sys_Ok 2, Sys_Ok 0, Sys_Fail (E_OTHER 98), Sys_Ok 0] (\<lambda>_. True),
      \<lparr>hub_conns = Map.empty :: unit connections, hub_elements = [], hub_signalStatus = 0\<rparr>)) \<noteq> Inr code"
    unfolding tcp_push_main_def by (rule push_main_waits_for_signal) (simp_all add: NO_SIGNAL_def)
  let ?as = "[Sys_Ok 3, Sys_Ok 0, Sys_Ok 2, Sys_Ok 0, Sys_Fail (E_OTHER 98), Sys_Ok 0] @ []"
  have "fst (createListenSocket (serverPort ServerOptions) \<lparr>k_answers = ?as, k_trace = []\<rparr>) =
      Inl (Throw (Errno_Error (E_OTHER 98)))"
    by (rule createListenSocket_bind_fails) simp
  then obtain k where "createListenSocket (serverPort ServerOptions) \<lparr>k_answers = ?as, k_trace = []\<rparr> =
      (Inl (Throw (Errno_Error (E_OTHER 98))), k)"
    by (metis prod.collapse)
  then have "fst (serve echo_createServerHandler ServerOptions [] (server_start ?as (\<lambda>_. True))) =
      Inl (Throw (Errno_Error (E_OTHER 98)))"
    by (simp add: serve_def server_start_def on_kernel_def bindA_app)
  then show "fst (tcp_echo_main [] (process_start,
      server_start [Sys_Ok 3, Sys_Ok 0, Sys_Ok 2, Sys_Ok 0, Sys_Fail (E_OTHER 98), Sys_Ok 0] (\<lambda>_. True))) =
     Inr (EXIT_FAILURE, [Log_Error (Errno_Error (E_OTHER 98))])"
    by (simp add: tcp_echo_main_def main_of_outcome server_main_outcome)
qed

end
