(* ===== verification/Echo_System.thy ===== *)
theory Echo_System
  imports Example_Mains Tcp_System
begin

text \<open>
  The echo server of \<^verbatim>\<open>examples/tcp_echo\<close> with all its connections: what \<open>Tcp_Echo\<close> shows of one connection
  alone is carried over by \<open>alone_in_system\<close> of \<open>Tcp_System\<close>.
\<close>

text \<open>C22. Every client of the echo server has its bytes echoed, whoever else is connected: in any
  interleaving of the server with any number of connections, a client whose data arrive in pieces of any size and with any pauses
  until it closes its side. Its thread never halts, has ended once it has made as many steps as there
  are events on its connection and four more, and then the client has got back every byte, in order, and the descriptor is
  closed.\<close>

theorem echo_system_echoes:
  assumes "sys_run echo_handler echo_createServerHandler options fd env bufs (sys_start as) labs S" and "\<forall>n. By_Signal n \<notin> set labs"
    and "env k = io_start ss (recv_script evs @ [Received []]) (poll_script evs @ [Poll_Ready POLLIN]) u"
    and "\<forall>d \<in> set (received evs). d \<noteq> [] \<and> length d \<le> MAX_SIZE"
    and "length (concat (received evs)) \<le> length ss" and "\<forall>a \<in> set ss. \<exists>k > 0. a = Sent k"
    and "length (bufs k) = MAX_SIZE" and "sys_threads S k = Some t"
  shows "(\<forall>e. th_pc t \<noteq> Halted e)
    \<and> (length evs + 4 \<le> count_list labs (By_Worker k) \<longrightarrow> th_pc t = Ended)
    \<and> (th_pc t = Ended \<longrightarrow> io_wire (snd (wk_state (th_worker t))) = concat (received evs)
        \<and> \<not> io_fd_open (snd (wk_state (th_worker t))))"
proof -
  obtain i where alone: "worker_run echo_handler (replicate (Suc (length evs)) None) (bufs k) (worker_start () (env k)) =
      (Inr (), \<lparr>wk_state = ((), i), wk_isActive = False\<rparr>)"
    and i: "io_wire i = concat (received evs)" "\<not> io_fd_open i"
    using echo_server_echoes [OF refl assms(4-7), of u] unfolding assms(3) by blast
  have "worker_run echo_handler (replicate (Suc (length evs)) None) (bufs k) (worker_start (echo_createServerHandler cfd) (env k)) =
      (Inr (), \<lparr>wk_state = ((), i), wk_isActive = False\<rparr>)" for cfd
    using alone by (simp only: echo_createServerHandler_def)
  from alone_in_system [OF assms(1,2) this assms(8)] i show ?thesis
    by auto
qed

theorem echo_system_echoes_witness:
  "\<exists>labs S t. sys_run echo_handler echo_createServerHandler ServerOptions 3
      (\<lambda>_. io_start [Sent 1, Sent 1, Sent 5] [Received [1, 2], Received [3], Received []]
        [Poll_Ready POLLIN, Poll_Timeout, Poll_Ready POLLIN, Poll_Ready POLLIN] ())
      (\<lambda>_. replicate MAX_SIZE 0) (sys_start [Sys_Revents 1, Sys_Ok 7, Sys_Ok 0]) labs S
    \<and> sys_threads S 0 = Some t \<and> th_pc t = Ended \<and> io_wire (snd (wk_state (th_worker t))) = [1, 2, 3]"
proof -
  let ?evs = "[Some [1, 2], None, Some [3]] :: byte list option list" and ?ss = "[Sent 1, Sent 1, Sent 5]"
  let ?env = "\<lambda>_ :: nat. io_start ?ss [Received [1, 2], Received [3], Received []]
    [Poll_Ready POLLIN, Poll_Timeout, Poll_Ready POLLIN, Poll_Ready POLLIN] ()"
  let ?bufs = "\<lambda>_ :: nat. replicate MAX_SIZE (0 :: byte)"
  have env: "?env 0 = io_start ?ss (recv_script ?evs @ [Received []]) (poll_script ?evs @ [Poll_Ready POLLIN]) ()"
    by simp
  have ok: "\<forall>d \<in> set (received ?evs). d \<noteq> [] \<and> length d \<le> MAX_SIZE" "length (concat (received ?evs)) \<le> length ?ss"
    "\<forall>a \<in> set ?ss. \<exists>k > 0. a = Sent k" "length (?bufs 0) = MAX_SIZE"
    by (simp_all add: received_def MAX_SIZE_def)
  obtain i where "worker_run echo_handler (replicate (Suc (length ?evs)) None) (?bufs 0) (worker_start (echo_createServerHandler 7) (?env 0)) =
      (Inr (), \<lparr>wk_state = ((), i), wk_isActive = False\<rparr>)"
    using echo_server_echoes [OF refl ok, of "()"] unfolding env echo_createServerHandler_def by blast
  from one_client_ends [where handler = echo_handler and fac = echo_createServerHandler and env = ?env and bufs = ?bufs, OF this]
  obtain labs S t where run: "sys_run echo_handler echo_createServerHandler ServerOptions 3 ?env ?bufs (sys_start [Sys_Revents 1, Sys_Ok 7, Sys_Ok 0]) labs S"
    "\<forall>n. By_Signal n \<notin> set labs" "sys_threads S 0 = Some t" "th_pc t = Ended" by blast
  have all: "concat (received ?evs) = [1, 2, 3]" by (simp add: received_def)
  from echo_system_echoes [OF run(1,2) env ok run(3)] run show ?thesis
    unfolding all by blast
qed

end
