(* ===== verification/Tcp_Interleaving.thy ===== *)
theory Tcp_Interleaving
  imports Tcp_Connection
begin

text \<open>
  Two threads in \<^verbatim>\<open>Connection::send\<close> on one connection, as in the push examples, where the pusher's
  thread sends to a connection whose worker may be answering its client: nothing locks the connection
  itself. The loop of \<^verbatim>\<open>send\<close> is cut into its iterations, each with one system call, and a schedule
  says whose iteration comes next.
\<close>

section \<open>The code\<close>

text \<open>An iteration of the loop: the position after it, or \<open>None\<close> when the loop is left.\<close>

definition send_iter :: "byte list \<Rightarrow> size_t \<Rightarrow> ('u io, size_t option) act" where
  "send_iter buf numWritten =
     bindA isClosed (\<lambda>closed.
     if \<not> closed \<and> unat numWritten < length buf
     then bindA (sk_write SocketImpl (drop (unat numWritten) buf)) (\<lambda>k. retA (Some (numWritten + of_int k)))
     else retA None)"

record sender =
  sd_buf :: "byte list"
  sd_written :: size_t
  sd_result :: "(stop + size_t) option"

definition sender_start :: "byte list \<Rightarrow> sender" where
  "sender_start buf = \<lparr>sd_buf = buf, sd_written = 0, sd_result = None\<rparr>"

definition sender_step :: "sender \<Rightarrow> 'u io \<Rightarrow> sender \<times> 'u io" where
  "sender_step sd i =
     (if sd_result sd \<noteq> None then (sd, i)
      else case send_iter (sd_buf sd) (sd_written sd) i of
        (Inr (Some n), i') \<Rightarrow> (sd\<lparr>sd_written := n\<rparr>, i')
      | (Inr None, i') \<Rightarrow> (sd\<lparr>sd_result := Some (Inr (sd_written sd))\<rparr>, i')
      | (Inl e, i') \<Rightarrow> (sd\<lparr>sd_result := Some (Inl e)\<rparr>, i'))"

text \<open>\<open>True\<close> is an iteration of the first thread.\<close>

fun race :: "bool list \<Rightarrow> sender \<Rightarrow> sender \<Rightarrow> 'u io \<Rightarrow> sender \<times> sender \<times> 'u io" where
  "race [] sa sb i = (sa, sb, i)"
| "race (True # sched) sa sb i = (case sender_step sa i of (sa', i') \<Rightarrow> race sched sa' sb i')"
| "race (False # sched) sa sb i = (case sender_step sb i of (sb', i') \<Rightarrow> race sched sa sb' i')"

section \<open>One sender\<close>

fun sender_run :: "nat \<Rightarrow> sender \<Rightarrow> 'u io \<Rightarrow> sender \<times> 'u io" where
  "sender_run 0 sd i = (sd, i)"
| "sender_run (Suc n) sd i = (case sender_step sd i of (sd', i') \<Rightarrow> sender_run n sd' i')"

lemma sender_step_over [simp]: "sd_result sd = Some r \<Longrightarrow> sender_step sd i = (sd, i)"
  by (simp add: sender_step_def)

lemma sender_run_over [simp]: "sd_result sd = Some r \<Longrightarrow> sender_run n sd i = (sd, i)"
  by (induction n) simp_all

lemma sender_run_loop:
  assumes "sd_result sd = None" and "length (io_sends i) < fuel"
    and "send_loop sock_write fuel (io_closed i) (sd_buf sd) (sd_written sd) i = (r, i')"
  shows "\<exists>n. sender_run fuel sd i = (sd\<lparr>sd_written := n, sd_result := Some r\<rparr>, i')"
  using assms
proof (induction fuel arbitrary: sd i)
  case 0
  then show ?case by simp
next
  case (Suc fuel)
  let ?b = "drop (unat (sd_written sd)) (sd_buf sd)"
  show ?case
  proof (cases "\<not> io_closed i \<and> unat (sd_written sd) < length (sd_buf sd)")
    case False
    with Suc.prems have "sender_step sd i = (sd\<lparr>sd_result := Some r\<rparr>, i')"
      by (auto simp: sender_step_def send_iter_def isClosed_def bindA_app split: if_splits)
    then show ?thesis by (intro exI [of _ "sd_written sd"]) simp
  next
    case True
    obtain q i1 where w: "sock_write ?b i = (q, i1)" by fastforce
    show ?thesis
    proof (cases q)
      case (Inl e)
      with True w Suc.prems have "sender_step sd i = (sd\<lparr>sd_result := Some r\<rparr>, i')"
        by (auto simp: sender_step_def send_iter_def isClosed_def bindA_app)
      then show ?thesis by (intro exI [of _ "sd_written sd"]) simp
    next
      case (Inr k)
      let ?sd = "sd\<lparr>sd_written := sd_written sd + of_int k\<rparr>"
      from True w Inr Suc.prems(1) have step: "sender_step sd i = (?sd, i1)"
        by (simp add: sender_step_def send_iter_def isClosed_def bindA_app)
      from w Inr have "length (io_sends i1) < length (io_sends i)" "io_closed i1 = io_closed i"
        using sock_write_Inr io_restD(4) [OF sock_write_rest] by blast+
      with Suc.prems(2,3) True w Inr have "length (io_sends i1) < fuel"
        "send_loop sock_write fuel (io_closed i1) (sd_buf ?sd) (sd_written ?sd) i1 = (r, i')"
        by (simp_all add: bindA_Inr)
      from Suc.IH [OF _ this] Suc.prems(1) step show ?thesis by auto
    qed
  qed
qed

lemma race_alone: "race (replicate n True) sa sb i = (case sender_run n sa i of (sa', i') \<Rightarrow> (sa', sb, i'))"
  by (induction n arbitrary: sa i) (simp_all split: prod.split)

section \<open>Two senders\<close>

lemma shuffles_snoc_left: "w \<in> shuffles xs ys \<Longrightarrow> w @ zs \<in> shuffles (xs @ zs) ys"
proof (induction xs ys arbitrary: w rule: shuffles.induct)
  case (1 ys)
  then show ?case
    by (induction ys arbitrary: w) (auto intro: Cons_in_shuffles_rightI)
next
  case (3 x xs y ys)
  then show ?case
    by (auto intro: Cons_in_shuffles_leftI Cons_in_shuffles_rightI)
qed simp

lemma shuffles_snoc_right: "w \<in> shuffles xs ys \<Longrightarrow> w @ zs \<in> shuffles xs (ys @ zs)"
  by (metis shuffles_commutes shuffles_snoc_left)

text \<open>A sender has sent a front part of its buffer, and all of it when it returns.\<close>

definition sender_ok :: "sender \<Rightarrow> bool" where
  "sender_ok sd \<longleftrightarrow> length (sd_buf sd) < 2 ^ 64 \<and> unat (sd_written sd) \<le> length (sd_buf sd)
     \<and> (\<forall>n. sd_result sd = Some (Inr n) \<longrightarrow> n = sd_written sd \<and> unat n = length (sd_buf sd))"

definition sent :: "sender \<Rightarrow> byte list" where
  "sent sd = take (unat (sd_written sd)) (sd_buf sd)"

lemma sender_step_sent:
  assumes "sender_ok sd" and "io_steady i" and "\<not> io_closed i" and "sender_step sd i = (sd', i')"
  obtains part where "sender_ok sd'" and "io_steady i'" and "\<not> io_closed i'" and "sd_buf sd' = sd_buf sd"
    and "io_wire i' = io_wire i @ part" and "sent sd' = sent sd @ part"
proof (cases "sd_result sd = None \<and> unat (sd_written sd) < length (sd_buf sd)")
  case False
  with assms have "i' = i" and sd': "sd' = sd \<or> sd' = sd\<lparr>sd_result := Some (Inr (sd_written sd))\<rparr>
      \<and> unat (sd_written sd) = length (sd_buf sd)"
    by (auto simp: sender_step_def send_iter_def isClosed_def bindA_app sender_ok_def split: if_splits)
  with assms that [of "[]"] show thesis
    by (auto simp: sender_ok_def sent_def)
next
  case True
  let ?n = "sd_written sd" and ?b = "drop (unat (sd_written sd)) (sd_buf sd)"
  obtain q i1 where w: "sock_write ?b i = (q, i1)" by fastforce
  have closed: "io_closed i1 = io_closed i"
    using io_restD(4) [OF sock_write_rest [OF w]] .
  have len: "length (sd_buf sd) < 2 ^ 64" using assms(1) by (simp add: sender_ok_def)
  show thesis
  proof (cases q)
    case (Inl e)
    with True w assms(3,4) have e: "sd' = sd\<lparr>sd_result := Some (Inl e)\<rparr>" "i' = i1"
      by (auto simp: sender_step_def send_iter_def isClosed_def bindA_app)
    have "io_wire i1 = io_wire i" and "io_steady i1"
      using w Inl assms(2)
      by (auto simp: sock_write_def io_steady_def Let_def split: list.splits send_answer.splits if_splits)
    with e assms(1,3) closed that [of "[]"] show thesis
      by (simp add: sender_ok_def sent_def)
  next
    case (Inr k)
    with True w assms(3,4) have e: "sd' = sd\<lparr>sd_written := ?n + of_int k\<rparr>" "i' = i1"
      by (auto simp: sender_step_def send_iter_def isClosed_def bindA_app)
    have st: "k \<noteq> NUM_CONTINUE" "io_steady i1"
      using posix.write_steady [OF assms(2)] w Inr by blast+
    with sock_write_Inr [of ?b i k i1] w Inr
    have k: "0 \<le> k" "k \<le> int (length (sd_buf sd) - unat ?n)" "io_wire i1 = io_wire i @ take (nat k) ?b"
      by auto
    have adv: "unat (?n + of_int k) = unat ?n + nat k"
      using True len k(1,2) by (intro posix.unat_advance [where len = "length (sd_buf sd)"]) simp_all
    have "sent sd' = sent sd @ take (nat k) ?b"
      by (simp add: e sent_def adv take_add)
    moreover have "unat ?n + nat k \<le> length (sd_buf sd)"
      using True k(1,2) by linarith
    then have "sender_ok sd'"
      using len True adv by (simp add: e sender_ok_def)
    ultimately show thesis
      using e st(2) k(3) closed assms(3) by (intro that [of "take (nat k) ?b"]) simp_all
  qed
qed

text \<open>However they are scheduled: what has gone out is a shuffle of what the two have sent.\<close>

lemma race_shuffles:
  assumes "sender_ok sa" and "sender_ok sb" and "io_steady i" and "\<not> io_closed i"
    and "io_wire i = pre @ w" and "w \<in> shuffles (sent sa) (sent sb)" and "race sched sa sb i = (sa', sb', i')"
  shows "sender_ok sa' \<and> sender_ok sb' \<and> sd_buf sa' = sd_buf sa \<and> sd_buf sb' = sd_buf sb
    \<and> (\<exists>w'. io_wire i' = pre @ w' \<and> w' \<in> shuffles (sent sa') (sent sb'))"
  using assms
proof (induction sched sa sb i arbitrary: w rule: race.induct)
  case (1 sa sb i)
  then show ?case by auto
next
  case (2 sched sa sb i)
  obtain s j where step: "sender_step sa i = (s, j)" by fastforce
  from sender_step_sent [OF 2(2) 2(4) 2(5) step] obtain part where
    p: "sender_ok s" "io_steady j" "\<not> io_closed j" "sd_buf s = sd_buf sa" "io_wire j = io_wire i @ part"
      "sent s = sent sa @ part" .
  have "io_wire j = pre @ (w @ part)" "w @ part \<in> shuffles (sent s) (sent sb)"
    using p(5,6) 2(6,7) shuffles_snoc_left by auto
  from 2(1) [OF step [symmetric] p(1) 2(3) p(2,3) this] 2(8) p(4) step show ?case by simp
next
  case (3 sched sa sb i)
  obtain s j where step: "sender_step sb i = (s, j)" by fastforce
  from sender_step_sent [OF 3(3) 3(4) 3(5) step] obtain part where
    p: "sender_ok s" "io_steady j" "\<not> io_closed j" "sd_buf s = sd_buf sb" "io_wire j = io_wire i @ part"
      "sent s = sent sb @ part" .
  have "io_wire j = pre @ (w @ part)" "w @ part \<in> shuffles (sent sa) (sent s)"
    using p(5,6) 3(6,7) shuffles_snoc_right by auto
  from 3(1) [OF step [symmetric] 3(2) p(1) p(2,3) this] 3(8) p(4) step show ?case by simp
qed

text \<open>When every write takes all it is given, a sender goes out in one piece.\<close>

definition whole :: "nat \<Rightarrow> 'u io \<Rightarrow> bool" where
  "whole n i \<longleftrightarrow> \<not> io_closed i \<and> (\<forall>a \<in> set (io_sends i). \<exists>k \<ge> n. a = Sent k)"

definition all_or_none :: "sender \<Rightarrow> bool" where
  "all_or_none sd \<longleftrightarrow> length (sd_buf sd) < 2 ^ 64 \<and> (sd_written sd = 0 \<or> sd_written sd = of_nat (length (sd_buf sd)))"

lemma sender_step_whole:
  assumes "all_or_none sd" and "whole m i" and "length (sd_buf sd) \<le> m" and "sender_step sd i = (sd', i')"
  shows "all_or_none sd' \<and> whole m i' \<and> sd_buf sd' = sd_buf sd
    \<and> (sent sd' = sent sd \<and> io_wire i' = io_wire i
      \<or> sent sd = [] \<and> sent sd' = sd_buf sd \<and> io_wire i' = io_wire i @ sd_buf sd)"
proof (cases "sd_result sd = None \<and> unat (sd_written sd) < length (sd_buf sd)")
  case False
  with assms show ?thesis
    by (auto simp: sender_step_def send_iter_def isClosed_def bindA_app whole_def all_or_none_def sent_def split: if_splits)
next
  case True
  have zero: "sd_written sd = 0"
    using True assms(1) by (auto simp: all_or_none_def unat_of_nat)
  show ?thesis
  proof (cases "io_sends i")
    case Nil
    with True assms zero show ?thesis
      by (auto simp: sender_step_def send_iter_def isClosed_def bindA_app whole_def sock_write_def all_or_none_def sent_def)
  next
    case (Cons a as)
    with assms(2) obtain k where k: "a = Sent k" "m \<le> k" by (auto simp: whole_def)
    with True Cons assms zero show ?thesis
      by (auto simp: sender_step_def send_iter_def isClosed_def bindA_app whole_def sock_write_def all_or_none_def
          sent_def unat_of_nat Let_def)
  qed
qed

lemma race_whole:
  assumes "all_or_none sa" and "all_or_none sb" and "whole m i" and "length (sd_buf sa) \<le> m" and "length (sd_buf sb) \<le> m"
    and "io_wire i = pre @ sent sa @ sent sb \<or> io_wire i = pre @ sent sb @ sent sa"
    and "race sched sa sb i = (sa', sb', i')"
  shows "io_wire i' = pre @ sent sa' @ sent sb' \<or> io_wire i' = pre @ sent sb' @ sent sa'"
  using assms
proof (induction sched sa sb i rule: race.induct)
  case (2 sched sa sb i)
  obtain s j where step: "sender_step sa i = (s, j)" by fastforce
  from sender_step_whole [OF 2(2) 2(4) 2(5) step] 2(3,5-8) show ?case
    by (intro 2(1) [OF step [symmetric]]) (auto simp: step)
next
  case (3 sched sa sb i)
  obtain s j where step: "sender_step sb i = (s, j)" by fastforce
  from sender_step_whole [OF 3(3) 3(4) 3(6) step] 3(2,5-8) show ?case
    by (intro 3(1) [OF step [symmetric]]) (auto simp: step)
qed simp

section \<open>Properties\<close>

text \<open>A thread that is alone in \<^verbatim>\<open>send\<close> does, by iterations, what \<open>conn_send\<close> does.\<close>

theorem sender_alone:
  assumes "conn_send buf i = (r, i')"
  shows "\<exists>n. race (replicate (Suc (length (io_sends i))) True) (sender_start buf) sb i =
    (\<lparr>sd_buf = buf, sd_written = n, sd_result = Some r\<rparr>, sb, i')"
proof -
  from sender_run_loop [of "sender_start buf" i "Suc (length (io_sends i))" r i'] assms obtain n where
    "sender_run (Suc (length (io_sends i))) (sender_start buf) i =
      ((sender_start buf)\<lparr>sd_written := n, sd_result := Some r\<rparr>, i')"
    by (auto simp: sender_start_def conn_send_def simp del: send_loop.simps)
  then show ?thesis by (simp only: race_alone) (simp add: sender_start_def)
qed

theorem sender_alone_witness:
  "\<exists>n. race (replicate 3 True) (sender_start [1, 2, 3]) (sender_start []) (io_start [Sent 1, Sent 9] [] [] ()) =
    (\<lparr>sd_buf = [1, 2, 3], sd_written = n, sd_result = Some (Inr 3)\<rparr>, sender_start [],
     (io_start [] [] [] ())\<lparr>io_wire := [1, 2, 3]\<rparr>)"
proof -
  have "conn_send [1, 2, 3] (io_start [Sent 1, Sent 9] [] [] ()) =
      (Inr 3, (io_start [] [] [] ())\<lparr>io_wire := [1, 2, 3]\<rparr>)"
    by (simp add: conn_send_def sock_write_def bindA_app)
  from sender_alone [OF this, of "sender_start []"] show ?thesis by (simp add: numeral_3_eq_3)
qed



end
