(* ===== verification/Tcp_Atomicity.thy ===== *)
theory Tcp_Atomicity
  imports Tcp_System
begin

text \<open>
  Why an iteration of \<^verbatim>\<open>ClientWorker::loop\<close> may be one step of \<open>Tcp_System\<close>. Here its calls are steps of their own:
  the check of the quit condition, \<^verbatim>\<open>isClosed\<close>, \<^verbatim>\<open>isReadable\<close>, \<^verbatim>\<open>read\<close> and \<^verbatim>\<open>onReceive\<close>, and between two of them
  the server, the other workers and signals can do anything. Every run of this finer system is matched by
  a run of \<open>Tcp_System\<close>: only the first call looks at what the threads share, and the only thing the later ones
  do to it is to reset \<^verbatim>\<open>_isActive\<close> after an exception.
\<close>

section \<open>The code, call by call\<close>

text \<open>Where a thread is between two iterations (\<open>Fresh\<close>) or inside one; \<^verbatim>\<open>read\<close> has filled the buffer.\<close>

datatype micro = Fresh | Past_Quit | Past_Closed | Past_Poll | Past_Read "byte list" nat

definition fine_do ::
  "('h \<times> 'u io, 'a) act \<Rightarrow> ('a \<Rightarrow> ('h, 'u) thread \<Rightarrow> ('h, 'u) thread \<times> micro) \<Rightarrow> ('h, 'u) thread \<Rightarrow> ('h, 'u) thread \<times> micro"
where
  "fine_do m k t =
     (case m (wk_state (th_worker t)) of
        (Inr x, st) \<Rightarrow> k x (t\<lparr>th_worker := (th_worker t)\<lparr>wk_state := st\<rparr>\<rparr>)
      | (Inl e, st) \<Rightarrow> (th_do m (\<lambda>_ t. t) t, Fresh))"

definition micro_step ::
  "('h, 'u) server_handler \<Rightarrow> int option \<Rightarrow> ('h, 'u) thread \<Rightarrow> micro \<Rightarrow> ('h, 'u) thread \<times> micro"
where
  "micro_step handler sig t m =
     (case m of
        Fresh \<Rightarrow>
          if th_pc t = In_Loop
          then fine_do (on_io (quitCondition sig))
                 (\<lambda>quit t. if quit then (t\<lparr>th_pc := At_Disconnect\<rparr>, Fresh) else (t, Past_Quit)) t
          else (thread_step handler sig t, Fresh)
      | Past_Quit \<Rightarrow>
          fine_do (on_io isClosed)
            (\<lambda>closed t. if closed then (t\<lparr>th_pc := At_Disconnect\<rparr>, Fresh) else (t, Past_Closed)) t
      | Past_Closed \<Rightarrow>
          fine_do (on_io (sk_isReadable SocketImpl))
            (\<lambda>readable t. if readable then (t, Past_Poll) else (t, Fresh)) t
      | Past_Poll \<Rightarrow>
          fine_do (on_io (sk_read SocketImpl (th_buf t)))
            (\<lambda>(len, buf') t.
               if len = NUM_EOF then (t\<lparr>th_pc := At_Disconnect\<rparr>, Fresh)
               else if len = NUM_CONTINUE then (t\<lparr>th_buf := buf'\<rparr>, Fresh)
               else (t, Past_Read buf' (nat len))) t
      | Past_Read buf' len \<Rightarrow>
          fine_do (sh_onReceive handler buf' len) (\<lambda>_ t. (t\<lparr>th_buf := buf'\<rparr>, Fresh)) t)"

text \<open>The system: the threads of \<open>Tcp_System\<close>, some of them inside an iteration. The steps of the server and the
  signals are those of \<open>Tcp_System\<close>.\<close>

inductive fine_step ::
  "('h, 'u) server_handler \<Rightarrow> (int \<Rightarrow> 'h) \<Rightarrow> tcp_options \<Rightarrow> int \<Rightarrow> (nat \<Rightarrow> 'u io) \<Rightarrow> (nat \<Rightarrow> byte list)
   \<Rightarrow> ('h, 'u) system \<times> (nat \<Rightarrow> micro) \<Rightarrow> label \<Rightarrow> ('h, 'u) system \<times> (nat \<Rightarrow> micro) \<Rightarrow> bool"
  for handler fac options fd env bufs
where
  other: "fine_step handler fac options fd env bufs (S, mu) lab (S', mu)"
    if "sys_step handler fac options fd env bufs S lab S'" and "\<forall>k. lab \<noteq> By_Worker k"
| work: "fine_step handler fac options fd env bufs (S, mu) (By_Worker k)
     (S\<lparr>sys_threads := (sys_threads S)(k \<mapsto> t'),
        sys_server := (sys_server S)\<lparr>sv_active :=
          (if wk_isActive (th_worker t') then sv_active (sys_server S) else sv_active (sys_server S) - {k})\<rparr>\<rparr>,
      mu(k := m'))"
    if "sys_threads S k = Some t" and "\<not> th_over t"
      and "micro_step handler (seen_signal (sys_server S)) t (mu k) = (t', m')"

inductive fine_run ::
  "('h, 'u) server_handler \<Rightarrow> (int \<Rightarrow> 'h) \<Rightarrow> tcp_options \<Rightarrow> int \<Rightarrow> (nat \<Rightarrow> 'u io) \<Rightarrow> (nat \<Rightarrow> byte list)
   \<Rightarrow> ('h, 'u) system \<times> (nat \<Rightarrow> micro) \<Rightarrow> label list \<Rightarrow> ('h, 'u) system \<times> (nat \<Rightarrow> micro) \<Rightarrow> bool"
  for handler fac options fd env bufs
where
  stop: "fine_run handler fac options fd env bufs F [] F"
| step: "fine_run handler fac options fd env bufs F (labs @ [lab]) F''"
    if "fine_run handler fac options fd env bufs F labs F'"
      and "fine_step handler fac options fd env bufs F' lab F''"

section \<open>The rest of an iteration\<close>

definition rest_read :: "('h, 'u) server_handler \<Rightarrow> byte list \<Rightarrow> nat \<Rightarrow> ('h \<times> 'u io, byte list option) act" where
  "rest_read handler buf' len = thenA (sh_onReceive handler buf' len) (retA (Some buf'))"

definition rest_poll :: "('h, 'u) server_handler \<Rightarrow> byte list \<Rightarrow> ('h \<times> 'u io, byte list option) act" where
  "rest_poll handler buf =
     bindA (on_io (sock_read buf)) (\<lambda>(len, buf').
     if len = NUM_EOF then retA None
     else if len = NUM_CONTINUE then retA (Some buf')
     else rest_read handler buf' (nat len))"

definition rest_closed :: "('h, 'u) server_handler \<Rightarrow> byte list \<Rightarrow> ('h \<times> 'u io, byte list option) act" where
  "rest_closed handler buf =
     bindA (on_io isReadable) (\<lambda>readable. if \<not> readable then retA (Some buf) else rest_poll handler buf)"

definition rest_quit :: "('h, 'u) server_handler \<Rightarrow> byte list \<Rightarrow> ('h \<times> 'u io, byte list option) act" where
  "rest_quit handler buf =
     bindA (on_io isClosed) (\<lambda>closed. if closed then retA None else rest_closed handler buf)"

definition iter_rest :: "('h, 'u) server_handler \<Rightarrow> byte list \<Rightarrow> micro \<Rightarrow> ('h \<times> 'u io, byte list option) act" where
  "iter_rest handler buf m =
     (case m of Fresh \<Rightarrow> retA (Some buf) | Past_Quit \<Rightarrow> rest_quit handler buf | Past_Closed \<Rightarrow> rest_closed handler buf
      | Past_Poll \<Rightarrow> rest_poll handler buf | Past_Read buf' len \<Rightarrow> rest_read handler buf' len)"

definition after_iter :: "byte list option \<Rightarrow> ('h, 'u) thread \<Rightarrow> ('h, 'u) thread" where
  "after_iter go = (case go of None \<Rightarrow> th_pc_update (\<lambda>_. At_Disconnect) | Some buf \<Rightarrow> th_buf_update (\<lambda>_. buf))"

text \<open>The thread as it will be at the end of its iteration.\<close>

definition complete :: "('h, 'u) server_handler \<Rightarrow> ('h, 'u) thread \<Rightarrow> micro \<Rightarrow> ('h, 'u) thread" where
  "complete handler t m = (if m = Fresh then t else th_do (iter_rest handler (th_buf t) m) after_iter t)"

lemma complete_Fresh [simp]: "complete handler t Fresh = t"
  by (simp add: complete_def)

lemma loop_iter_rest:
  "loop_iter handler sig buf = bindA (on_io (quitCondition sig)) (\<lambda>quit. if quit then retA None else rest_quit handler buf)"
  unfolding loop_iter_def rest_quit_def rest_closed_def rest_poll_def rest_read_def SocketImpl_simps by (rule refl)

lemma th_do_bindA:
  "th_do (bindA m f) k t =
     (case m (wk_state (th_worker t)) of
        (Inr x, st) \<Rightarrow> th_do (f x) k (t\<lparr>th_worker := (th_worker t)\<lparr>wk_state := st\<rparr>\<rparr>)
      | (Inl e, st) \<Rightarrow> th_do m (\<lambda>_ t. t) t)"
  by (simp add: th_do_def bindA_app split: prod.split sum.split stop.split)

lemma th_do_retA: "th_do (retA x) k t = k x t"
  by (simp add: th_do_def)

text \<open>A call inside an iteration does not change how it will end, and the first one decides it.\<close>

lemma fine_do_complete:
  assumes "fine_do m k t = (t', m')"
    and "\<And>x st. m (wk_state (th_worker t)) = (Inr x, st) \<Longrightarrow>
      complete handler (fst (k x (t\<lparr>th_worker := (th_worker t)\<lparr>wk_state := st\<rparr>\<rparr>))) (snd (k x (t\<lparr>th_worker := (th_worker t)\<lparr>wk_state := st\<rparr>\<rparr>))) =
        th_do (f x) after_iter (t\<lparr>th_worker := (th_worker t)\<lparr>wk_state := st\<rparr>\<rparr>)"
  shows "complete handler t' m' = th_do (bindA m f) after_iter t"
proof -
  obtain r st where "m (wk_state (th_worker t)) = (r, st)" by (metis surj_pair)
  with assms show ?thesis
    by (cases r) (auto simp: fine_do_def th_do_bindA)
qed

lemma complete_goes_on: "m \<noteq> Fresh \<Longrightarrow> th_do (iter_rest handler (th_buf t) m) after_iter t = complete handler t m"
  by (simp add: complete_def)

lemma complete_micro_step:
  assumes "m \<noteq> Fresh" and "micro_step handler sig t m = (t', m')"
  shows "complete handler t' m' = complete handler t m"
proof (cases m)
  case Past_Quit
  with assms(2) have "fine_do (on_io isClosed) (\<lambda>closed t. if closed then (t\<lparr>th_pc := At_Disconnect\<rparr>, Fresh) else (t, Past_Closed)) t = (t', m')"
    by (simp add: micro_step_def)
  then show ?thesis
    unfolding Past_Quit complete_goes_on [of Past_Quit, symmetric, simplified] iter_rest_def micro.case rest_quit_def
    by (rule fine_do_complete) (simp add: th_do_retA after_iter_def complete_def iter_rest_def)
next
  case Past_Closed
  with assms(2) have "fine_do (on_io isReadable) (\<lambda>readable t. if readable then (t, Past_Poll) else (t, Fresh)) t = (t', m')"
    by (simp add: micro_step_def)
  then show ?thesis
    unfolding Past_Closed complete_goes_on [of Past_Closed, symmetric, simplified] iter_rest_def micro.case rest_closed_def
    by (rule fine_do_complete) (simp add: th_do_retA after_iter_def complete_def iter_rest_def)
next
  case Past_Poll
  with assms(2) have "fine_do (on_io (sock_read (th_buf t))) (\<lambda>(len, buf') t.
      if len = NUM_EOF then (t\<lparr>th_pc := At_Disconnect\<rparr>, Fresh)
      else if len = NUM_CONTINUE then (t\<lparr>th_buf := buf'\<rparr>, Fresh) else (t, Past_Read buf' (nat len))) t = (t', m')"
    by (simp add: micro_step_def)
  then show ?thesis
    unfolding Past_Poll complete_goes_on [of Past_Poll, symmetric, simplified] iter_rest_def micro.case rest_poll_def
    by (rule fine_do_complete) (simp add: th_do_retA after_iter_def complete_def iter_rest_def split: prod.split)
next
  case (Past_Read buf' len)
  with assms(2) have "fine_do (sh_onReceive handler buf' len) (\<lambda>_ t. (t\<lparr>th_buf := buf'\<rparr>, Fresh)) t = (t', m')"
    by (simp add: micro_step_def)
  then show ?thesis
    unfolding Past_Read complete_goes_on [of "Past_Read buf' len", symmetric, simplified] iter_rest_def micro.case rest_read_def thenA_def
    by (rule fine_do_complete) (simp add: th_do_retA after_iter_def complete_def)
qed (use assms(1) in simp)

lemma complete_first_step:
  assumes "th_pc t = In_Loop" and "micro_step handler sig t Fresh = (t', m')"
  shows "complete handler t' m' = thread_step handler sig t"
proof -
  have first: "fine_do (on_io (quitCondition sig)) (\<lambda>quit t. if quit then (t\<lparr>th_pc := At_Disconnect\<rparr>, Fresh) else (t, Past_Quit)) t = (t', m')"
    using assms by (simp add: micro_step_def)
  have coarse: "thread_step handler sig t = th_do (loop_iter handler sig (th_buf t)) after_iter t"
    by (simp add: thread_step_def assms(1) after_iter_def [abs_def])
  show ?thesis
    unfolding coarse loop_iter_rest
    by (rule fine_do_complete [OF first]) (simp add: th_do_retA after_iter_def complete_def iter_rest_def)
qed

text \<open>A thread inside an iteration is in the loop and active; it has come there without a signal.\<close>

lemma micro_step_inside:
  assumes "micro_step handler sig t m = (t', m')" and "m' \<noteq> Fresh"
    and "th_pc t = In_Loop" and "wk_isActive (th_worker t)"
  shows "th_pc t' = In_Loop \<and> wk_isActive (th_worker t')"
  using assms
  by (cases m) (auto simp: micro_step_def fine_do_def split: prod.splits sum.splits if_splits)

lemma micro_step_enters:
  assumes "micro_step handler sig t Fresh = (t', m')" and "m' \<noteq> Fresh"
  shows "th_pc t = In_Loop" and "\<forall>n. sig = Some n \<longrightarrow> n = NO_SIGNAL"
proof -
  show loop: "th_pc t = In_Loop"
    using assms by (auto simp: micro_step_def split: if_splits)
  show "\<forall>n. sig = Some n \<longrightarrow> n = NO_SIGNAL"
    using assms loop
    by (auto simp: micro_step_def fine_do_def on_io_def quitCondition_def bindA_app sigHandler_def split: prod.splits if_splits)
qed

lemma micro_step_active:
  assumes "micro_step handler sig t m = (t', m')" and "wk_isActive (th_worker t) \<longleftrightarrow> th_pc t \<noteq> Ended"
    and "m \<noteq> Fresh \<longrightarrow> th_pc t = In_Loop"
  shows "wk_isActive (th_worker t') \<longleftrightarrow> th_pc t' \<noteq> Ended"
proof (cases "m' = Fresh")
  case True
  show ?thesis
  proof (cases "m = Fresh \<and> th_pc t \<noteq> In_Loop")
    case True
    with assms(1) have "t' = thread_step handler sig t" by (simp add: micro_step_def)
    with thread_step_active [OF assms(2)] show ?thesis by simp
  next
    case False
    then have "th_pc t = In_Loop" using assms(3) by auto
    then show ?thesis
      using assms(1,2)
      by (cases m) (auto simp: micro_step_def fine_do_def th_do_def split: prod.splits sum.splits stop.splits if_splits)
  qed
next
  case False
  have "th_pc t = In_Loop"
    using assms(1,3) micro_step_enters(1) [OF _ False] by (cases "m = Fresh") auto
  with micro_step_inside [OF assms(1) False] assms(2) show ?thesis by simp
qed

section \<open>The invariant\<close>

definition fine_ok :: "tcp_options \<Rightarrow> ('h, 'u) system \<Rightarrow> (nat \<Rightarrow> micro) \<Rightarrow> bool" where
  "fine_ok options S mu \<longleftrightarrow> sys_ok options S
   \<and> (\<forall>k. mu k \<noteq> Fresh \<longrightarrow> (\<exists>t. sys_threads S k = Some t \<and> th_pc t = In_Loop))"

lemma fine_okD:
  assumes "fine_ok options S mu"
  shows "sys_ok options S" and "mu k \<noteq> Fresh \<Longrightarrow> \<exists>t. sys_threads S k = Some t \<and> th_pc t = In_Loop"
  using assms by (simp_all add: fine_ok_def)

text \<open>The server leaves the threads there are alone.\<close>

lemma server_threads:
  assumes "sys_step handler fac options fd env bufs S lab S'" and "sys_ok options S" and "\<forall>k. lab \<noteq> By_Worker k"
    and "sys_threads S k = Some t"
  shows "sys_threads S' k = Some t"
  using assms(1)
proof (cases rule: sys_step.cases)
  case (iterate s')
  have "k < sv_started (sys_server S)" using sys_okD(4) [OF assms(2)] assms(4) by (metis domI lessThan_iff)
  with iterate_threads [OF assms(2) iterate(3,4), of env bufs] assms(4)
  show ?thesis unfolding iterate(2) by (auto simp: Let_def)
qed (use assms(3,4) in auto)

lemma fine_ok_step:
  assumes "fine_step handler fac options fd env bufs F lab F'" and "fine_ok options (fst F) (snd F)"
  shows "fine_ok options (fst F') (snd F')"
  using assms(1)
proof (cases rule: fine_step.cases)
  case (other S S' mu)
  then have ok: "fine_ok options S mu" using assms(2) by simp
  note fine_okD [OF ok]
  with other sys_ok_step [OF other(3)] server_threads [OF other(3) _ other(4)] show ?thesis
    unfolding fine_ok_def by fastforce
next
  case (work S k t mu t' m')
  then have ok: "fine_ok options S mu" using assms(2) by simp
  have loop: "mu k \<noteq> Fresh \<longrightarrow> th_pc t = In_Loop" using fine_okD(2) [OF ok, of k] work(4) by auto
  have act: "wk_isActive (th_worker t) \<longleftrightarrow> th_pc t \<noteq> Ended" by (rule sys_okD(6) [OF fine_okD(1) [OF ok] work(4)])
  have "th_pc t' = In_Loop" if "m' \<noteq> Fresh"
  proof -
    have "th_pc t = In_Loop"
      using loop micro_step_enters(1) [OF _ that] work(6) by (cases "mu k = Fresh") auto
    with micro_step_inside [OF work(6) that] act show ?thesis by simp
  qed
  with sys_ok_threads [OF fine_okD(1) [OF ok] work(4,5) micro_step_active [OF work(6) act loop]] fine_okD(2) [OF ok]
  show ?thesis unfolding work(3) by (simp add: fine_ok_def)
qed

section \<open>The simulation\<close>

text \<open>Where the coarse thread is while the fine one is at \<open>m\<close>: at the end of the iteration; but if the iteration ends in an
  exception, it has not begun it, as long as there is no signal.\<close>

definition fails_at :: "('h, 'u) server_handler \<Rightarrow> ('h, 'u) thread \<Rightarrow> micro \<Rightarrow> bool" where
  "fails_at handler t m \<longleftrightarrow> m \<noteq> Fresh \<and> th_pc (complete handler t m) = Ended"

definition before_iter :: "('h, 'u) server_handler \<Rightarrow> ('h, 'u) thread \<Rightarrow> micro \<Rightarrow> ('h, 'u) thread \<Rightarrow> bool" where
  "before_iter handler t m u \<longleftrightarrow> th_pc u = In_Loop \<and> thread_step handler None u = complete handler t m"

definition follows ::
  "('h, 'u) server_handler \<Rightarrow> bool \<Rightarrow> micro \<Rightarrow> ('h, 'u) thread option \<Rightarrow> ('h, 'u) thread option \<Rightarrow> bool"
where
  "follows handler quit m a c \<longleftrightarrow> (case a of
     None \<Rightarrow> c = None
   | Some t \<Rightarrow> if fails_at handler t m \<and> \<not> quit then \<exists>u. c = Some u \<and> before_iter handler t m u
       else c = Some (complete handler t m))"

lemma follows_Fresh [simp]: "follows handler quit Fresh a c \<longleftrightarrow> c = a"
  by (auto simp: follows_def fails_at_def split: option.split)

definition sys_quits :: "('h, 'u) system \<Rightarrow> bool" where
  "sys_quits S \<longleftrightarrow> sv_signalStatus (sys_server S) \<noteq> NO_SIGNAL"

text \<open>The threads that have failed already in the coarse system.\<close>

definition failed_early :: "('h, 'u) server_handler \<Rightarrow> ('h, 'u) system \<Rightarrow> (nat \<Rightarrow> micro) \<Rightarrow> nat set" where
  "failed_early handler S mu = {k. \<exists>t. sys_threads S k = Some t \<and> fails_at handler t (mu k) \<and> sys_quits S}"

definition matches :: "('h, 'u) server_handler \<Rightarrow> ('h, 'u) system \<Rightarrow> (nat \<Rightarrow> micro) \<Rightarrow> ('h, 'u) system \<Rightarrow> bool" where
  "matches handler S mu C \<longleftrightarrow>
     sys_pc C = sys_pc S
   \<and> sys_server C = (sys_server S)\<lparr>sv_active := sv_active (sys_server S) - failed_early handler S mu\<rparr>
   \<and> (\<forall>k. follows handler (sys_quits S) (mu k) (sys_threads S k) (sys_threads C k))"

lemma matchesD:
  assumes "matches handler S mu C"
  shows "sys_pc C = sys_pc S"
    and "sys_server C = (sys_server S)\<lparr>sv_active := sv_active (sys_server S) - failed_early handler S mu\<rparr>"
    and "follows handler (sys_quits S) (mu k) (sys_threads S k) (sys_threads C k)"
  using assms by (simp_all add: matches_def)

lemma matches_server: "matches handler S mu C \<Longrightarrow> \<not> sys_quits S \<Longrightarrow> sys_server C = sys_server S"
  by (simp add: matches_def failed_early_def)

lemma matches_Fresh:
  assumes "\<forall>k. mu k = Fresh"
  shows "matches handler S mu C \<longleftrightarrow> C = S"
proof -
  have "sv_active s - {} = sv_active s" "s\<lparr>sv_active := sv_active s\<rparr> = s" for s :: "'a server" by simp_all
  then have "failed_early handler S mu = {}" using assms by (simp add: failed_early_def fails_at_def)
  with assms show ?thesis
    by (cases S; cases C) (auto simp: matches_def fun_eq_iff)
qed

text \<open>A step of the server.\<close>

lemma serve_iter_signal:
  assumes "serve_iter fac options fd s = (Inr True, s')"
  shows "sv_signalStatus s = NO_SIGNAL \<and> sv_signalStatus s' = NO_SIGNAL"
proof -
  have "sv_signalStatus s = NO_SIGNAL"
    using assms by (auto simp: serve_iter_def bindA_app thenA_app split: prod.splits sum.splits option.splits if_splits)
  with serve_iter_signalStatus [OF assms] show ?thesis by simp
qed

lemma match_server:
  assumes "sys_step handler fac options fd env bufs S By_Server S'" and "matches handler S mu C" and "fine_ok options S mu"
  shows "\<exists>C'. sys_step handler fac options fd env bufs C By_Server C' \<and> matches handler S' mu C'"
  using assms(1)
proof (cases rule: sys_step.cases)
  case (iterate s')
  have sig: "\<not> sys_quits S" "\<not> sys_quits S'"
    using serve_iter_signal [OF iterate(3)] by (simp_all add: sys_quits_def iterate(1))
  have same: "sys_server C = sys_server S" by (rule matches_server [OF assms(2) sig(1)])
  let ?n = "sv_started (sys_server S)"
  let ?C = "C\<lparr>sys_server := s', sys_threads := spawn env bufs ?n (sv_workers s') (sys_threads C)\<rparr>"
  have step: "sys_step handler fac options fd env bufs C By_Server ?C"
    using sys_step.iterate [of C fac options fd s' handler env bufs] iterate(2,3) matchesD(1) [OF assms(2)] same by simp
  have "follows handler False (mu k) (spawn env bufs ?n (sv_workers s') (sys_threads S) k)
      (spawn env bufs ?n (sv_workers s') (sys_threads C) k)" for k
  proof (cases "find (\<lambda>w. ?n \<le> cw_thr w \<and> cw_thr w = k) (sv_workers s')")
    case None
    then show ?thesis using matchesD(3) [OF assms(2), of k] sig(1) by (simp add: spawn_def)
  next
    case (Some w)
    then have "?n \<le> k" by (auto simp: find_Some_iff)
    then have "mu k = Fresh"
      using fine_okD(2) [OF assms(3), of k] sys_okD(4) [OF fine_okD(1) [OF assms(3)]]
      by (metis domI lessThan_iff not_le)
    with Some show ?thesis by (simp add: spawn_def)
  qed
  then have "matches handler S' mu ?C"
    using sig matchesD(1) [OF assms(2)] by (simp add: matches_def iterate(1) failed_early_def)
  with step show ?thesis by blast
next
  case (leave s')
  let ?C = "C\<lparr>sys_pc := Joining (sv_workers (sys_server C)), sys_server := sys_server C\<rparr>"
  have s': "sv_signalStatus (sys_server S) \<noteq> NO_SIGNAL" "s' = sys_server S"
    using leave(3) by (simp_all add: serve_iter_leave)
  have "serve_iter fac options fd (sys_server C) = (Inr False, sys_server C)"
    using s'(1) matchesD(2) [OF assms(2)] by (simp add: serve_iter_leave)
  with leave(2) matchesD(1) [OF assms(2)] have "sys_step handler fac options fd env bufs C By_Server ?C"
    by (intro sys_step.leave) simp_all
  moreover have "matches handler S' mu ?C"
    using assms(2) s'(2) by (simp add: matches_def leave(1) failed_early_def sys_quits_def)
  ultimately show ?thesis by blast
next
  case (join w ws t s')
  let ?k = "cw_thr w" and ?s = "sys_server S"
  have ok: "sys_ok options S" by (rule fine_okD(1) [OF assms(3)])
  have fresh: "mu ?k = Fresh" using fine_okD(2) [OF assms(3), of ?k] join(3,4) by auto
  then have coarse: "sys_threads C ?k = Some t" using matchesD(3) [OF assms(2), of ?k] join(3) by simp
  have idle: "?k \<notin> sv_active ?s" using sys_okD(5) [OF ok join(3)] join(4) by simp
  with join(5) have s': "s' = ?s\<lparr>sv_joined := sv_joined ?s @ [?k]\<rparr>"
    by (simp add: worker_finish_inactive worker_isActive_def)
  let ?c = "(sys_server C)\<lparr>sv_joined := sv_joined (sys_server C) @ [?k]\<rparr>"
  have "worker_finish w (sys_server C) = (Inr (), ?c)"
    using idle matchesD(2) [OF assms(2)] by (simp add: worker_finish_inactive worker_isActive_def)
  from sys_step.join [OF _ coarse join(4) this] matchesD(1) [OF assms(2)] join(2)
  have "sys_step handler fac options fd env bufs C By_Server (C\<lparr>sys_pc := Joining ws, sys_server := ?c\<rparr>)" by simp
  moreover have "matches handler S' mu (C\<lparr>sys_pc := Joining ws, sys_server := ?c\<rparr>)"
    using assms(2) by (simp add: matches_def join(1) s' failed_early_def sys_quits_def)
  ultimately show ?thesis by blast
next
  case finish
  then have "sys_step handler fac options fd env bufs C By_Server (C\<lparr>sys_pc := Returned\<rparr>)"
    using matchesD(1) [OF assms(2)] by (intro sys_step.finish) simp
  moreover have "matches handler S' mu (C\<lparr>sys_pc := Returned\<rparr>)"
    using assms(2) by (simp add: matches_def finish(1) failed_early_def sys_quits_def)
  ultimately show ?thesis by blast
qed

text \<open>A step of a worker.\<close>

abbreviation put_thread :: "nat \<Rightarrow> ('h, 'u) thread \<Rightarrow> ('h, 'u) system \<Rightarrow> ('h, 'u) system" where
  "put_thread k t S \<equiv> S\<lparr>sys_threads := (sys_threads S)(k \<mapsto> t),
     sys_server := (sys_server S)\<lparr>sv_active :=
       (if wk_isActive (th_worker t) then sv_active (sys_server S) else sv_active (sys_server S) - {k})\<rparr>\<rparr>"

lemma matches_put:
  assumes "matches handler S mu C" and "k \<in> sv_active (sys_server S)"
    and "sys_pc C' = sys_pc C" and "sys_server C' = (sys_server C)\<lparr>sv_active := A\<rparr>"
    and "\<forall>j. j \<noteq> k \<longrightarrow> sys_threads C' j = sys_threads C j \<and> (j \<in> A \<longleftrightarrow> j \<in> sv_active (sys_server C))"
    and "follows handler (sys_quits S) m' (Some t') (sys_threads C' k)"
    and "k \<in> A \<longleftrightarrow> wk_isActive (th_worker t') \<and> \<not> (fails_at handler t' m' \<and> sys_quits S)"
  shows "matches handler (put_thread k t' S) (mu(k := m')) C'"
proof -
  let ?S = "put_thread k t' S"
  have quits: "sys_quits ?S = sys_quits S" by (simp add: sys_quits_def)
  have early: "j \<in> failed_early handler ?S (mu(k := m')) \<longleftrightarrow>
      (if j = k then fails_at handler t' m' \<and> sys_quits S else j \<in> failed_early handler S mu)" for j
    unfolding failed_early_def quits by simp
  have "j \<in> A \<longleftrightarrow> j \<in> sv_active (sys_server ?S) - failed_early handler ?S (mu(k := m'))" for j
    using assms(2,5,7) matchesD(2) [OF assms(1)] by (cases "j = k") (simp_all add: early)
  then have A: "A = sv_active (sys_server ?S) - failed_early handler ?S (mu(k := m'))" by blast
  have "sys_server C' = (sys_server ?S)\<lparr>sv_active := A\<rparr>"
    by (simp add: assms(4) matchesD(2) [OF assms(1)])
  note server = this [unfolded A]
  have "follows handler (sys_quits S) ((mu(k := m')) j) (sys_threads ?S j) (sys_threads C' j)" for j
    using matchesD(3) [OF assms(1), of j] assms(5,6) by simp
  with server matchesD(1) [OF assms(1)] assms(3) show ?thesis
    unfolding matches_def quits by simp
qed

lemma match_work:
  assumes "matches handler S mu C" and "fine_ok options S mu" and "sys_threads S k = Some t" and "\<not> th_over t"
    and "micro_step handler (seen_signal (sys_server S)) t (mu k) = (t', m')"
  shows "\<exists>C'. (C' = C \<or> sys_step handler fac options fd env bufs C (By_Worker k) C')
    \<and> matches handler (put_thread k t' S) (mu(k := m')) C'"
proof -
  let ?q = "sys_quits S" and ?sig = "seen_signal (sys_server S)"
  have ok: "sys_ok options S" by (rule fine_okD(1) [OF assms(2)])
  have act: "wk_isActive (th_worker t) \<longleftrightarrow> th_pc t \<noteq> Ended" by (rule sys_okD(6) [OF ok assms(3)])
  have k: "k \<in> sv_active (sys_server S)" using sys_okD(5) [OF ok assms(3)] assms(4) by (auto simp: th_over_def)
  have kC: "k \<in> sv_active (sys_server C) \<longleftrightarrow> \<not> (fails_at handler t (mu k) \<and> ?q)"
    using k assms(3) matchesD(2) [OF assms(1)] by (simp add: failed_early_def)
  have loop: "mu k \<noteq> Fresh \<longrightarrow> th_pc t = In_Loop" using fine_okD(2) [OF assms(2), of k] assms(3) by auto
  have act': "wk_isActive (th_worker t') \<longleftrightarrow> th_pc t' \<noteq> Ended"
    by (rule micro_step_active [OF assms(5) act loop])
  have inside: "th_pc t' \<noteq> Ended" if "m' \<noteq> Fresh"
  proof -
    have "th_pc t = In_Loop"
      using micro_step_enters(1) [OF _ that, of handler _ t t'] assms(5) loop by (cases "mu k = Fresh") auto
    with micro_step_inside [OF assms(5) that] act show ?thesis by simp
  qed
  have seen: "seen_signal (sys_server C) = ?sig" using matchesD(2) [OF assms(1)] by (simp add: seen_signal_def)
  have foll: "follows handler ?q (mu k) (Some t) (sys_threads C k)" using matchesD(3) [OF assms(1), of k] assms(3) by simp
  have stutter: ?thesis
    if "follows handler ?q m' (Some t') (sys_threads C k)"
      "k \<in> sv_active (sys_server C) \<longleftrightarrow> th_pc t' \<noteq> Ended \<and> \<not> (fails_at handler t' m' \<and> ?q)"
    using matches_put [OF assms(1) k, of C "sv_active (sys_server C)" m' t'] that act' by auto
  have both: ?thesis
    if u: "sys_threads C k = Some u" "\<not> th_over u" "thread_step handler ?sig u = u'"
      and end_u: "wk_isActive (th_worker u') \<longleftrightarrow> th_pc u' \<noteq> Ended"
      and c: "follows handler ?q m' (Some t') (Some u')"
        "k \<in> sv_active (sys_server C) \<and> th_pc u' \<noteq> Ended \<longleftrightarrow> th_pc t' \<noteq> Ended \<and> \<not> (fails_at handler t' m' \<and> ?q)"
    for u u'
  proof -
    have "sys_step handler fac options fd env bufs C (By_Worker k) (put_thread k u' C)"
      using u(1,2) u(3) [symmetric] seen by (intro sys_step.work [where t = u]) simp_all
    moreover have "matches handler (put_thread k t' S) (mu(k := m')) (put_thread k u' C)"
      by (rule matches_put [OF assms(1) k]) (use c end_u act' in auto)
    ultimately show ?thesis by blast
  qed
  show ?thesis
  proof (cases "mu k = Fresh")
    case fresh: True
    then have t: "sys_threads C k = Some t" using foll by simp
    show ?thesis
    proof (cases "m' = Fresh")
      case True
      have "thread_step handler ?sig t = t'"
      proof (cases "th_pc t = In_Loop")
        case loop: True
        from complete_first_step [OF loop, of handler ?sig t' m'] assms(5) fresh True show ?thesis by simp
      qed (use assms(5) fresh in \<open>simp add: micro_step_def\<close>)
      from both [OF t assms(4) this act'] True kC fresh show ?thesis by (simp add: fails_at_def)
    next
      case False
      have step: "micro_step handler ?sig t Fresh = (t', m')" using assms(5) fresh by simp
      have in_loop: "th_pc t = In_Loop" by (rule micro_step_enters(1) [OF step False])
      have "sv_signalStatus (sys_server S) = NO_SIGNAL"
        using micro_step_enters(2) [OF step False] unfolding seen_signal_def by metis
      then have nq: "\<not> ?q" "?sig = None" by (simp_all add: seen_signal_def sys_quits_def)
      have c: "complete handler t' m' = thread_step handler None t"
        using complete_first_step [OF in_loop step] nq(2) by simp
      show ?thesis
      proof (cases "fails_at handler t' m'")
        case True
        with c in_loop nq t have "follows handler ?q m' (Some t') (sys_threads C k)"
          by (simp add: follows_def before_iter_def)
        from stutter [OF this] kC nq inside [OF False] show ?thesis by simp
      next
        case ok_end: False
        have "wk_isActive (th_worker (complete handler t' m')) \<longleftrightarrow> th_pc (complete handler t' m') \<noteq> Ended"
          unfolding c by (rule thread_step_active [OF act])
        from both [OF t assms(4) _ this] c nq kC ok_end inside [OF False] False show ?thesis
          by (simp add: follows_def fails_at_def)
      qed
    qed
  next
    case False
    have c: "complete handler t' m' = complete handler t (mu k)"
      by (rule complete_micro_step [OF False assms(5)])
    show ?thesis
    proof (cases "m' = Fresh")
      case inside': False
      have "fails_at handler t' m' \<longleftrightarrow> fails_at handler t (mu k)"
        using False inside' c by (simp add: fails_at_def)
      moreover from this foll have "follows handler ?q m' (Some t') (sys_threads C k)"
        unfolding follows_def before_iter_def option.case c by simp
      ultimately show ?thesis using stutter kC inside [OF inside'] by simp
    next
      case done': True
      then have t': "t' = complete handler t (mu k)" using c by simp
      then have ends: "fails_at handler t (mu k) \<longleftrightarrow> th_pc t' = Ended" using False by (simp add: fails_at_def)
      show ?thesis
      proof (cases "fails_at handler t (mu k) \<and> \<not> ?q")
        case True
        then obtain u where u: "sys_threads C k = Some u" "th_pc u = In_Loop" "thread_step handler None u = t'"
          using foll by (auto simp: follows_def before_iter_def t')
        have "?sig = None" using True by (simp add: seen_signal_def sys_quits_def)
        with both [OF u(1) _ _ act'] u True ends done' show ?thesis by (simp add: th_over_def fails_at_def)
      next
        case False
        then have "sys_threads C k = Some t'" using foll by (auto simp: follows_def t')
        with stutter False kC ends done' show ?thesis by (auto simp: fails_at_def)
      qed
    qed
  qed
qed

text \<open>A signal: the threads whose iteration is going to fail have to fail before it comes.\<close>

definition failing :: "('h, 'u) server_handler \<Rightarrow> ('h, 'u) system \<Rightarrow> (nat \<Rightarrow> micro) \<Rightarrow> nat set" where
  "failing handler S mu = {k. \<exists>t. sys_threads S k = Some t \<and> fails_at handler t (mu k)}"

lemma flush:
  assumes "finite P" and "P \<subseteq> failing handler S mu" and "matches handler S mu C" and "\<not> sys_quits S"
    and "\<And>k t. sys_threads S k = Some t \<Longrightarrow> fails_at handler t (mu k) \<Longrightarrow> \<not> wk_isActive (th_worker (complete handler t (mu k)))"
  shows "\<exists>labs C'. sys_run handler fac options fd env bufs C labs C' \<and> sys_pc C' = sys_pc C
    \<and> sys_server C' = (sys_server C)\<lparr>sv_active := sv_active (sys_server C) - P\<rparr>
    \<and> (\<forall>k. sys_threads C' k = (if k \<in> P then map_option (\<lambda>t. complete handler t (mu k)) (sys_threads S k) else sys_threads C k))"
  using assms(1,2)
proof (induction P rule: finite_induct)
  case empty
  show ?case
    by (intro exI [of _ "[]"] exI [of _ C]) (simp add: sys_run.stop)
next
  case (insert k P)
  then obtain labs C' where run: "sys_run handler fac options fd env bufs C labs C'" "sys_pc C' = sys_pc C"
    and C': "sys_server C' = (sys_server C)\<lparr>sv_active := sv_active (sys_server C) - P\<rparr>"
      "\<forall>k. sys_threads C' k = (if k \<in> P then map_option (\<lambda>t. complete handler t (mu k)) (sys_threads S k) else sys_threads C k)"
    by auto
  obtain t where t: "sys_threads S k = Some t" "fails_at handler t (mu k)"
    using insert.prems by (auto simp: failing_def)
  let ?e = "complete handler t (mu k)"
  obtain u where u: "sys_threads C k = Some u" "th_pc u = In_Loop" "thread_step handler None u = ?e"
    using matchesD(3) [OF assms(3), of k] t assms(4) by (auto simp: follows_def before_iter_def)
  have "seen_signal (sys_server C') = None"
    using assms(4) C'(1) matches_server [OF assms(3,4)] by (simp add: seen_signal_def sys_quits_def)
  then have now: "?e = thread_step handler (seen_signal (sys_server C')) u" by (simp only: u(3))
  have at: "sys_threads C' k = Some u" "\<not> th_over u"
    using C'(2) insert.hyps(2) u(1,2) by (simp_all add: th_over_def)
  note run' = sys_run.step [OF run(1) sys_step.work [OF at now]]
  let ?C = "put_thread k ?e C'"
  have "sys_pc ?C = sys_pc C" using run(2) by simp
  moreover have "sys_server ?C = (sys_server C)\<lparr>sv_active := sv_active (sys_server C) - insert k P\<rparr>"
  proof -
    have "sv_active (sys_server C) - P - {k} = sv_active (sys_server C) - insert k P" by blast
    with C'(1) assms(5) [OF t] show ?thesis by simp
  qed
  moreover have "\<forall>j. sys_threads ?C j =
      (if j \<in> insert k P then map_option (\<lambda>t. complete handler t (mu j)) (sys_threads S j) else sys_threads C j)"
    using C'(2) t(1) by simp
  ultimately show ?case using run' by blast
qed

lemma match_signal:
  assumes "matches handler S mu C" and "fine_ok options S mu" and "n \<noteq> NO_SIGNAL"
  shows "\<exists>labs C'. sys_run handler fac options fd env bufs C labs C'
    \<and> matches handler (S\<lparr>sys_server := (sys_server S)\<lparr>sv_signalStatus := n\<rparr>\<rparr>) mu C'"
proof -
  let ?sig = "\<lambda>S. S\<lparr>sys_server := (sys_server S)\<lparr>sv_signalStatus := n\<rparr>\<rparr>"
  have quits: "sys_quits (?sig S)" using assms(3) by (simp add: sys_quits_def)
  have early: "failed_early handler (?sig S) mu = failing handler S mu"
    unfolding failed_early_def failing_def using quits by simp
  show ?thesis
  proof (cases "sys_quits S")
    case True
    then have "failed_early handler S mu = failing handler S mu" by (simp add: failed_early_def failing_def)
    then have "matches handler (?sig S) mu (?sig C)"
      using assms(1) True quits unfolding matches_def early by simp
    with sys_run.step [OF sys_run.stop sys_step.signal [OF assms(3), of handler fac options fd env bufs C]] show ?thesis
      by blast
  next
    case False
    have "failing handler S mu \<subseteq> {..<sv_started (sys_server S)}"
      using sys_okD(4) [OF fine_okD(1) [OF assms(2)]] by (auto simp: failing_def)
    then have "finite (failing handler S mu)" by (rule finite_subset) simp
    moreover have "\<not> wk_isActive (th_worker (complete handler t (mu k)))"
      if "sys_threads S k = Some t" "fails_at handler t (mu k)" for k t
    proof -
      have "th_pc t = In_Loop" using fine_okD(2) [OF assms(2), of k] that by (auto simp: fails_at_def)
      with that(2) show ?thesis
        by (auto simp: fails_at_def complete_def th_do_def after_iter_def split: prod.splits sum.splits stop.splits option.splits)
    qed
    ultimately obtain labs C1 where run: "sys_run handler fac options fd env bufs C labs C1"
      and C1: "sys_pc C1 = sys_pc C" "sys_server C1 = (sys_server C)\<lparr>sv_active := sv_active (sys_server C) - failing handler S mu\<rparr>"
        "\<forall>k. sys_threads C1 k = (if k \<in> failing handler S mu
          then map_option (\<lambda>t. complete handler t (mu k)) (sys_threads S k) else sys_threads C k)"
      using flush [OF _ subset_refl assms(1) False] by blast
    have "follows handler True (mu k) (sys_threads S k) (sys_threads C1 k)" for k
      using C1(3) matchesD(3) [OF assms(1), of k] by (auto simp: follows_def failing_def split: option.splits)
    then have "matches handler (?sig S) mu (?sig C1)"
      using C1(1,2) matchesD(1) [OF assms(1)] matches_server [OF assms(1) False] quits unfolding matches_def early by simp
    with sys_run.step [OF run sys_step.signal [OF assms(3)]] show ?thesis by blast
  qed
qed

lemma fine_run_matched:
  assumes "fine_run handler fac options fd env bufs F labs F'" and "snd F = (\<lambda>_. Fresh)" and "sys_ok options (fst F)"
  shows "fine_ok options (fst F') (snd F')
    \<and> (\<exists>labs' C. sys_run handler fac options fd env bufs (fst F) labs' C \<and> matches handler (fst F') (snd F') C)"
  using assms
proof (induction rule: fine_run.induct)
  case (stop F)
  then have "fine_ok options (fst F) (snd F)" "matches handler (fst F) (snd F) (fst F)"
    by (simp_all add: fine_ok_def matches_Fresh)
  then show ?case using sys_run.stop by blast
next
  case (step F labs F' lab F'')
  then obtain labs' C where ok: "fine_ok options (fst F') (snd F')"
    and run: "sys_run handler fac options fd env bufs (fst F) labs' C" and C: "matches handler (fst F') (snd F') C" by blast
  have "\<exists>labs'' C'. sys_run handler fac options fd env bufs C labs'' C' \<and> matches handler (fst F'') (snd F'') C'"
    using step(2)
  proof (cases rule: fine_step.cases)
    case (other S S' mu)
    show ?thesis
    proof (cases lab)
      case By_Server
      with match_server [of handler fac options fd env bufs S S' mu C] other ok C show ?thesis
        using sys_run.step [OF sys_run.stop] by fastforce
    next
      case (By_Signal n)
      with other(3) have "n \<noteq> NO_SIGNAL" "S' = S\<lparr>sys_server := (sys_server S)\<lparr>sv_signalStatus := n\<rparr>\<rparr>"
        by (auto elim: sys_step.cases)
      with match_signal [of handler S mu C options n fac fd env bufs] other ok C show ?thesis by auto
    qed (use other(4) in auto)
  next
    case (work S k t mu t' m')
    then have at: "matches handler S mu C" "fine_ok options S mu" using ok C by simp_all
    from match_work [OF at work(4-6), of fac fd env bufs] obtain C' where
      "C' = C \<or> sys_step handler fac options fd env bufs C (By_Worker k) C'"
      "matches handler (put_thread k t' S) (mu(k := m')) C'" by blast
    then have "C' = C \<or> sys_step handler fac options fd env bufs C (By_Worker k) C'" "matches handler (fst F'') (snd F'') C'"
      by (simp_all add: work(3))
    then show ?thesis
      using sys_run.stop [of handler fac options fd env bufs C] sys_run.step [OF sys_run.stop] by blast
  qed
  with fine_ok_step [OF step(2) ok] sys_run_more [OF _ run] show ?case by blast
qed

text \<open>Executing the steps.\<close>

definition fine_move ::
  "('h, 'u) server_handler \<Rightarrow> (int \<Rightarrow> 'h) \<Rightarrow> tcp_options \<Rightarrow> int \<Rightarrow> (nat \<Rightarrow> 'u io) \<Rightarrow> (nat \<Rightarrow> byte list)
   \<Rightarrow> label \<Rightarrow> ('h, 'u) system \<times> (nat \<Rightarrow> micro) \<Rightarrow> (('h, 'u) system \<times> (nat \<Rightarrow> micro)) option"
where
  "fine_move handler fac options fd env bufs lab F =
     (case lab of
        By_Worker k \<Rightarrow>
          (case sys_threads (fst F) k of
             None \<Rightarrow> None
           | Some t \<Rightarrow>
               if th_over t then None
               else case micro_step handler (seen_signal (sys_server (fst F))) t (snd F k) of
                 (t', m') \<Rightarrow> Some (put_thread k t' (fst F), (snd F)(k := m')))
      | _ \<Rightarrow> map_option (\<lambda>S'. (S', snd F)) (sys_do handler fac options fd env bufs lab (fst F)))"

lemma fine_move_step:
  assumes "fine_move handler fac options fd env bufs lab F = Some F'"
  shows "fine_step handler fac options fd env bufs F lab F'"
proof -
  obtain S mu where F: "F = (S, mu)" by (cases F)
  show ?thesis
  proof (cases lab)
    case (By_Worker k)
    with assms F obtain t t' m' where "sys_threads S k = Some t" "\<not> th_over t"
      "micro_step handler (seen_signal (sys_server S)) t (mu k) = (t', m')" "F' = (put_thread k t' S, mu(k := m'))"
      by (auto simp: fine_move_def split: option.splits if_splits prod.splits)
    with fine_step.work [of S k t handler mu t' m' fac options fd env bufs] By_Worker F show ?thesis by simp
  qed (use assms F in \<open>auto simp: fine_move_def sys_step_do intro: fine_step.other\<close>)
qed

fun fine_exec ::
  "('h, 'u) server_handler \<Rightarrow> (int \<Rightarrow> 'h) \<Rightarrow> tcp_options \<Rightarrow> int \<Rightarrow> (nat \<Rightarrow> 'u io) \<Rightarrow> (nat \<Rightarrow> byte list)
   \<Rightarrow> label list \<Rightarrow> ('h, 'u) system \<times> (nat \<Rightarrow> micro) \<Rightarrow> (('h, 'u) system \<times> (nat \<Rightarrow> micro)) option"
where
  "fine_exec handler fac options fd env bufs [] F = Some F"
| "fine_exec handler fac options fd env bufs (lab # labs) F =
     (case fine_move handler fac options fd env bufs lab F of
        None \<Rightarrow> None
      | Some F' \<Rightarrow> fine_exec handler fac options fd env bufs labs F')"

lemma fine_exec_more:
  "fine_run handler fac options fd env bufs F0 labs0 F \<Longrightarrow> fine_exec handler fac options fd env bufs labs F = Some F' \<Longrightarrow>
   fine_run handler fac options fd env bufs F0 (labs0 @ labs) F'"
proof (induction labs arbitrary: labs0 F)
  case (Cons lab labs)
  then obtain F1 where F1: "fine_move handler fac options fd env bufs lab F = Some F1"
    "fine_exec handler fac options fd env bufs labs F1 = Some F'"
    by (auto split: option.splits)
  from Cons.IH [OF fine_run.step [OF Cons.prems(1) fine_move_step [OF F1(1)]] F1(2)] show ?case by simp
qed simp

lemmas fine_exec_run = fine_exec_more [OF fine_run.stop, simplified]

section \<open>Properties\<close>

text \<open>C13. Iterations of a worker's loop may be taken as atomic. In every run in which the calls of an iteration (quit
  condition, \<^verbatim>\<open>isClosed\<close>, \<^verbatim>\<open>isReadable\<close>, \<^verbatim>\<open>read\<close>, \<^verbatim>\<open>onReceive\<close>) are interleaved with the server, the other workers and the
  signals, there is at every moment a run of whole iterations that has come to the same state of the server and of
  every thread that is between two iterations; a thread inside an iteration is there at the end of it or, if
  the iteration will end in an exception, possibly still before it. When no thread is inside an iteration
  the two states are the same.\<close>

theorem iterations_are_atomic:
  assumes "fine_run handler fac options fd env bufs (sys_start as, \<lambda>_. Fresh) labs (S, mu)"
  shows "\<exists>labs' C. sys_run handler fac options fd env bufs (sys_start as) labs' C
    \<and> sys_pc C = sys_pc S \<and> sv_kernel (sys_server C) = sv_kernel (sys_server S)
    \<and> sv_workers (sys_server C) = sv_workers (sys_server S) \<and> sv_joined (sys_server C) = sv_joined (sys_server S)
    \<and> (\<forall>k. mu k = Fresh \<longrightarrow> sys_threads C k = sys_threads S k)
    \<and> (\<forall>k t. sys_threads S k = Some t \<and> mu k \<noteq> Fresh \<longrightarrow> (\<exists>u. sys_threads C k = Some u
          \<and> (u = complete handler t (mu k)
             \<or> th_pc (complete handler t (mu k)) = Ended \<and> thread_step handler None u = complete handler t (mu k))))
    \<and> ((\<forall>k. mu k = Fresh) \<longrightarrow> C = S)"
proof -
  from fine_run_matched [OF assms] obtain labs' C where run: "sys_run handler fac options fd env bufs (sys_start as) labs' C"
    and C: "matches handler S mu C" by (auto simp: sys_ok_start)
  have "\<exists>u. sys_threads C k = Some u \<and> (u = complete handler t (mu k)
      \<or> th_pc (complete handler t (mu k)) = Ended \<and> thread_step handler None u = complete handler t (mu k))"
    if "sys_threads S k = Some t" for k t
    using matchesD(3) [OF C, of k] that by (auto simp: follows_def fails_at_def before_iter_def split: if_splits)
  moreover have "sys_threads C k = sys_threads S k" if "mu k = Fresh" for k
    using matchesD(3) [OF C, of k] that by simp
  ultimately show ?thesis
    using run matchesD(1,2) [OF C] matches_Fresh [of mu handler S C] C
    by (intro exI [of _ labs'] exI [of _ C]) auto
qed

text \<open>A signal comes between a worker's check of the quit condition and its \<^verbatim>\<open>isClosed\<close>.\<close>

theorem iterations_are_atomic_witness:
  "\<exists>S mu labs'. fine_run idle_handler (\<lambda>_. ()) ServerOptions 3 demo_env demo_bufs (demo_start, \<lambda>_. Fresh)
      [By_Server, By_Worker 0, By_Worker 0, By_Signal 15, By_Worker 0, By_Worker 0, By_Worker 0] (S, mu)
    \<and> sys_run idle_handler (\<lambda>_. ()) ServerOptions 3 demo_env demo_bufs demo_start labs' S
    \<and> map_option th_pc (sys_threads S 0) = Some At_Disconnect"
proof -
  let ?labs = "[By_Server, By_Worker 0, By_Worker 0, By_Signal 15, By_Worker 0, By_Worker 0, By_Worker 0]"
  obtain S mu where ex: "fine_exec idle_handler (\<lambda>_. ()) ServerOptions 3 demo_env demo_bufs ?labs (demo_start, \<lambda>_. Fresh) = Some (S, mu)"
    and fresh: "\<forall>k. mu k = Fresh" "map_option th_pc (sys_threads S 0) = Some At_Disconnect"
    by (simp add: fine_move_def demo_simps micro_step_def fine_do_def)
  from iterations_are_atomic [OF fine_exec_run [OF ex]] fresh(1) obtain labs' where
    "sys_run idle_handler (\<lambda>_. ()) ServerOptions 3 demo_env demo_bufs demo_start labs' S" by blast
  with fine_exec_run [OF ex] fresh(2) show ?thesis by blast
qed

end
