(* ===== verification/Push_System.thy ===== *)
theory Push_System
  imports Push_Servers Tcp_Threads
begin

text \<open>
  The TCP push server of \<^verbatim>\<open>examples/tcp_push/main.cpp\<close> with all its threads: the pusher's thread and the
  workers share the manager, whose mutex the pusher holds from the first send of a push to the last,
  and the server's thread creates and destroys the connections the manager points to.

  A worker's steps are those of \<open>Tcp_Threads\<close>, on the hub of \<open>Push_Servers\<close>; those that call the manager
  wait for the mutex. The server's thread moves by iterations of \<^verbatim>\<open>serve\<close>: it destroys the workers that
  have ended and admits or turns away a client. A new connection may get any address no living
  connection has, also that of a destroyed one.
\<close>

section \<open>The code\<close>

definition greeting :: string where "greeting = ''Connection established.''"
definition farewell :: string where "farewell = ''Connection closed.''"

text \<open>The loop calls only \<^verbatim>\<open>onReceive\<close>, which touches only the worker's own connection.\<close>

definition push_receiver :: "(unit, 'u) server_handler" where
  "push_receiver =
     \<lparr>sh_onConnect = retA (),
      sh_onReceive = (\<lambda>buf len. bindA (liftR (region buf len)) (\<lambda>bytes. thenA (on_io (conn_send bytes)) (retA ()))),
      sh_onDisconnect = retA ()\<rparr>"

definition push_own :: "nat \<Rightarrow> (unit \<times> 'u io, 'a) act \<Rightarrow> ('u hub, 'a) act" where
  "push_own c m = on_conn c (\<lambda>i. case m ((), i) of (r, _, i') \<Rightarrow> (r, i'))"

record push_thread =
  pt_conn :: nat              \<comment> \<open>the address of \<^verbatim>\<open>handler->connection()\<close>\<close>
  pt_pc :: pc
  pt_isActive :: bool
  pt_buf :: "byte list"

definition pt_do ::
  "('u hub, 'a) act \<Rightarrow> ('a \<Rightarrow> push_thread \<Rightarrow> push_thread) \<Rightarrow> push_thread \<Rightarrow> 'u hub \<Rightarrow> push_thread \<times> 'u hub"
where
  "pt_do m k t s =
     (case m s of
        (Inr x, s') \<Rightarrow> (k x t, s')
      | (Inl (Throw exc), s') \<Rightarrow>
          (t\<lparr>pt_pc := Ended, pt_isActive := False\<rparr>, snd (on_conn (pt_conn t) (log_io (Log_Error exc)) s'))
      | (Inl e, s') \<Rightarrow> (t\<lparr>pt_pc := Halted e\<rparr>, s'))"

definition push_thread_step :: "push_thread \<Rightarrow> 'u hub \<Rightarrow> push_thread \<times> 'u hub" where
  "push_thread_step t s =
     (let c = pt_conn t;
          sig = (if hub_signalStatus s = NO_SIGNAL then None else Some (hub_signalStatus s))
      in case pt_pc t of
        At_Connect \<Rightarrow> pt_do (push_onConnect greeting c) (\<lambda>_. pt_pc_update (\<lambda>_. In_Loop)) t s
      | In_Loop \<Rightarrow> pt_do (push_own c (loop_iter push_receiver sig (pt_buf t)))
          (\<lambda>go. case go of None \<Rightarrow> pt_pc_update (\<lambda>_. At_Disconnect) | Some buf \<Rightarrow> pt_buf_update (\<lambda>_. buf)) t s
      | At_Disconnect \<Rightarrow> pt_do (push_onDisconnect farewell c) (\<lambda>_. pt_pc_update (\<lambda>_. At_Close)) t s
      | At_Close \<Rightarrow> pt_do (on_conn c (sk_close SocketImpl)) (\<lambda>_ t. t\<lparr>pt_pc := Ended, pt_isActive := False\<rparr>) t s
      | _ \<Rightarrow> (t, s))"

text \<open>The pusher: at the check of the quit condition, or holding the mutex, with the connections it has
  still to send to.\<close>

datatype push_server_pc = Push_Serving | Push_Joining | Push_Returned

datatype pusher_pc = Pu_Check nat | Pu_Pushing nat "nat list" | Pu_Ended | Pu_Halted stop

record 'u push_system =
  ps_hub :: "'u hub"
  ps_server :: push_server_pc
  ps_workers :: "push_thread list"
  ps_pusher :: pusher_pc

definition pusher_step :: "(nat \<Rightarrow> ('u io, unit) act) \<Rightarrow> pusher_pc \<Rightarrow> 'u hub \<Rightarrow> pusher_pc \<times> 'u hub" where
  "pusher_step send p s =
     (case p of
        Pu_Check cnt \<Rightarrow> (if hub_signalStatus s \<noteq> NO_SIGNAL then Pu_Ended else Pu_Pushing cnt (hub_elements s), s)
      | Pu_Pushing cnt [] \<Rightarrow> (Pu_Check (Suc cnt), s)
      | Pu_Pushing cnt (c # cs) \<Rightarrow>
          (case on_conn c (send cnt) s of
             (Inr _, s') \<Rightarrow> (Pu_Pushing cnt cs, s')
           | (Inl (Throw _), s') \<Rightarrow> (Pu_Halted Terminate, s')
           | (Inl e, s') \<Rightarrow> (Pu_Halted e, s'))
      | _ \<Rightarrow> (p, s))"

text \<open>A pusher whose write does not return (\<open>Starved\<close>) keeps the mutex; otherwise, where it halts, the
  process ends.\<close>

definition mutex_free :: "'u push_system \<Rightarrow> bool" where
  "mutex_free S \<longleftrightarrow> (case ps_pusher S of Pu_Check _ \<Rightarrow> True | Pu_Ended \<Rightarrow> True | _ \<Rightarrow> False)"

definition ps_alive :: "'u push_system \<Rightarrow> bool" where
  "ps_alive S \<longleftrightarrow> (case ps_pusher S of Pu_Halted e \<Rightarrow> e = Starved | _ \<Rightarrow> True)"

definition pusher_over :: "pusher_pc \<Rightarrow> bool" where
  "pusher_over p \<longleftrightarrow> (case p of Pu_Ended \<Rightarrow> True | Pu_Halted _ \<Rightarrow> True | _ \<Rightarrow> False)"

text \<open>\<^verbatim>\<open>cleanup\<close>: the workers that have ended are destroyed, and their handlers and connections with them.\<close>

definition push_cleanup :: "'u push_system \<Rightarrow> 'u push_system" where
  "push_cleanup S =
     (let ws = filter pt_isActive (ps_workers S)
      in S\<lparr>ps_workers := ws, ps_hub := (ps_hub S)\<lparr>hub_conns := hub_conns (ps_hub S) |` set (map pt_conn ws)\<rparr>\<rparr>)"

definition push_admit :: "nat \<Rightarrow> 'u io \<Rightarrow> byte list \<Rightarrow> 'u push_system \<Rightarrow> 'u push_system" where
  "push_admit c i buf S =
     S\<lparr>ps_workers := ps_workers S @ [\<lparr>pt_conn = c, pt_pc = At_Connect, pt_isActive = True, pt_buf = buf\<rparr>],
       ps_hub := (ps_hub S)\<lparr>hub_conns := (hub_conns (ps_hub S))(c \<mapsto> i)\<rparr>\<rparr>"

datatype 'u push_label =
  Admit nat "'u io" "byte list" | Turn_Away | Leave | Destroy | Works nat | Fails nat | Pushes | Signal int

text \<open>The server's thread accepts clients until it finds the quit condition, then joins all workers. A worker
  fails when an exception ends it before its \<^verbatim>\<open>close\<close>.\<close>

definition quitting :: "'u push_system \<Rightarrow> bool" where
  "quitting S \<longleftrightarrow> hub_signalStatus (ps_hub S) \<noteq> NO_SIGNAL"

definition accepting :: "'u push_system \<Rightarrow> bool" where
  "accepting S \<longleftrightarrow> ps_server S = Push_Serving \<and> \<not> quitting S"

inductive push_step ::
  "(nat \<Rightarrow> ('u io, unit) act) \<Rightarrow> nat \<Rightarrow> 'u push_system \<Rightarrow> 'u push_label \<Rightarrow> 'u push_system \<Rightarrow> bool"
  for send max_clients
where
  admit: "push_step send max_clients S (Admit c i buf) (push_admit c i buf (push_cleanup S))"
    if "ps_alive S" and "accepting S" and "length (ps_workers (push_cleanup S)) < max_clients"
      and "hub_conns (ps_hub (push_cleanup S)) c = None"
| turn_away: "push_step send max_clients S Turn_Away (push_cleanup S)"
    if "ps_alive S" and "accepting S" and "\<not> length (ps_workers (push_cleanup S)) < max_clients"
| leave: "push_step send max_clients S Leave (S\<lparr>ps_server := Push_Joining\<rparr>)"
    if "ps_alive S" and "ps_server S = Push_Serving" and "quitting S"
| destroy: "push_step send max_clients S Destroy ((push_cleanup S)\<lparr>ps_server := Push_Returned\<rparr>)"
    if "ps_alive S" and "ps_server S = Push_Joining" and "\<forall>t \<in> set (ps_workers S). pt_pc t = Ended"
| work: "push_step send max_clients S (if pt_pc t' = Ended \<and> pt_pc t \<noteq> At_Close then Fails k else Works k)
     (S\<lparr>ps_workers := (ps_workers S)[k := t'], ps_hub := s'\<rparr>)"
    if "ps_alive S" and "k < length (ps_workers S)" and "t = ps_workers S ! k"
      and "pt_pc t \<in> {At_Connect, In_Loop, At_Disconnect, At_Close}"
      and "pt_pc t \<in> {At_Connect, At_Disconnect} \<longrightarrow> mutex_free S"
      and "push_thread_step t (ps_hub S) = (t', s')"
| pusher: "push_step send max_clients S Pushes (S\<lparr>ps_pusher := p, ps_hub := s'\<rparr>)"
    if "ps_alive S" and "\<not> pusher_over (ps_pusher S)" and "pusher_step send (ps_pusher S) (ps_hub S) = (p, s')"
| signal: "push_step send max_clients S (Signal n) (S\<lparr>ps_hub := (ps_hub S)\<lparr>hub_signalStatus := n\<rparr>\<rparr>)"
    if "ps_alive S" and "n \<noteq> NO_SIGNAL"

inductive push_run ::
  "(nat \<Rightarrow> ('u io, unit) act) \<Rightarrow> nat \<Rightarrow> 'u push_system \<Rightarrow> 'u push_label list \<Rightarrow> 'u push_system \<Rightarrow> bool"
  for send max_clients
where
  stop: "push_run send max_clients S [] S"
| step: "push_run send max_clients S (labs @ [lab]) S''"
    if "push_run send max_clients S labs S'" and "push_step send max_clients S' lab S''"

definition push_start :: "'u push_system" where
  "push_start = \<lparr>ps_hub = \<lparr>hub_conns = Map.empty, hub_elements = [], hub_signalStatus = NO_SIGNAL\<rparr>,
     ps_server = Push_Serving, ps_workers = [], ps_pusher = Pu_Check 0\<rparr>"

section \<open>What a step of a worker does\<close>

text \<open>The steps of the loop are those of \<open>Push_Servers\<close>: its \<^verbatim>\<open>onReceive\<close> is \<open>tcp_push_onReceive\<close>.\<close>

lemma push_own_onReceive:
  assumes "hub_conns s c = Some i" and "len \<le> length buf"
  shows "push_own c (sh_onReceive push_receiver buf len) s = tcp_push_onReceive c buf len s"
proof -
  obtain r i' where "conn_send (take len buf) i = (r, i')" by fastforce
  with assms show ?thesis
    by (cases r) (simp_all add: push_own_def push_receiver_def tcp_push_onReceive_def on_conn_def at_conn_def region_def
        bindA_app thenA_app on_io_app liftR_def)
qed

lemma on_conn_frame:
  assumes "on_conn c m s = (r, s')"
  shows "hub_elements s' = hub_elements s" "hub_signalStatus s' = hub_signalStatus s"
    "dom (hub_conns s') = dom (hub_conns s)"
  using assms by (auto simp: on_conn_def at_conn_def split: prod.splits option.splits if_splits)

lemma log_returns: "c \<in> dom (hub_conns s) \<Longrightarrow> \<exists>s'. on_conn c (log_io l) s = (Inr (), s')"
  by (auto simp: on_conn_def at_conn_def log_io_def)

lemma pt_do_own:
  assumes "pt_do (on_conn c m) k t s = (t', s')"
  shows "hub_elements s' = hub_elements s" "hub_signalStatus s' = hub_signalStatus s"
    "dom (hub_conns s') = dom (hub_conns s)"
    "(\<exists>x. t' = k x t) \<or> t' = t\<lparr>pt_pc := Ended, pt_isActive := False\<rparr> \<or> (\<exists>e. t' = t\<lparr>pt_pc := Halted e\<rparr>)"
proof -
  obtain r s1 where run: "on_conn c m s = (r, s1)" by fastforce
  have eq: "s' = s1 \<or> (\<exists>exc. s' = snd (on_conn (pt_conn t) (log_io (Log_Error exc)) s1))"
    using assms by (auto simp: pt_do_def run split: sum.splits stop.splits)
  have log: "hub_elements (snd (on_conn d l s1)) = hub_elements s1"
    "hub_signalStatus (snd (on_conn d l s1)) = hub_signalStatus s1"
    "dom (hub_conns (snd (on_conn d l s1))) = dom (hub_conns s1)" for d l
    using on_conn_frame [of d l s1] by (metis surj_pair snd_conv)+
  have "hub_elements s' = hub_elements s1 \<and> hub_signalStatus s' = hub_signalStatus s1
      \<and> dom (hub_conns s') = dom (hub_conns s1)"
    using eq log by metis
  then show "hub_elements s' = hub_elements s" "hub_signalStatus s' = hub_signalStatus s"
    "dom (hub_conns s') = dom (hub_conns s)"
    using on_conn_frame [OF run] by simp_all
  show "(\<exists>x. t' = k x t) \<or> t' = t\<lparr>pt_pc := Ended, pt_isActive := False\<rparr> \<or> (\<exists>e. t' = t\<lparr>pt_pc := Halted e\<rparr>)"
    using assms by (auto simp: pt_do_def run split: sum.splits stop.splits)
qed

definition registered :: "push_thread \<Rightarrow> bool" where
  "registered t \<longleftrightarrow> pt_pc t \<in> {In_Loop, At_Disconnect} \<or> (\<exists>e. pt_pc t = Halted e)"

lemma push_thread_step_frame:
  assumes "push_thread_step t s = (t', s')" and "pt_conn t \<in> dom (hub_conns s)"
    and "pt_isActive t \<longleftrightarrow> pt_pc t \<noteq> Ended"
  shows "pt_conn t' = pt_conn t" and "dom (hub_conns s') = dom (hub_conns s)"
    and "hub_signalStatus s' = hub_signalStatus s" and "pt_isActive t' \<longleftrightarrow> pt_pc t' \<noteq> Ended"
    and "hub_elements s' =
      (case pt_pc t of At_Connect \<Rightarrow> insort_insert (pt_conn t) (hub_elements s)
       | At_Disconnect \<Rightarrow> remove1 (pt_conn t) (hub_elements s) | _ \<Rightarrow> hub_elements s)"
    and "pt_pc t = At_Connect \<Longrightarrow> pt_pc t' = In_Loop" and "pt_pc t = At_Disconnect \<Longrightarrow> pt_pc t' = At_Close"
    and "pt_pc t = In_Loop \<Longrightarrow> registered t' \<or> pt_pc t' = Ended"
    and "pt_pc t = At_Close \<Longrightarrow> pt_pc t' = Ended"
proof -
  let ?c = "pt_conn t"
  let ?P = "pt_conn t' = pt_conn t \<and> dom (hub_conns s') = dom (hub_conns s)
    \<and> hub_signalStatus s' = hub_signalStatus s \<and> (pt_isActive t' \<longleftrightarrow> pt_pc t' \<noteq> Ended)
    \<and> hub_elements s' =
      (case pt_pc t of At_Connect \<Rightarrow> insort_insert (pt_conn t) (hub_elements s)
       | At_Disconnect \<Rightarrow> remove1 (pt_conn t) (hub_elements s) | _ \<Rightarrow> hub_elements s)
    \<and> (pt_pc t = At_Connect \<longrightarrow> pt_pc t' = In_Loop) \<and> (pt_pc t = At_Disconnect \<longrightarrow> pt_pc t' = At_Close)
    \<and> (pt_pc t = In_Loop \<longrightarrow> registered t' \<or> pt_pc t' = Ended) \<and> (pt_pc t = At_Close \<longrightarrow> pt_pc t' = Ended)"
  have ?P
  proof (cases "pt_pc t")
    case At_Connect
    obtain s1 where log: "on_conn ?c (log_io (Log_Info greeting)) s = (Inr (), s1)"
      using log_returns assms(2) by blast
    with assms(1) At_Connect
    have "t' = t\<lparr>pt_pc := In_Loop\<rparr>" "s' = s1\<lparr>hub_elements := insort_insert ?c (hub_elements s1)\<rparr>"
      by (auto simp: push_thread_step_def Let_def pt_do_def push_onConnect_def thenA_app addConn_def)
    with on_conn_frame [OF log] assms(3) At_Connect show ?thesis by simp
  next
    case In_Loop
    with assms(1) obtain m k where own: "pt_do (on_conn ?c m) k t s = (t', s')"
      and k: "k = (\<lambda>go. case go of None \<Rightarrow> pt_pc_update (\<lambda>_. At_Disconnect) | Some buf \<Rightarrow> pt_buf_update (\<lambda>_. buf))"
      by (auto simp: push_thread_step_def Let_def push_own_def)
    from pt_do_own [OF own] assms(3) In_Loop show ?thesis
      by (auto simp: k registered_def split: option.splits)
  next
    case At_Disconnect
    let ?s = "s\<lparr>hub_elements := remove1 ?c (hub_elements s)\<rparr>"
    obtain s1 where log: "on_conn ?c (log_io (Log_Info farewell)) ?s = (Inr (), s1)"
      using log_returns [of ?c ?s] assms(2) by auto
    with assms(1) At_Disconnect have "t' = t\<lparr>pt_pc := At_Close\<rparr>" "s' = s1"
      by (auto simp: push_thread_step_def Let_def pt_do_def push_onDisconnect_def thenA_app delConn_def)
    with on_conn_frame [OF log] assms(3) At_Disconnect show ?thesis by simp
  next
    case At_Close
    obtain i where i: "hub_conns s ?c = Some i" using assms(2) by auto
    with assms(1) At_Close show ?thesis
      by (auto simp: push_thread_step_def Let_def pt_do_def on_conn_def at_conn_def sock_close_def split: if_splits)
  qed (use assms in \<open>auto simp: push_thread_step_def Let_def\<close>)
  then show "pt_conn t' = pt_conn t" and "dom (hub_conns s') = dom (hub_conns s)"
    and "hub_signalStatus s' = hub_signalStatus s" and "pt_isActive t' \<longleftrightarrow> pt_pc t' \<noteq> Ended"
    and "hub_elements s' =
      (case pt_pc t of At_Connect \<Rightarrow> insort_insert (pt_conn t) (hub_elements s)
       | At_Disconnect \<Rightarrow> remove1 (pt_conn t) (hub_elements s) | _ \<Rightarrow> hub_elements s)"
    and "pt_pc t = At_Connect \<Longrightarrow> pt_pc t' = In_Loop" and "pt_pc t = At_Disconnect \<Longrightarrow> pt_pc t' = At_Close"
    and "pt_pc t = In_Loop \<Longrightarrow> registered t' \<or> pt_pc t' = Ended"
    and "pt_pc t = At_Close \<Longrightarrow> pt_pc t' = Ended"
    by blast+
qed

section \<open>The invariants\<close>

text \<open>In every run: the living connections are those of the workers, each has one, and the manager's set
  does not change while the pusher holds the mutex.\<close>

definition push_ok :: "'u push_system \<Rightarrow> bool" where
  "push_ok S \<longleftrightarrow>
     distinct (map pt_conn (ps_workers S))
   \<and> dom (hub_conns (ps_hub S)) = set (map pt_conn (ps_workers S))
   \<and> (\<forall>t \<in> set (ps_workers S). pt_isActive t \<longleftrightarrow> pt_pc t \<noteq> Ended)
   \<and> hub_ok (ps_hub S)
   \<and> (\<forall>cnt cs. ps_pusher S = Pu_Pushing cnt cs \<longrightarrow> (\<exists>sent. hub_elements (ps_hub S) = sent @ cs))
   \<and> (ps_server S = Push_Returned \<longrightarrow> ps_workers S = [])"

text \<open>In a run in which no worker fails, moreover: the manager holds exactly the connections whose workers are
  between \<^verbatim>\<open>onConnect\<close> and \<^verbatim>\<open>onDisconnect\<close>, and the pusher has not followed a dangling pointer.\<close>

definition push_exact :: "'u push_system \<Rightarrow> bool" where
  "push_exact S \<longleftrightarrow>
     set (hub_elements (ps_hub S)) = pt_conn ` {t \<in> set (ps_workers S). registered t}
   \<and> (\<forall>u. ps_pusher S \<noteq> Pu_Halted (UB u))"

lemma push_okD:
  assumes "push_ok S"
  shows "distinct (map pt_conn (ps_workers S))"
    and "dom (hub_conns (ps_hub S)) = set (map pt_conn (ps_workers S))"
    and "t \<in> set (ps_workers S) \<Longrightarrow> pt_isActive t \<longleftrightarrow> pt_pc t \<noteq> Ended"
    and "sorted (hub_elements (ps_hub S))" and "distinct (hub_elements (ps_hub S))"
    and "ps_pusher S = Pu_Pushing cnt cs \<Longrightarrow> \<exists>sent. hub_elements (ps_hub S) = sent @ cs"
    and "ps_server S = Push_Returned \<Longrightarrow> ps_workers S = []"
  using assms by (auto simp: push_ok_def hub_ok_def)

lemma ended_not_registered: "pt_pc t = Ended \<Longrightarrow> \<not> registered t"
  by (simp add: registered_def)

lemma push_ok_cleanup: "push_ok S \<Longrightarrow> push_ok (push_cleanup S)"
  by (auto simp: push_ok_def push_cleanup_def Let_def hub_ok_def distinct_map_filter)

lemma push_exact_cleanup: "push_ok S \<Longrightarrow> push_exact S \<Longrightarrow> push_exact (push_cleanup S)"
proof -
  assume ok: "push_ok S" and exact: "push_exact S"
  have "{t \<in> set (filter pt_isActive (ps_workers S)). registered t} = {t \<in> set (ps_workers S). registered t}"
    using push_okD(3) [OF ok] ended_not_registered by auto
  with exact show ?thesis
    by (simp add: push_exact_def push_cleanup_def Let_def)
qed

lemma push_ok_admit:
  assumes "push_ok S" and "hub_conns (ps_hub S) c = None" and "ps_server S \<noteq> Push_Returned"
  shows "push_ok (push_admit c i buf S)"
proof -
  have "c \<notin> set (map pt_conn (ps_workers S))"
    using push_okD(2) [OF assms(1)] assms(2) by (metis domIff)
  with assms(1,3) show ?thesis
    by (auto simp: push_ok_def push_admit_def hub_ok_def)
qed

lemma push_exact_admit: "push_exact S \<Longrightarrow> push_exact (push_admit c i buf S)"
proof -
  assume exact: "push_exact S"
  have "{t \<in> set (ps_workers (push_admit c i buf S)). registered t} = {t \<in> set (ps_workers S). registered t}"
    by (auto simp: push_admit_def registered_def)
  with exact show ?thesis
    by (simp add: push_exact_def push_admit_def)
qed

text \<open>A worker's step, seen from the list.\<close>

lemma image_list_update:
  assumes "distinct (map f xs)" and "k < length xs" and "f x = f (xs ! k)"
  shows "f ` {y \<in> set (xs[k := x]). P y} = f ` {y \<in> set xs. P y} - {f x} \<union> (if P x then {f x} else {})"
proof -
  let ?xs = "take k xs @ drop (Suc k) xs"
  have old: "xs = take k xs @ xs ! k # drop (Suc k) xs"
    using assms(2) by (rule id_take_nth_drop)
  have new: "xs[k := x] = take k xs @ x # drop (Suc k) xs"
    using assms(2) by (rule upd_conv_take_nth_drop)
  have "f (xs ! k) \<notin> set (map f ?xs)"
    using assms(1) by (subst (asm) old) simp
  then have "\<forall>y \<in> set ?xs. f y \<noteq> f x"
    unfolding set_map assms(3) by (metis imageI)
  moreover have "{y \<in> set xs. P y} = {y \<in> set ?xs. P y} \<union> (if P (xs ! k) then {xs ! k} else {})"
    by (subst old) auto
  moreover have "{y \<in> set (xs[k := x]). P y} = {y \<in> set ?xs. P y} \<union> (if P x then {x} else {})"
    by (subst new) auto
  ultimately show ?thesis
    using assms(3) by auto
qed

lemma map_list_update_same: "k < length xs \<Longrightarrow> f x = f (xs ! k) \<Longrightarrow> map f (xs[k := x]) = map f xs"
  by (metis list_update_id map_update)

lemma push_ok_work:
  assumes "push_ok S" and "k < length (ps_workers S)" and "t = ps_workers S ! k"
    and "pt_pc t \<in> {At_Connect, At_Disconnect} \<longrightarrow> mutex_free S"
    and "push_thread_step t (ps_hub S) = (t', s')"
  shows "push_ok (S\<lparr>ps_workers := (ps_workers S)[k := t'], ps_hub := s'\<rparr>)"
proof -
  have mem: "t \<in> set (ps_workers S)" using assms(2,3) by simp
  have alive: "pt_conn t \<in> dom (hub_conns (ps_hub S))"
    using push_okD(2) [OF assms(1)] mem by simp
  note frame = push_thread_step_frame [OF assms(5) alive push_okD(3) [OF assms(1) mem]]
  have same: "map pt_conn ((ps_workers S)[k := t']) = map pt_conn (ps_workers S)"
    using assms(2,3) frame(1) by (intro map_list_update_same) simp_all
  have active: "\<forall>u \<in> set ((ps_workers S)[k := t']). pt_isActive u \<longleftrightarrow> pt_pc u \<noteq> Ended"
    using set_update_subset_insert push_okD(3) [OF assms(1)] frame(4) by fastforce
  have hub: "hub_ok s'"
    using push_okD(4,5) [OF assms(1)] unfolding hub_ok_def frame(5)
    by (simp add: sorted_insort_insert distinct_insort_insert sorted_remove1 split: pc.split)
  have "\<exists>sent. hub_elements s' = sent @ cs" if "ps_pusher S = Pu_Pushing cnt cs" for cnt cs
  proof -
    have "pt_pc t \<notin> {At_Connect, At_Disconnect}"
      using assms(4) that by (auto simp: mutex_free_def)
    then have "hub_elements s' = hub_elements (ps_hub S)"
      unfolding frame(5) by (cases "pt_pc t") simp_all
    with push_okD(6) [OF assms(1) that] show ?thesis by simp
  qed
  moreover have "ps_server S \<noteq> Push_Returned"
    using push_okD(7) [OF assms(1)] mem by auto
  ultimately show ?thesis
    using push_okD(1,2) [OF assms(1)] same active hub frame(2)
    by (simp only: push_ok_def push_system.simps) auto
qed

lemma pusher_step_frame:
  assumes "pusher_step send p s = (p', s')"
  shows "hub_elements s' = hub_elements s" "hub_signalStatus s' = hub_signalStatus s"
    "dom (hub_conns s') = dom (hub_conns s)"
    "p' = Pu_Pushing cnt cs \<Longrightarrow> p = Pu_Check cnt \<and> cs = hub_elements s
      \<or> (\<exists>c. p = Pu_Pushing cnt (c # cs)) \<or> p' = p"
proof -
  have "s' = s \<or> (\<exists>c n r. on_conn c (send n) s = (r, s'))"
    using assms
    by (auto simp: pusher_step_def split: pusher_pc.splits list.splits prod.splits sum.splits stop.splits if_splits)
  then have "hub_elements s' = hub_elements s \<and> hub_signalStatus s' = hub_signalStatus s
      \<and> dom (hub_conns s') = dom (hub_conns s)"
    using on_conn_frame by blast
  then show "hub_elements s' = hub_elements s" "hub_signalStatus s' = hub_signalStatus s"
    "dom (hub_conns s') = dom (hub_conns s)" by simp_all
  show "p' = Pu_Pushing cnt cs \<Longrightarrow> p = Pu_Check cnt \<and> cs = hub_elements s
      \<or> (\<exists>c. p = Pu_Pushing cnt (c # cs)) \<or> p' = p"
    using assms
    by (auto simp: pusher_step_def split: pusher_pc.splits list.splits prod.splits sum.splits stop.splits if_splits)
qed

lemma push_ok_step:
  assumes "push_step send max_clients S lab S'" and "push_ok S"
  shows "push_ok S'"
  using assms(1)
proof (cases rule: push_step.cases)
  case (admit c i buf)
  with push_ok_admit [OF push_ok_cleanup [OF assms(2)]] show ?thesis
    by (simp add: push_cleanup_def Let_def accepting_def)
next
  case turn_away
  with push_ok_cleanup [OF assms(2)] show ?thesis by simp
next
  case leave
  with assms(2) show ?thesis by (simp add: push_ok_def)
next
  case destroy
  with push_okD(3) [OF assms(2)] have "ps_workers (push_cleanup S) = []"
    by (simp add: push_cleanup_def Let_def)
  with push_ok_cleanup [OF assms(2)] destroy(2) show ?thesis by (simp add: push_ok_def)
next
  case (work k t t' s')
  with push_ok_work [OF assms(2)] show ?thesis by blast
next
  case (pusher p s')
  note frame = pusher_step_frame [OF pusher(5)]
  have "\<exists>sent. hub_elements s' = sent @ cs" if "p = Pu_Pushing cnt cs" for cnt cs
    using frame(4) [OF that]
  proof (elim disjE conjE exE)
    fix c assume "ps_pusher S = Pu_Pushing cnt (c # cs)"
    from push_okD(6) [OF assms(2) this] obtain sent where "hub_elements (ps_hub S) = (sent @ [c]) @ cs" by auto
    then show ?thesis unfolding frame(1) by (rule exI)
  next
    assume "p = ps_pusher S"
    then have "ps_pusher S = Pu_Pushing cnt cs" using that by simp
    from push_okD(6) [OF assms(2) this] show ?thesis by (simp add: frame(1))
  qed (simp add: frame(1))
  with assms(2) frame(1-3) show ?thesis
    unfolding pusher(2) push_ok_def hub_ok_def by simp
next
  case (signal n)
  with assms(2) show ?thesis by (simp add: push_ok_def hub_ok_def)
qed

lemma push_ok_run: "push_run send max_clients S labs S' \<Longrightarrow> push_ok S \<Longrightarrow> push_ok S'"
  by (induction rule: push_run.induct) (auto intro: push_ok_step)

lemma push_ok_start [simp]: "push_ok push_start"
  by (simp add: push_ok_def push_start_def hub_ok_def)

lemma push_exact_work:
  assumes "push_ok S" and "push_exact S" and "k < length (ps_workers S)" and "t = ps_workers S ! k"
    and "push_thread_step t (ps_hub S) = (t', s')" and "\<not> (pt_pc t' = Ended \<and> pt_pc t \<noteq> At_Close)"
    and "pt_pc t \<in> {At_Connect, In_Loop, At_Disconnect, At_Close}"
  shows "push_exact (S\<lparr>ps_workers := (ps_workers S)[k := t'], ps_hub := s'\<rparr>)"
proof -
  let ?c = "pt_conn t" and ?R = "pt_conn ` {u \<in> set (ps_workers S). registered u}"
  have mem: "t \<in> set (ps_workers S)" using assms(3,4) by simp
  have alive: "?c \<in> dom (hub_conns (ps_hub S))"
    using push_okD(2) [OF assms(1)] mem by simp
  note frame = push_thread_step_frame [OF assms(5) alive push_okD(3) [OF assms(1) mem]]
  have exact: "set (hub_elements (ps_hub S)) = ?R"
    using assms(2) by (simp add: push_exact_def)
  have now: "pt_conn ` {u \<in> set ((ps_workers S)[k := t']). registered u} =
      ?R - {?c} \<union> (if registered t' then {?c} else {})"
    using image_list_update [OF push_okD(1) [OF assms(1)] assms(3), of t' registered] frame(1) assms(4)
    by simp
  have "set (hub_elements s') = ?R - {?c} \<union> (if registered t' then {?c} else {})"
  proof (cases "pt_pc t")
    case At_Connect
    then have "registered t'" using frame(6) by (simp add: registered_def)
    then show ?thesis
      unfolding frame(5) At_Connect by (auto simp: set_insort_insert exact)
  next
    case In_Loop
    then have "registered t'" using frame(8) assms(6) by auto
    moreover have "?c \<in> ?R" using mem In_Loop by (auto simp: registered_def)
    ultimately show ?thesis
      unfolding frame(5) In_Loop pc.case exact by auto
  next
    case At_Disconnect
    then have "\<not> registered t'" using frame(7) by (simp add: registered_def)
    then show ?thesis
      unfolding frame(5) At_Disconnect pc.case
      by (simp add: set_remove1_eq [OF push_okD(5) [OF assms(1)]] exact)
  next
    case At_Close
    then have "\<not> registered t'" "\<not> registered t" using frame(9) by (simp_all add: registered_def)
    moreover have "?c \<notin> ?R"
      using push_okD(1) [OF assms(1)] mem \<open>\<not> registered t\<close> by (auto simp: distinct_map dest: inj_onD)
    ultimately show ?thesis
      unfolding frame(5) At_Close pc.case exact by simp
  qed (use assms(7) in auto)
  with now assms(2) show ?thesis
    by (simp add: push_exact_def)
qed

lemma push_exact_step:
  assumes "push_step send max_clients S lab S'" and "push_ok S" and "push_exact S" and "\<forall>k. lab \<noteq> Fails k"
    and "\<And>n i u. fst (send n i) \<noteq> Inl (UB u)"
  shows "push_exact S'"
  using assms(1)
proof (cases rule: push_step.cases)
  case (admit c i buf)
  with push_exact_admit [OF push_exact_cleanup [OF assms(2,3)]] show ?thesis by simp
next
  case turn_away
  with push_exact_cleanup [OF assms(2,3)] show ?thesis by simp
next
  case leave
  with assms(3) show ?thesis by (simp add: push_exact_def)
next
  case destroy
  with push_exact_cleanup [OF assms(2,3)] show ?thesis by (simp add: push_exact_def)
next
  case (work k t t' s')
  with assms(4) have "\<not> (pt_pc t' = Ended \<and> pt_pc t \<noteq> At_Close)" by auto
  with push_exact_work [OF assms(2,3)] work show ?thesis by blast
next
  case (pusher p s')
  note frame = pusher_step_frame [OF pusher(5)]
  have "p \<noteq> Pu_Halted (UB u)" for u
  proof (cases "\<exists>cnt c cs. ps_pusher S = Pu_Pushing cnt (c # cs)")
    case True
    then obtain cnt c cs where p: "ps_pusher S = Pu_Pushing cnt (c # cs)" by blast
    have "c \<in> set (map pt_conn (ps_workers S))"
      using push_okD(6) [OF assms(2) p] assms(3) by (fastforce simp: push_exact_def)
    then obtain i where i: "hub_conns (ps_hub S) c = Some i"
      using push_okD(2) [OF assms(2)] by (metis domD)
    obtain r i' where run: "send cnt i = (r, i')" by fastforce
    with assms(5) [of cnt i] have "\<forall>u. r \<noteq> Inl (UB u)" by simp
    with pusher(5) show ?thesis
      by (auto simp: p pusher_step_def on_conn_run [where m = "send cnt", OF i run] split: sum.splits stop.splits)
  next
    case False
    with pusher(4,5) show ?thesis
      by (auto simp: pusher_step_def pusher_over_def split: pusher_pc.splits list.splits if_splits)
  qed
  with assms(3) frame(1) show ?thesis
    unfolding pusher(2) by (simp add: push_exact_def)
next
  case (signal n)
  with assms(3) show ?thesis by (simp add: push_exact_def)
qed

lemma push_exact_start [simp]: "push_exact push_start"
  by (simp add: push_exact_def push_start_def)

lemma push_exact_run:
  assumes "push_run send max_clients S labs S'" and "push_ok S" and "push_exact S" and "\<forall>k. Fails k \<notin> set labs"
    and "\<And>n i u. fst (send n i) \<noteq> Inl (UB u)"
  shows "push_exact S'"
  using assms(1-4)
proof (induction rule: push_run.induct)
  case (step S labs S' lab S'')
  from push_ok_run [OF step(1) step(4)] step(2,3,4-6) show ?case
    by (intro push_exact_step [OF step(2) _ _ _ assms(5)]) auto
qed

lemma conn_send_defined: "fst (conn_send b i) \<noteq> Inl (UB u)"
proof -
  have loop: "fst (send_loop sock_write fuel cl b k s) \<noteq> Inl (UB u)" for fuel cl k and s :: "'a io"
  proof (induction fuel arbitrary: k s)
    case (Suc fuel)
    then show ?case
      by (auto simp: bindA_app sock_write_def Let_def split: prod.split sum.split list.split send_answer.split)
  qed simp
  from loop [of "Suc (length (io_sends i))" "io_closed i" 0 i] show ?thesis
    by (simp add: conn_send_def del: send_loop.simps)
qed

lemma tcp_push_send_defined: "fst (tcp_push_send n i) \<noteq> Inl (UB u)"
  using conn_send_defined [of "counter_message n" i u]
  by (auto simp: tcp_push_send_def thenA_app split: prod.splits sum.splits)

section \<open>Executing the steps\<close>

definition push_work :: "nat \<Rightarrow> 'u push_system \<Rightarrow> (bool \<times> 'u push_system) option" where
  "push_work k S =
     (if k < length (ps_workers S)
      then let t = ps_workers S ! k in
        if pt_pc t \<in> {At_Connect, In_Loop, At_Disconnect, At_Close}
           \<and> (pt_pc t \<in> {At_Connect, At_Disconnect} \<longrightarrow> mutex_free S)
        then (case push_thread_step t (ps_hub S) of (t', s') \<Rightarrow>
          Some (pt_pc t' = Ended \<and> pt_pc t \<noteq> At_Close, S\<lparr>ps_workers := (ps_workers S)[k := t'], ps_hub := s'\<rparr>))
        else None
      else None)"

definition push_do ::
  "(nat \<Rightarrow> ('u io, unit) act) \<Rightarrow> nat \<Rightarrow> 'u push_label \<Rightarrow> 'u push_system \<Rightarrow> 'u push_system option"
where
  "push_do send max_clients lab S =
     (if \<not> ps_alive S then None
      else case lab of
        Admit c i buf \<Rightarrow>
          (let S' = push_cleanup S in
           if accepting S \<and> length (ps_workers S') < max_clients \<and> hub_conns (ps_hub S') c = None
           then Some (push_admit c i buf S') else None)
      | Turn_Away \<Rightarrow>
          (let S' = push_cleanup S in
           if accepting S \<and> \<not> length (ps_workers S') < max_clients then Some S' else None)
      | Leave \<Rightarrow> (if ps_server S = Push_Serving \<and> quitting S then Some (S\<lparr>ps_server := Push_Joining\<rparr>) else None)
      | Destroy \<Rightarrow>
          (if ps_server S = Push_Joining \<and> (\<forall>t \<in> set (ps_workers S). pt_pc t = Ended)
           then Some ((push_cleanup S)\<lparr>ps_server := Push_Returned\<rparr>) else None)
      | Works k \<Rightarrow> (case push_work k S of Some (False, S') \<Rightarrow> Some S' | _ \<Rightarrow> None)
      | Fails k \<Rightarrow> (case push_work k S of Some (True, S') \<Rightarrow> Some S' | _ \<Rightarrow> None)
      | Pushes \<Rightarrow>
          (if pusher_over (ps_pusher S) then None
           else case pusher_step send (ps_pusher S) (ps_hub S) of (p, s') \<Rightarrow> Some (S\<lparr>ps_pusher := p, ps_hub := s'\<rparr>))
      | Signal n \<Rightarrow>
          (if n \<noteq> NO_SIGNAL then Some (S\<lparr>ps_hub := (ps_hub S)\<lparr>hub_signalStatus := n\<rparr>\<rparr>) else None))"

text \<open>The function and the relation are the same.\<close>

lemma push_work_step:
  assumes "push_work k S = Some (f, S')" and "ps_alive S"
  shows "push_step send max_clients S (if f then Fails k else Works k) S'"
proof -
  let ?t = "ps_workers S ! k"
  obtain t' s' where step: "push_thread_step ?t (ps_hub S) = (t', s')" by fastforce
  from assms(1) have *: "k < length (ps_workers S)" "pt_pc ?t \<in> {At_Connect, In_Loop, At_Disconnect, At_Close}"
    "pt_pc ?t \<in> {At_Connect, At_Disconnect} \<longrightarrow> mutex_free S" "f = (pt_pc t' = Ended \<and> pt_pc ?t \<noteq> At_Close)"
    "S' = S\<lparr>ps_workers := (ps_workers S)[k := t'], ps_hub := s'\<rparr>"
    unfolding push_work_def Let_def step prod.case by (auto split: if_split_asm)
  from push_step.work [OF assms(2) *(1) refl *(2,3) step] show ?thesis
    unfolding *(4,5) .
qed

lemma push_do_step:
  assumes "push_do send max_clients lab S = Some S'"
  shows "push_step send max_clients S lab S'"
proof (cases lab)
  case (Admit c i buf)
  with assms show ?thesis
    by (auto simp: push_do_def Let_def intro: push_step.admit split: if_splits)
next
  case (Works k)
  with assms push_work_step [of k S False S'] show ?thesis
    by (auto simp: push_do_def split: if_splits option.splits bool.splits prod.splits)
next
  case (Fails k)
  with assms push_work_step [of k S True S'] show ?thesis
    by (auto simp: push_do_def split: if_splits option.splits bool.splits prod.splits)
qed (use assms in \<open>auto simp: push_do_def Let_def intro: push_step.intros split: if_splits prod.splits\<close>)

lemma step_push_do: "push_step send max_clients S lab S' \<Longrightarrow> push_do send max_clients lab S = Some S'"
  by (induction rule: push_step.induct) (auto simp: push_do_def push_work_def Let_def)

lemma push_step_iff_do: "push_step send max_clients S lab S' \<longleftrightarrow> push_do send max_clients lab S = Some S'"
  using push_do_step step_push_do by blast

fun push_exec ::
  "(nat \<Rightarrow> ('u io, unit) act) \<Rightarrow> nat \<Rightarrow> 'u push_label list \<Rightarrow> 'u push_system \<Rightarrow> 'u push_system option"
where
  "push_exec send max_clients [] S = Some S"
| "push_exec send max_clients (lab # labs) S =
     (case push_do send max_clients lab S of None \<Rightarrow> None | Some S' \<Rightarrow> push_exec send max_clients labs S')"

lemma push_run_append:
  "push_run send max_clients S' labs' S'' \<Longrightarrow> push_run send max_clients S labs S' \<Longrightarrow>
   push_run send max_clients S (labs @ labs') S''"
proof (induction rule: push_run.induct)
  case (step S0 labs' S' lab S'')
  then show ?case using push_run.step [of send max_clients S "labs @ labs'" S' lab S''] by simp
qed simp

lemma push_exec_run: "push_exec send max_clients labs S = Some S' \<Longrightarrow> push_run send max_clients S labs S'"
proof (induction labs arbitrary: S)
  case Nil
  then show ?case by (simp add: push_run.stop)
next
  case (Cons lab labs)
  then obtain S1 where "push_do send max_clients lab S = Some S1" "push_exec send max_clients labs S1 = Some S'"
    by (auto split: option.splits)
  with Cons.IH push_do_step push_run.step [OF push_run.stop] have
    "push_run send max_clients S ([] @ [lab]) S1" "push_run send max_clients S1 labs S'" by blast+
  from push_run_append [OF this(2,1)] show ?case by simp
qed

section \<open>Shutdown\<close>

text \<open>How many steps the threads have left once the quit condition holds.\<close>

definition pt_left :: "push_thread \<Rightarrow> nat" where
  "pt_left t = (case pt_pc t of At_Connect \<Rightarrow> 4 | In_Loop \<Rightarrow> 3 | At_Disconnect \<Rightarrow> 2 | At_Close \<Rightarrow> 1 | _ \<Rightarrow> 0)"

definition pusher_left :: "pusher_pc \<Rightarrow> nat" where
  "pusher_left p = (case p of Pu_Check _ \<Rightarrow> 1 | Pu_Pushing _ cs \<Rightarrow> length cs + 2 | _ \<Rightarrow> 0)"

definition server_left :: "push_server_pc \<Rightarrow> nat" where
  "server_left p = (case p of Push_Serving \<Rightarrow> 2 | Push_Joining \<Rightarrow> 1 | Push_Returned \<Rightarrow> 0)"

definition push_left :: "'u push_system \<Rightarrow> nat" where
  "push_left S = sum_list (map pt_left (ps_workers S)) + pusher_left (ps_pusher S) + server_left (ps_server S)"

lemma push_left_bound:
  assumes "push_ok S"
  shows "push_left S \<le> 4 * length (ps_workers S) + length (hub_elements (ps_hub S)) + 4"
proof -
  have "pusher_left (ps_pusher S) \<le> length (hub_elements (ps_hub S)) + 2"
    using push_okD(6) [OF assms] by (cases "ps_pusher S") (fastforce simp: pusher_left_def)+
  moreover have "sum_list (map pt_left ts) \<le> 4 * length ts" for ts
    by (induction ts) (auto simp: pt_left_def split: pc.split)
  moreover have "server_left p \<le> 2" for p
    by (simp add: server_left_def split: push_server_pc.split)
  ultimately have "push_left S \<le> 4 * length (ps_workers S) + (length (hub_elements (ps_hub S)) + 2) + 2"
    unfolding push_left_def by (intro add_mono)
  then show ?thesis by simp
qed

lemma loop_step_quits:
  assumes "pt_pc t = In_Loop" and "hub_signalStatus s \<noteq> NO_SIGNAL" and "pt_conn t \<in> dom (hub_conns s)"
    and "push_thread_step t s = (t', s')"
  shows "pt_pc t' = At_Disconnect"
proof -
  obtain i where "hub_conns s (pt_conn t) = Some i" using assms(3) by auto
  with assms(1,2,4) show ?thesis
    by (auto simp: push_thread_step_def Let_def pt_do_def push_own_def on_conn_def at_conn_def loop_iter_def
        bindA_app on_io_app quitCondition_def sigHandler_def)
qed

lemma sum_list_update_less:
  assumes "k < length xs" and "f x < f (xs ! k)"
  shows "sum_list (map f (xs[k := x])) < (sum_list (map f xs) :: nat)"
proof -
  have "sum_list (map f xs) = sum_list (map f (take k xs)) + f (xs ! k) + sum_list (map f (drop (Suc k) xs))"
    by (subst id_take_nth_drop [OF assms(1)]) simp
  with assms show ?thesis
    by (simp add: upd_conv_take_nth_drop)
qed

lemma push_step_left:
  assumes "push_step send max_clients S lab S'" and "push_ok S" and "quitting S" and "\<forall>n. lab \<noteq> Signal n"
  shows "push_left S' < push_left S \<and> quitting S'"
  using assms(1)
proof (cases rule: push_step.cases)
  case leave
  with assms(3) show ?thesis by (simp add: push_left_def server_left_def quitting_def)
next
  case destroy
  have "sum_list (map pt_left (ps_workers (push_cleanup S))) \<le> sum_list (map pt_left (ps_workers S))"
    unfolding push_cleanup_def Let_def by (simp add: sum_list_filter_le_nat)
  with destroy assms(3) show ?thesis
    by (simp add: push_left_def server_left_def quitting_def push_cleanup_def Let_def)
next
  case (work k t t' s')
  have mem: "t \<in> set (ps_workers S)" using work(4,5) by simp
  have alive: "pt_conn t \<in> dom (hub_conns (ps_hub S))"
    using push_okD(2) [OF assms(2)] mem by simp
  note frame = push_thread_step_frame [OF work(8) alive push_okD(3) [OF assms(2) mem]]
  have loop: "pt_pc t = In_Loop \<Longrightarrow> pt_pc t' = At_Disconnect"
    using loop_step_quits [OF _ _ alive work(8)] assms(3) by (simp add: quitting_def)
  have "pt_left t' < pt_left t"
    using work(6) loop frame(6,7,9) by (auto simp: pt_left_def)
  then have "sum_list (map pt_left ((ps_workers S)[k := t'])) < sum_list (map pt_left (ps_workers S))"
    using work(4,5) by (intro sum_list_update_less) simp_all
  with frame(3) assms(3) show ?thesis
    by (simp add: work(2) push_left_def quitting_def)
next
  case (pusher p s')
  have "pusher_left p < pusher_left (ps_pusher S)"
    using pusher(4,5) assms(3)
    by (auto simp: pusher_step_def pusher_left_def pusher_over_def quitting_def
        split: pusher_pc.splits list.splits prod.splits sum.splits stop.splits if_splits)
  with pusher_step_frame(2) [OF pusher(5)] assms(3) show ?thesis
    by (simp add: pusher(2) push_left_def quitting_def)
qed (use assms(3,4) in \<open>simp_all add: accepting_def\<close>)

text \<open>Where nothing can move any more, everything is over or a thread is stuck in the system.\<close>

lemma push_progress:
  assumes "push_ok S" and "quitting S" and "\<forall>lab S'. push_step send max_clients S lab S' \<longrightarrow> (\<exists>n. lab = Signal n)"
    and "\<forall>e. ps_pusher S \<noteq> Pu_Halted e" and "\<forall>t \<in> set (ps_workers S). \<forall>e. pt_pc t \<noteq> Halted e"
  shows "ps_server S = Push_Returned \<and> ps_pusher S = Pu_Ended \<and> ps_workers S = []"
proof -
  have alive: "ps_alive S"
    using assms(4) by (auto simp: ps_alive_def split: pusher_pc.split)
  have pusher: "ps_pusher S = Pu_Ended"
  proof (rule ccontr)
    assume "ps_pusher S \<noteq> Pu_Ended"
    with assms(4) have "\<not> pusher_over (ps_pusher S)" by (simp add: pusher_over_def split: pusher_pc.split)
    with alive push_step.pusher [of S send] assms(3) show False by (metis surj_pair push_label.distinct(55))
  qed
  then have free: "mutex_free S" by (simp add: mutex_free_def)
  have ended: "\<forall>t \<in> set (ps_workers S). pt_pc t = Ended"
  proof
    fix t assume "t \<in> set (ps_workers S)"
    then obtain k where k: "k < length (ps_workers S)" "t = ps_workers S ! k" by (metis in_set_conv_nth)
    obtain t' s' where step: "push_thread_step t (ps_hub S) = (t', s')" by (metis surj_pair)
    show "pt_pc t = Ended"
    proof (rule ccontr)
      assume "pt_pc t \<noteq> Ended"
      with assms(5) \<open>t \<in> set (ps_workers S)\<close> have "pt_pc t \<in> {At_Connect, In_Loop, At_Disconnect, At_Close}"
        by (cases "pt_pc t") auto
      from push_step.work [OF alive k this _ step, of send max_clients] free assms(3) show False
        by (auto split: if_splits)
    qed
  qed
  have "ps_server S \<noteq> Push_Serving"
    using push_step.leave [OF alive _ assms(2), of send max_clients] assms(3) by auto
  moreover have "ps_server S \<noteq> Push_Joining"
    using push_step.destroy [OF alive _ ended, of send max_clients] assms(3) by auto
  ultimately have "ps_server S = Push_Returned" by (cases "ps_server S") simp_all
  with pusher push_okD(7) [OF assms(1)] show ?thesis by simp
qed

lemma push_run_left:
  "push_run send max_clients S labs S' \<Longrightarrow> push_ok S \<Longrightarrow> quitting S \<Longrightarrow> \<forall>n. Signal n \<notin> set labs \<Longrightarrow>
   length labs + push_left S' \<le> push_left S \<and> quitting S'"
proof (induction rule: push_run.induct)
  case (step S labs S' lab S'')
  from push_step_left [OF step(2) push_ok_run [OF step(1,4)]] step show ?case by fastforce
qed simp

section \<open>Properties\<close>

text \<open>The client that goes on sending and receiving nothing, and the one that resets the connection.\<close>

abbreviation quiet_client :: "unit io" where
  "quiet_client \<equiv> io_start (replicate 8 (Sent 100)) [] [Poll_Timeout] ()"

abbreviation resetting_client :: "unit io" where
  "resetting_client \<equiv> io_start [Send_Failed (E_OTHER 32)] [Recv_Failed (E_OTHER 104)] [Poll_Ready 1] ()"

text \<open>C16. In any interleaving of the pusher, the workers, the server's thread and signals in which no worker is
  ended by an exception, the manager holds exactly the connections whose workers are between \<^verbatim>\<open>onConnect\<close> and
  \<^verbatim>\<open>onDisconnect\<close>, each once; all of them are alive; and the pusher never follows a dangling pointer.\<close>

theorem push_manager_exact:
  assumes "push_run tcp_push_send max_clients push_start labs S" and "\<forall>k. Fails k \<notin> set labs"
  shows "set (hub_elements (ps_hub S)) = pt_conn ` {t \<in> set (ps_workers S). registered t}
    \<and> distinct (hub_elements (ps_hub S)) \<and> distinct (map pt_conn (ps_workers S))
    \<and> (\<forall>c \<in> set (hub_elements (ps_hub S)). hub_conns (ps_hub S) c \<noteq> None)
    \<and> ps_pusher S \<noteq> Pu_Halted (UB Dangling_Pointer)"
proof -
  have ok: "push_ok S" by (rule push_ok_run [OF assms(1) push_ok_start])
  have exact: "push_exact S"
    by (rule push_exact_run [OF assms(1) push_ok_start push_exact_start assms(2) tcp_push_send_defined])
  then have elems: "set (hub_elements (ps_hub S)) = pt_conn ` {t \<in> set (ps_workers S). registered t}"
    by (simp add: push_exact_def)
  then have "set (hub_elements (ps_hub S)) \<subseteq> dom (hub_conns (ps_hub S))"
    using push_okD(2) [OF ok] by auto
  with elems exact push_okD(1,5) [OF ok] show ?thesis
    by (auto simp: push_exact_def)
qed

theorem push_manager_exact_witness:
  "\<exists>S. push_run tcp_push_send 2 push_start [Admit 1 quiet_client [], Works 0, Pushes, Admit 2 quiet_client [], Pushes] S
    \<and> set (hub_elements (ps_hub S)) = pt_conn ` {t \<in> set (ps_workers S). registered t}
    \<and> length (ps_workers S) = 2 \<and> hub_elements (ps_hub S) = [1]"
proof -
  let ?labs = "[Admit 1 quiet_client [], Works 0, Pushes, Admit 2 quiet_client [], Pushes]"
  have "map_option (\<lambda>S. (length (ps_workers S), hub_elements (ps_hub S))) (push_exec tcp_push_send 2 ?labs push_start) =
      Some (2, [1])"
    by code_simp
  then obtain S where S: "push_exec tcp_push_send 2 ?labs push_start = Some S"
    "length (ps_workers S) = 2" "hub_elements (ps_hub S) = [1]" by auto
  from push_manager_exact [OF push_exec_run [OF S(1)]] S push_exec_run [OF S(1)] show ?thesis by auto
qed

text \<open>One client can end the server for all. If a worker is ended by an exception of its socket, its
  connection stays in the manager when the next \<^verbatim>\<open>cleanup\<close> destroys it, and the pusher follows the dangling
  pointer; and if the exception meets the pusher first, it leaves the thread's function, which ends the process.\<close>

theorem push_client_ends_server:
  "(\<exists>S. push_run tcp_push_send 2 push_start
      [Admit 1 resetting_client (replicate MAX_SIZE 0), Works 0, Fails 0, Admit 2 quiet_client [], Pushes, Pushes] S
    \<and> ps_pusher S = Pu_Halted (UB Dangling_Pointer))
   \<and> (\<exists>S. push_run tcp_push_send 2 push_start
      [Admit 1 resetting_client (replicate MAX_SIZE 0), Works 0, Pushes, Pushes] S \<and> ps_pusher S = Pu_Halted Terminate)"
proof -
  have run: "\<exists>S. push_run tcp_push_send 2 push_start labs S \<and> ps_pusher S = p"
    if "map_option ps_pusher (push_exec tcp_push_send 2 labs push_start) = Some p"
    for labs :: "unit push_label list" and p
    using that push_exec_run by fastforce
  show ?thesis
    by (intro conjI run) code_simp+
qed

text \<open>C17. Shutdown: from the moment a signal has come, the threads of the server can make at most four steps for
  each worker, one for each connection in the manager, and four more, whatever the order; and when none
  can move, \<^verbatim>\<open>serve\<close> has returned, the pusher has ended and every worker is destroyed, unless a
  thread is stuck for good in a call of the kernel or the process has been ended.\<close>

theorem push_shutdown:
  assumes "push_run send max_clients push_start labs S" and "hub_signalStatus (ps_hub S) \<noteq> NO_SIGNAL"
    and "push_run send max_clients S labs' S'" and "\<forall>n. Signal n \<notin> set labs'"
  shows "length labs' \<le> 4 * length (ps_workers S) + length (hub_elements (ps_hub S)) + 4
    \<and> ((\<forall>lab S''. push_step send max_clients S' lab S'' \<longrightarrow> (\<exists>n. lab = Signal n))
        \<and> (\<forall>e. ps_pusher S' \<noteq> Pu_Halted e) \<and> (\<forall>t \<in> set (ps_workers S'). \<forall>e. pt_pc t \<noteq> Halted e)
      \<longrightarrow> ps_server S' = Push_Returned \<and> ps_pusher S' = Pu_Ended \<and> ps_workers S' = [])"
proof -
  have ok: "push_ok S" by (rule push_ok_run [OF assms(1) push_ok_start])
  have left: "length labs' + push_left S' \<le> push_left S" and quit: "quitting S'"
    using push_run_left [OF assms(3) ok _ assms(4)] assms(2) by (simp_all add: quitting_def)
  have "length labs' \<le> 4 * length (ps_workers S) + length (hub_elements (ps_hub S)) + 4"
    using left push_left_bound [OF ok] by linarith
  with push_progress [OF push_ok_run [OF assms(3) ok] quit] show ?thesis by blast
qed

theorem push_shutdown_witness:
  "\<exists>S S'. push_run tcp_push_send 2 push_start [Admit 1 quiet_client [], Works 0, Pushes, Signal 15] S
    \<and> push_run tcp_push_send 2 S [Pushes, Works 0, Pushes, Pushes, Leave, Works 0, Works 0, Destroy] S'
    \<and> ps_pusher S' = Pu_Ended \<and> ps_workers S' = []
    \<and> length [Pushes, Works 0, Pushes, Pushes, Leave, Works 0, Works 0, Destroy :: unit push_label]
        \<le> 4 * length (ps_workers S) + length (hub_elements (ps_hub S)) + 4"
proof -
  let ?a = "[Admit 1 quiet_client [], Works 0, Pushes, Signal 15]"
  let ?b = "[Pushes, Works 0, Pushes, Pushes, Leave, Works 0, Works 0, Destroy] :: unit push_label list"
  have "map_option (\<lambda>S. (hub_signalStatus (ps_hub S),
      map_option (\<lambda>S'. (ps_pusher S', ps_workers S')) (push_exec tcp_push_send 2 ?b S)))
    (push_exec tcp_push_send 2 ?a push_start) = Some (15, Some (Pu_Ended, []))"
    by code_simp
  then obtain S S' where S: "push_exec tcp_push_send 2 ?a push_start = Some S" "hub_signalStatus (ps_hub S) = 15"
    and S': "push_exec tcp_push_send 2 ?b S = Some S'" "ps_pusher S' = Pu_Ended" "ps_workers S' = []" by auto
  note runs = push_exec_run [OF S(1)] push_exec_run [OF S'(1)]
  have "hub_signalStatus (ps_hub S) \<noteq> NO_SIGNAL" by (simp add: S(2) NO_SIGNAL_def)
  from push_shutdown [OF runs(1) this runs(2)] runs S'(2,3) show ?thesis by auto
qed

end
