(* ===== verification/Push_Failure.thy ===== *)
theory Push_Failure
  imports Push_System
begin

text \<open>
  What one worker that is ended by an exception does to the TCP push server, in every run: its connection stays in
  the manager, the next client makes \<^verbatim>\<open>cleanup\<close> destroy it, and the pusher cannot get past it.
\<close>

section \<open>A stale connection\<close>

text \<open>In every run, failures included, a registered worker's connection is in the manager.\<close>

definition push_listed :: "'u push_system \<Rightarrow> bool" where
  "push_listed S \<longleftrightarrow> (\<forall>t \<in> set (ps_workers S). registered t \<longrightarrow> pt_conn t \<in> set (hub_elements (ps_hub S)))"

text \<open>The manager holds \<open>c\<close>, and no worker will take it out.\<close>

definition stale :: "nat \<Rightarrow> 'u push_system \<Rightarrow> bool" where
  "stale c S \<longleftrightarrow> c \<in> set (hub_elements (ps_hub S)) \<and> (\<forall>t \<in> set (ps_workers S). pt_conn t = c \<longrightarrow> pt_pc t = Ended)"

lemma list_update_keyed:
  assumes "distinct (map f xs)" and "k < length xs" and "f x = f (xs ! k)" and "y \<in> set (xs[k := x])"
  shows "y = x \<or> y \<in> set xs \<and> f y \<noteq> f x"
proof -
  obtain j where j: "j < length xs" "y = xs[k := x] ! j"
    using assms(4) by (metis in_set_conv_nth length_list_update)
  show ?thesis
  proof (cases "j = k")
    case False
    then have "map f xs ! j \<noteq> map f xs ! k"
      using j(1) assms(1,2) by (metis distinct_conv_nth length_map)
    with j False assms(2,3) show ?thesis by simp
  qed (use j in simp)
qed

lemma elements_after_step:
  assumes "push_ok S" and "k < length (ps_workers S)" and "t = ps_workers S ! k"
    and "push_thread_step t (ps_hub S) = (t', s')"
  shows "pt_conn t' = pt_conn t" and "dom (hub_conns s') = dom (hub_conns (ps_hub S))"
    and "d \<noteq> pt_conn t \<or> pt_pc t \<noteq> At_Disconnect \<Longrightarrow> d \<in> set (hub_elements (ps_hub S)) \<Longrightarrow> d \<in> set (hub_elements s')"
    and "pt_pc t = At_Connect \<Longrightarrow> pt_conn t \<in> set (hub_elements s')"
    and "registered t' \<Longrightarrow> registered t \<and> pt_pc t \<noteq> At_Disconnect \<or> pt_pc t = At_Connect"
proof -
  have mem: "t \<in> set (ps_workers S)" using assms(2,3) by simp
  have alive: "pt_conn t \<in> dom (hub_conns (ps_hub S))"
    using push_okD(2) [OF assms(1)] mem by simp
  note frame = push_thread_step_frame [OF assms(4) alive push_okD(3) [OF assms(1) mem]]
  show "pt_conn t' = pt_conn t" "dom (hub_conns s') = dom (hub_conns (ps_hub S))" by (rule frame)+
  show "d \<noteq> pt_conn t \<or> pt_pc t \<noteq> At_Disconnect \<Longrightarrow> d \<in> set (hub_elements (ps_hub S)) \<Longrightarrow> d \<in> set (hub_elements s')"
    unfolding frame(5) by (cases "pt_pc t") (auto simp: set_insort_insert)
  show "pt_pc t = At_Connect \<Longrightarrow> pt_conn t \<in> set (hub_elements s')"
    by (simp add: frame(5) set_insort_insert)
  show "registered t' \<Longrightarrow> registered t \<and> pt_pc t \<noteq> At_Disconnect \<or> pt_pc t = At_Connect"
    using frame(7,9) assms(4) by (cases "pt_pc t") (auto simp: registered_def push_thread_step_def Let_def)
qed

lemma push_listed_step:
  assumes "push_step send max_clients S lab S'" and "push_ok S" and "push_listed S"
  shows "push_listed S'"
  using assms(1)
proof (cases rule: push_step.cases)
  case (work k t t' s')
  note step = elements_after_step [OF assms(2) work(4,5,8)]
  have mem: "t \<in> set (ps_workers S)" using work(4,5) by simp
  have "pt_conn u \<in> set (hub_elements s')" if "u \<in> set ((ps_workers S)[k := t'])" "registered u" for u
  proof -
    from list_update_keyed [OF push_okD(1) [OF assms(2)] work(4) _ that(1)] step(1) work(5)
    have "u = t' \<or> u \<in> set (ps_workers S) \<and> pt_conn u \<noteq> pt_conn t" by simp
    then show ?thesis
    proof
      assume "u = t'"
      with that(2) show ?thesis
        using step(1,4) step(3) [of "pt_conn t"] step(5) assms(3) mem by (auto simp: push_listed_def)
    next
      assume "u \<in> set (ps_workers S) \<and> pt_conn u \<noteq> pt_conn t"
      with that(2) show ?thesis
        using step(3) [of "pt_conn u"] assms(3) by (simp add: push_listed_def)
    qed
  qed
  then show ?thesis
    unfolding work(2) push_listed_def by simp
next
  case (pusher p s')
  with assms(3) pusher_step_frame(1) [OF pusher(5)] show ?thesis by (simp add: push_listed_def)
qed (use assms(3) in \<open>auto simp: push_listed_def push_cleanup_def Let_def push_admit_def registered_def\<close>)

lemma push_listed_run:
  "push_run send max_clients S labs S' \<Longrightarrow> push_ok S \<Longrightarrow> push_listed S \<Longrightarrow> push_listed S'"
  by (induction rule: push_run.induct) (auto intro: push_listed_step push_ok_run)

lemma push_listed_start: "push_listed push_start"
  by (simp add: push_listed_def push_start_def)

text \<open>A worker that fails leaves its connection stale.\<close>

lemma failure_stale:
  assumes "push_step send max_clients S (Fails k) S'" and "push_ok S" and "push_listed S"
  shows "stale (pt_conn (ps_workers S ! k)) S'"
  using assms(1)
proof (cases rule: push_step.cases)
  case (work j t t' s')
  then have j: "j = k" "pt_pc t' = Ended" "pt_pc t \<noteq> At_Close" by (auto split: if_splits)
  note step = elements_after_step [OF assms(2) work(4,5,8)]
  have mem: "t \<in> set (ps_workers S)" using work(4,5) by simp
  have alive: "pt_conn t \<in> dom (hub_conns (ps_hub S))"
    using push_okD(2) [OF assms(2)] mem by simp
  note frame = push_thread_step_frame [OF work(8) alive push_okD(3) [OF assms(2) mem]]
  have "pt_pc t = In_Loop" using frame(6,7) j work(6) by auto
  then have "pt_conn t \<in> set (hub_elements s')"
    using step(3) [of "pt_conn t"] assms(3) mem by (simp add: push_listed_def registered_def)
  moreover have "pt_pc u = Ended" if "u \<in> set ((ps_workers S)[k := t'])" "pt_conn u = pt_conn t" for u
    using list_update_keyed [OF push_okD(1) [OF assms(2)] _ _ that(1)] work(4,5) j(1,2) step(1) that(2) by auto
  ultimately show ?thesis
    using work(2,5) j(1) by (simp add: stale_def)
qed

lemma stale_step:
  assumes "push_step send max_clients S lab S'" and "push_ok S" and "stale c S" and "\<forall>i buf. lab \<noteq> Admit c i buf"
  shows "stale c S'"
  using assms(1)
proof (cases rule: push_step.cases)
  case (work k t t' s')
  have mem: "t \<in> set (ps_workers S)" using work(4,5) by simp
  then have "pt_conn t \<noteq> c" using assms(3) work(6) by (auto simp: stale_def)
  with elements_after_step [OF assms(2) work(4,5,8)] assms(3) have "c \<in> set (hub_elements s')" "pt_conn t' \<noteq> c"
    by (auto simp: stale_def)
  with assms(3) set_update_subset_insert [of "ps_workers S" k t'] show ?thesis
    unfolding work(2) stale_def by fastforce
next
  case (pusher p s')
  with assms(3) pusher_step_frame(1) [OF pusher(5)] show ?thesis by (simp add: stale_def)
qed (use assms(3,4) in \<open>auto simp: stale_def push_cleanup_def Let_def push_admit_def\<close>)

lemma stale_run:
  "push_run send max_clients S labs S' \<Longrightarrow> push_ok S \<Longrightarrow> stale c S \<Longrightarrow> \<forall>i buf. Admit c i buf \<notin> set labs \<Longrightarrow> stale c S'"
  by (induction rule: push_run.induct) (auto intro: stale_step push_ok_run)

section \<open>A dangling pointer\<close>

text \<open>The next client makes \<^verbatim>\<open>cleanup\<close> destroy the connection, and it stays so while no new one gets its address.\<close>

definition dangling :: "nat \<Rightarrow> 'u push_system \<Rightarrow> bool" where
  "dangling c S \<longleftrightarrow> stale c S \<and> hub_conns (ps_hub S) c = None"

definition cleans :: "nat \<Rightarrow> 'u push_label \<Rightarrow> bool" where
  "cleans c lab \<longleftrightarrow> (case lab of Turn_Away \<Rightarrow> True | Admit d _ _ \<Rightarrow> d \<noteq> c | _ \<Rightarrow> False)"

lemma cleanup_dangling:
  assumes "push_step send max_clients S lab S'" and "push_ok S" and "stale c S" and "cleans c lab"
  shows "dangling c S'"
proof -
  have "\<forall>i buf. lab \<noteq> Admit c i buf" using assms(4) by (auto simp: cleans_def)
  with stale_step [OF assms(1-3)] have "stale c S'" .
  moreover have "hub_conns (ps_hub (push_cleanup S)) c = None"
    using assms(3) push_okD(3) [OF assms(2)] by (auto simp: push_cleanup_def Let_def stale_def restrict_map_def)
  ultimately have at: "stale c S'" "hub_conns (ps_hub (push_cleanup S)) c = None" by blast+
  from assms(1) show ?thesis
    by (cases rule: push_step.cases)
      (use at assms(4) in \<open>auto simp: dangling_def cleans_def push_admit_def split: if_splits\<close>)
qed

lemma dangling_step:
  assumes "push_step send max_clients S lab S'" and "push_ok S" and "dangling c S" and "\<forall>i buf. lab \<noteq> Admit c i buf"
  shows "dangling c S'"
proof -
  have stale: "stale c S'" using stale_step [OF assms(1,2) _ assms(4)] assms(3) by (simp add: dangling_def)
  have none: "c \<notin> dom (hub_conns (ps_hub S))" using assms(3) by (auto simp: dangling_def)
  from assms(1) have "c \<notin> dom (hub_conns (ps_hub S'))"
  proof (cases rule: push_step.cases)
    case (work k t t' s')
    with none elements_after_step(2) [OF assms(2) work(4,5,8)] show ?thesis by simp
  next
    case (pusher p s')
    with none pusher_step_frame(3) [OF pusher(5)] show ?thesis by simp
  qed (use none assms(4) in \<open>auto simp: push_cleanup_def Let_def push_admit_def\<close>)
  with stale show ?thesis by (auto simp: dangling_def)
qed

lemma dangling_run:
  "push_run send max_clients S labs S' \<Longrightarrow> push_ok S \<Longrightarrow> dangling c S \<Longrightarrow> \<forall>i buf. Admit c i buf \<notin> set labs \<Longrightarrow> dangling c S'"
  by (induction rule: push_run.induct) (auto intro: dangling_step push_ok_run)

text \<open>The pusher does not get past it: push \<open>n\<close> may be completed, the one after it is not.\<close>

definition push_number :: "pusher_pc \<Rightarrow> nat option" where
  "push_number p = (case p of Pu_Check cnt \<Rightarrow> Some cnt | Pu_Pushing cnt _ \<Rightarrow> Some cnt | _ \<Rightarrow> None)"

definition held_up :: "nat \<Rightarrow> nat \<Rightarrow> pusher_pc \<Rightarrow> bool" where
  "held_up c n p \<longleftrightarrow> (case p of
     Pu_Check cnt \<Rightarrow> cnt \<le> Suc n
   | Pu_Pushing cnt cs \<Rightarrow> cnt \<le> n \<or> cnt = Suc n \<and> c \<in> set cs
   | _ \<Rightarrow> True)"

lemma held_up_step:
  assumes "push_step send max_clients S lab S'" and "dangling c S" and "held_up c n (ps_pusher S)"
  shows "held_up c n (ps_pusher S')"
  using assms(1)
proof (cases rule: push_step.cases)
  case (pusher p s')
  have "hub_conns (ps_hub S) c = None" "c \<in> set (hub_elements (ps_hub S))"
    using assms(2) by (simp_all add: dangling_def stale_def)
  with pusher(2,5) assms(3) show ?thesis
    by (auto simp: pusher_step_def held_up_def on_conn_def at_conn_def
        split: pusher_pc.splits list.splits prod.splits sum.splits stop.splits if_splits option.splits)
qed (use assms(3) in \<open>auto simp: push_cleanup_def Let_def push_admit_def\<close>)

lemma held_up_run:
  "push_run send max_clients S labs S' \<Longrightarrow> push_ok S \<Longrightarrow> dangling c S \<Longrightarrow> \<forall>i buf. Admit c i buf \<notin> set labs \<Longrightarrow>
   held_up c n (ps_pusher S) \<Longrightarrow> held_up c n (ps_pusher S')"
  by (induction rule: push_run.induct) (auto intro: held_up_step dangling_run)

section \<open>The end of the pusher\<close>

definition pusher_halted :: "'u push_system \<Rightarrow> bool" where
  "pusher_halted S \<longleftrightarrow> (\<exists>e. ps_pusher S = Pu_Halted e)"

definition push_alone :: "(nat \<Rightarrow> ('u io, unit) act) \<Rightarrow> nat \<Rightarrow> 'u push_system \<Rightarrow> 'u push_system \<Rightarrow> bool" where
  "push_alone send max_clients S S' \<longleftrightarrow> (\<exists>j. push_run send max_clients S (replicate j Pushes) S')"

lemma push_alone_refl: "push_alone send max_clients S S"
  unfolding push_alone_def using push_run.stop [of send max_clients S] by (metis replicate_0)

lemma push_alone_step:
  assumes "ps_alive S" and "\<not> pusher_over (ps_pusher S)" and "pusher_step send (ps_pusher S) (ps_hub S) = (p, s')"
    and "push_alone send max_clients (S\<lparr>ps_pusher := p, ps_hub := s'\<rparr>) S'"
  shows "push_alone send max_clients S S'"
proof -
  let ?S = "S\<lparr>ps_pusher := p, ps_hub := s'\<rparr>"
  obtain j where run: "push_run send max_clients ?S (replicate j Pushes) S'"
    using assms(4) by (auto simp: push_alone_def)
  have "push_run send max_clients S ([] @ [Pushes]) ?S"
    by (rule push_run.step [OF push_run.stop push_step.pusher [OF assms(1-3)]])
  from push_run_append [OF run this] show ?thesis
    unfolding push_alone_def by (intro exI [of _ "Suc j"]) simp
qed

text \<open>A push that has started ends, or the pusher does, and with a dangling pointer before it the pusher does.\<close>

lemma push_round_ends:
  assumes "ps_pusher S = Pu_Pushing cnt cs" and "hub_conns (ps_hub S) c = None"
  shows "\<exists>S'. push_alone send max_clients S S' \<and> hub_conns (ps_hub S') c = None
    \<and> hub_elements (ps_hub S') = hub_elements (ps_hub S) \<and> hub_signalStatus (ps_hub S') = hub_signalStatus (ps_hub S)
    \<and> (pusher_halted S' \<or> c \<notin> set cs \<and> ps_pusher S' = Pu_Check (Suc cnt))"
  using assms
proof (induction cs arbitrary: S)
  case Nil
  let ?S = "S\<lparr>ps_pusher := Pu_Check (Suc cnt), ps_hub := ps_hub S\<rparr>"
  have "pusher_step send (ps_pusher S) (ps_hub S) = (Pu_Check (Suc cnt), ps_hub S)"
    by (simp add: pusher_step_def Nil(1))
  from push_alone_step [OF _ _ this push_alone_refl, of max_clients] Nil show ?case
    by (intro exI [of _ ?S]) (simp add: ps_alive_def pusher_over_def)
next
  case (Cons d cs)
  obtain p s' where step: "pusher_step send (ps_pusher S) (ps_hub S) = (p, s')" by fastforce
  note frame = pusher_step_frame [OF step]
  let ?S = "S\<lparr>ps_pusher := p, ps_hub := s'\<rparr>"
  have none: "hub_conns s' c = None" using frame(3) Cons.prems(2) by (metis domIff)
  have ready: "ps_alive S" "\<not> pusher_over (ps_pusher S)"
    by (simp_all add: ps_alive_def pusher_over_def Cons.prems(1))
  have "(\<exists>e. p = Pu_Halted e) \<or> d \<noteq> c \<and> p = Pu_Pushing cnt cs"
    using step Cons.prems
    by (auto simp: pusher_step_def on_conn_def at_conn_def split: prod.splits sum.splits stop.splits option.splits)
  then show ?case
  proof
    assume "\<exists>e. p = Pu_Halted e"
    with push_alone_step [OF ready step push_alone_refl, of max_clients] none frame(1,2) show ?thesis
      by (intro exI [of _ ?S]) (auto simp: pusher_halted_def)
  next
    assume p: "d \<noteq> c \<and> p = Pu_Pushing cnt cs"
    with Cons.IH [of ?S] none obtain S' where "push_alone send max_clients ?S S'" "hub_conns (ps_hub S') c = None"
      "hub_elements (ps_hub S') = hub_elements s'" "hub_signalStatus (ps_hub S') = hub_signalStatus s'"
      "pusher_halted S' \<or> c \<notin> set cs \<and> ps_pusher S' = Pu_Check (Suc cnt)" by auto
    with push_alone_step [OF ready step] p frame(1,2) show ?thesis
      by (intro exI [of _ S']) auto
  qed
qed

lemma push_alone_trans:
  assumes "push_alone send max_clients S S'" and "push_alone send max_clients S' S''"
  shows "push_alone send max_clients S S''"
proof -
  obtain j k where "push_run send max_clients S (replicate j Pushes) S'" "push_run send max_clients S' (replicate k Pushes) S''"
    using assms by (auto simp: push_alone_def)
  from push_run_append [OF this(2,1)] show ?thesis
    unfolding push_alone_def replicate_add [symmetric] by blast
qed

lemma dangling_pusher_halts:
  assumes "dangling c S" and "\<not> quitting S" and "ps_pusher S \<noteq> Pu_Ended"
  shows "\<exists>S'. push_alone send max_clients S S' \<and> pusher_halted S'"
proof -
  have from_check: "\<exists>S'. push_alone send max_clients T S' \<and> pusher_halted S'"
    if T: "ps_pusher T = Pu_Check cnt" "hub_conns (ps_hub T) c = None" "c \<in> set (hub_elements (ps_hub T))" "\<not> quitting T"
    for T :: "'a push_system" and cnt
  proof -
    let ?T = "T\<lparr>ps_pusher := Pu_Pushing cnt (hub_elements (ps_hub T)), ps_hub := ps_hub T\<rparr>"
    have step: "pusher_step send (ps_pusher T) (ps_hub T) = (Pu_Pushing cnt (hub_elements (ps_hub T)), ps_hub T)"
      using T(1,4) by (simp add: pusher_step_def quitting_def)
    from push_round_ends [of ?T cnt "hub_elements (ps_hub T)" c send max_clients] T(2,3)
    obtain S' where "push_alone send max_clients ?T S'" "pusher_halted S'" by auto
    with push_alone_step [OF _ _ step] T(1) show ?thesis
      by (auto simp: ps_alive_def pusher_over_def)
  qed
  have at: "hub_conns (ps_hub S) c = None" "c \<in> set (hub_elements (ps_hub S))"
    using assms(1) by (simp_all add: dangling_def stale_def)
  show ?thesis
  proof (cases "ps_pusher S")
    case (Pu_Check cnt)
    from from_check [OF this at assms(2)] show ?thesis .
  next
    case (Pu_Pushing cnt cs)
    from push_round_ends [OF this at(1)] obtain S' where S': "push_alone send max_clients S S'"
      "hub_conns (ps_hub S') c = None" "hub_elements (ps_hub S') = hub_elements (ps_hub S)"
      "hub_signalStatus (ps_hub S') = hub_signalStatus (ps_hub S)"
      "pusher_halted S' \<or> c \<notin> set cs \<and> ps_pusher S' = Pu_Check (Suc cnt)" by blast
    show ?thesis
    proof (cases "pusher_halted S'")
      case False
      with S' from_check [of S' "Suc cnt"] at(2) assms(2) obtain S'' where
        "push_alone send max_clients S' S''" "pusher_halted S''" by (auto simp: quitting_def)
      with push_alone_trans [OF S'(1)] show ?thesis by blast
    qed (use S'(1) in blast)
  next
    case (Pu_Halted e)
    then show ?thesis
      using push_alone_refl [of send max_clients S] by (auto simp: pusher_halted_def)
  qed (use assms(3) in simp)
qed

text \<open>The pusher ends by itself only after a signal.\<close>

lemma push_ended_step:
  assumes "push_step send max_clients S lab S'" and "push_ok S" and "ps_pusher S = Pu_Ended \<longrightarrow> quitting S"
  shows "ps_pusher S' = Pu_Ended \<longrightarrow> quitting S'"
  using assms(1)
proof (cases rule: push_step.cases)
  case (work k t t' s')
  have mem: "t \<in> set (ps_workers S)" using work(4,5) by simp
  then have alive: "pt_conn t \<in> dom (hub_conns (ps_hub S))" using push_okD(2) [OF assms(2)] by simp
  from push_thread_step_frame(3) [OF work(8) alive push_okD(3) [OF assms(2) mem]] work(2) assms(3) show ?thesis
    by (simp add: quitting_def)
next
  case (pusher p s')
  with pusher_step_frame(2) [OF pusher(5)] assms(3) show ?thesis
    by (auto simp: quitting_def pusher_step_def pusher_over_def
        split: pusher_pc.splits list.splits prod.splits sum.splits stop.splits if_splits)
qed (use assms(3) in \<open>auto simp: quitting_def push_cleanup_def Let_def push_admit_def\<close>)

lemma push_ended_run:
  "push_run send max_clients S labs S' \<Longrightarrow> push_ok S \<Longrightarrow> (ps_pusher S = Pu_Ended \<longrightarrow> quitting S) \<Longrightarrow>
   ps_pusher S' = Pu_Ended \<longrightarrow> quitting S'"
proof (induction rule: push_run.induct)
  case (step S labs S' lab S'')
  then show ?case using push_ended_step [OF step(2) push_ok_run [OF step(1,4)]] by blast
qed simp

section \<open>Properties\<close>

text \<open>C18. One client can end the server for all, in every run: when a worker has been ended by an exception, its
  connection stays in the manager; the next client, admitted or turned away, makes \<^verbatim>\<open>cleanup\<close> destroy it; from then on,
  while no new connection gets its address, the push in course is the last one that can be completed, and without a
  signal the pusher, left to itself, halts: it follows the dangling pointer or an exception leaves its function,
  either of which ends the process, or it is stuck in a send for good, holding the mutex.\<close>

theorem push_failure_fatal:
  assumes "push_run send max_clients push_start labs S" and "push_step send max_clients S (Fails k) S1"
    and "c = pt_conn (ps_workers S ! k)" and "push_run send max_clients S1 labs1 S2" and "push_step send max_clients S2 lab S3"
    and "cleans c lab" and "push_run send max_clients S3 labs2 S4"
    and "\<forall>i buf. Admit c i buf \<notin> set labs1 \<union> set labs2"
  shows "c \<in> set (hub_elements (ps_hub S4)) \<and> hub_conns (ps_hub S4) c = None
    \<and> (\<forall>n m. push_number (ps_pusher S3) = Some n \<and> push_number (ps_pusher S4) = Some m \<longrightarrow> m \<le> Suc n)
    \<and> (\<not> quitting S4 \<longrightarrow> (\<exists>S5 e. push_alone send max_clients S4 S5 \<and> ps_pusher S5 = Pu_Halted e))"
proof -
  have ok: "push_ok S" "push_listed S"
    by (rule push_ok_run [OF assms(1) push_ok_start], rule push_listed_run [OF assms(1) push_ok_start push_listed_start])
  have ok1: "push_ok S1" by (rule push_ok_step [OF assms(2) ok(1)])
  have ok2: "push_ok S2" by (rule push_ok_run [OF assms(4) ok1])
  have ok3: "push_ok S3" by (rule push_ok_step [OF assms(5) ok2])
  have "stale c S2"
    using stale_run [OF assms(4) ok1] failure_stale [OF assms(2) ok] assms(3,8) by simp
  then have three: "dangling c S3" using cleanup_dangling [OF assms(5) ok2 _ assms(6)] by simp
  have four: "dangling c S4" using dangling_run [OF assms(7) ok3 three] assms(8) by simp
  have "held_up c n (ps_pusher S4)" if "push_number (ps_pusher S3) = Some n" for n
  proof -
    have "held_up c n (ps_pusher S3)"
      using that by (auto simp: held_up_def push_number_def split: pusher_pc.splits)
    with held_up_run [OF assms(7) ok3 three] assms(8) show ?thesis by simp
  qed
  then have "\<forall>n m. push_number (ps_pusher S3) = Some n \<and> push_number (ps_pusher S4) = Some m \<longrightarrow> m \<le> Suc n"
    by (fastforce simp: held_up_def push_number_def split: pusher_pc.splits)
  moreover have "ps_pusher T = Pu_Ended \<longrightarrow> quitting T" if "push_run send max_clients push_start l T" for l T
    using push_ended_run [OF that push_ok_start] by (simp add: push_start_def)
  note this [OF push_run_append [OF assms(7) push_run.step [OF push_run_append [OF assms(4) push_run.step [OF assms(1,2)]] assms(5)]]]
  ultimately show ?thesis
    using four dangling_pusher_halts [OF four] by (auto simp: dangling_def stale_def pusher_halted_def)
qed

theorem push_failure_fatal_witness:
  "\<exists>S3 S4. push_run tcp_push_send 2 push_start
      [Admit 1 resetting_client [], Works 0, Fails 0, Admit 2 quiet_client []] S3
    \<and> push_run tcp_push_send 2 S3 [Pushes] S4
    \<and> hub_elements (ps_hub S4) = [1] \<and> hub_conns (ps_hub S4) 1 = None
    \<and> (\<exists>S5 e. push_alone tcp_push_send 2 S4 S5 \<and> ps_pusher S5 = Pu_Halted e)"
proof -
  let ?a = "[Admit 1 resetting_client [], Works 0]"
  have "map_option (\<lambda>S. (pt_conn (ps_workers S ! 0),
      map_option (\<lambda>S1. map_option (\<lambda>S3. map_option (\<lambda>S4. (quitting S4, hub_elements (ps_hub S4)))
          (push_exec tcp_push_send 2 [Pushes] S3))
        (push_do tcp_push_send 2 (Admit 2 quiet_client []) S1)) (push_do tcp_push_send 2 (Fails 0) S)))
    (push_exec tcp_push_send 2 ?a push_start) = Some (1, Some (Some (Some (False, [1]))))"
    by code_simp
  then obtain S S1 S3 S4 where S: "push_exec tcp_push_send 2 ?a push_start = Some S" "pt_conn (ps_workers S ! 0) = 1"
    and S1: "push_do tcp_push_send 2 (Fails 0) S = Some S1"
    and S3: "push_do tcp_push_send 2 (Admit 2 quiet_client []) S1 = Some S3"
    and S4: "push_exec tcp_push_send 2 [Pushes] S3 = Some S4" "\<not> quitting S4" "hub_elements (ps_hub S4) = [1]" by auto
  have "cleans 1 (Admit 2 quiet_client [])" "\<forall>i buf. Admit 1 i buf \<notin> set [] \<union> set [Pushes]"
    by (simp_all add: cleans_def)
  note fatal = push_failure_fatal [OF push_exec_run [OF S(1)] push_do_step [OF S1] S(2) [symmetric] push_run.stop
      push_do_step [OF S3] this(1) push_exec_run [OF S4(1)] this(2)]
  have "push_exec tcp_push_send 2 (?a @ [Fails 0, Admit 2 quiet_client []]) push_start = Some S3"
    using S(1) S1 S3 by (auto split: option.splits)
  from push_exec_run [OF this] fatal S4 push_exec_run [OF S4(1)] show ?thesis by auto
qed

end
