(* ===== verification/Ws_Push.thy ===== *)
theory Ws_Push
  imports Http_Sessions Action_Triples
begin

text \<open>
  The handler of \<^verbatim>\<open>examples/ws_push\<close> (\<^verbatim>\<open>handler.hpp\<close>, \<^verbatim>\<open>handler.cpp\<close>) inside the HTTP machine. The
  application's state of the connection (\<open>io_user\<close>) is the manager's set of addresses as this worker
  sees it, and \<open>c\<close> is the address of the handler's own \<^verbatim>\<open>WsConnection\<close>.

  The lemmas follow the registration through the machine, with the triples of \<open>Action_Triples\<close>.
\<close>

section \<open>The code\<close>

definition on_manager :: "(nat list \<Rightarrow> nat list) \<Rightarrow> (nat list io, unit) act" where
  "on_manager f = modA (\<lambda>i. i\<lparr>io_user := f (io_user i)\<rparr>)"

definition ws_push_onConnect :: "nat \<Rightarrow> (nat list io, unit) act" where
  "ws_push_onConnect c =
     thenA (log_io (Log_Info ''WebSocket connect.'')) (on_manager (insort_insert c))"

definition ws_push_onDisconnect :: "nat \<Rightarrow> (nat list io, unit) act" where
  "ws_push_onDisconnect c =
     thenA (on_manager (remove1 c)) (log_io (Log_Info ''WebSocket disconnect.''))"

definition ws_push_receive :: "byte list \<Rightarrow> nat \<Rightarrow> (nat list io, unit) act" where
  "ws_push_receive buf len = thenA (ws_send_data buf len) (retA ())"

definition ws_push_handler :: "nat \<Rightarrow> nat list ws_handler" where
  "ws_push_handler c =
     \<lparr>wh_onConnect = ws_push_onConnect c, wh_onData = ws_push_receive,
      wh_onText = default_onText ws_push_receive, wh_onDisconnect = ws_push_onDisconnect c,
      wh_subprotocol = default_subprotocol\<rparr>"

definition ws_push_factory :: "nat \<Rightarrow> nat list ws_handler_factory" where
  "ws_push_factory c = retA (ws_push_handler c)"

definition serve_ws_push where
  "serve_ws_push c = http_server_of null_handler_factory (ws_push_factory c)"

lemma ws_push_polite:
  "polite (ws_push_onConnect c)" "polite (ws_push_onDisconnect c)" "polite (ws_push_receive buf len)"
proof -
  have "polite (on_manager f)" for f
    by (simp add: polite_def on_manager_def keeps_modA)
  then show "polite (ws_push_onConnect c)" "polite (ws_push_onDisconnect c)"
    unfolding ws_push_onConnect_def ws_push_onDisconnect_def by (simp_all add: polite_thenA)
qed (simp add: ws_push_receive_def polite_thenA)

interpretation ws_push: polite_ws_handler "ws_push_handler c" for c
  by unfold_locales
    (auto simp: ws_push_handler_def ws_push_polite default_onText_def intro!: polite_bindA)

interpretation ws_push_server: http_application "serve_ws_push c sha b64 al" for c sha b64 al
  by unfold_locales
    (auto simp: serve_ws_push_def http_server_of_def null_handler_factory_def null_do_GET_def
      ws_push_factory_def ws_push.onConnect_polite ws_push.onData_polite ws_push.onText_polite
      ws_push.onDisconnect_polite)

section \<open>The registration through the machine\<close>

fun is_ws :: "'u http_state \<Rightarrow> bool" where
  "is_ws (HttpWsState handler opcode inBuf) = True"
| "is_ws _ = False"

definition ws_mine :: "nat \<Rightarrow> nat list http_state \<Rightarrow> bool" where
  "ws_mine c st \<longleftrightarrow> (\<exists>opcode inBuf. st = HttpWsState (ws_push_handler c) opcode inBuf)"

text \<open>Before the upgrade, in the upgrade, between \<open>setNextState\<close> and the change of state, and after; \<open>E\<close> is what else the manager
  holds.\<close>

definition unregistered :: "nat \<Rightarrow> nat set \<Rightarrow> nat list http_fsm \<times> nat list io \<Rightarrow> bool" where
  "unregistered c E = (\<lambda>(f, i). distinct (io_user i) \<and> set (io_user i) - {c} = E \<and> c \<notin> set (io_user i) \<and> \<not> is_ws (curState f) \<and> nextState f = None)"

definition upgrading :: "nat \<Rightarrow> nat set \<Rightarrow> nat list http_fsm \<times> nat list io \<Rightarrow> bool" where
  "upgrading c E = (\<lambda>(f, i). distinct (io_user i) \<and> set (io_user i) - {c} = E \<and> c \<in> set (io_user i) \<and> \<not> is_ws (curState f) \<and> nextState f = None)"

definition changing :: "nat \<Rightarrow> nat set \<Rightarrow> nat list http_fsm \<times> nat list io \<Rightarrow> bool" where
  "changing c E = (\<lambda>(f, i). distinct (io_user i) \<and> set (io_user i) - {c} = E \<and> \<not> is_ws (curState f)
     \<and> (\<exists>st. nextState f = Some st \<and> (if is_ws st then ws_mine c st \<and> c \<in> set (io_user i) else c \<notin> set (io_user i))))"

definition registered_ws :: "nat \<Rightarrow> nat set \<Rightarrow> nat list http_fsm \<times> nat list io \<Rightarrow> bool" where
  "registered_ws c E = (\<lambda>(f, i). distinct (io_user i) \<and> set (io_user i) - {c} = E \<and> c \<in> set (io_user i) \<and> ws_mine c (curState f) \<and> nextState f = None)"

abbreviation settled :: "nat \<Rightarrow> nat set \<Rightarrow> nat list http_fsm \<times> nat list io \<Rightarrow> bool" where
  "settled c E \<equiv> \<lambda>st. unregistered c E st \<or> registered_ws c E st"

lemmas phase_defs = unregistered_def upgrading_def changing_def registered_ws_def

definition user_kept :: "('u io, 'a) act \<Rightarrow> bool" where
  "user_kept m \<longleftrightarrow> (\<forall>u. keeps (\<lambda>i. io_user i = u) m)"

lemma user_kept_app: "user_kept m \<Longrightarrow> io_user (snd (m i)) = io_user i"
  unfolding user_kept_def keeps_def by blast

lemma user_kept_bindA: "user_kept m \<Longrightarrow> (\<And>x. user_kept (f x)) \<Longrightarrow> user_kept (bindA m f)"
  by (simp add: user_kept_def keeps_bindA)

lemma user_kept_thenA: "user_kept m \<Longrightarrow> user_kept k \<Longrightarrow> user_kept (thenA m k)"
  by (simp add: user_kept_def keeps_thenA)

lemma user_kept_send: "user_kept (conn_send b)"
proof -
  have "io_user (snd (conn_send b i)) = io_user i" for i :: "'a io"
    using io_restD(7) [OF conn_send_rest] by (metis surj_pair snd_conv)
  then show ?thesis by (simp add: user_kept_def keeps_def)
qed

lemma user_kept_basic [simp]:
  "user_kept (retA x)" "user_kept (liftR r)" "user_kept (getA g)" "user_kept (log_io l)" "user_kept conn_close"
  "user_kept (conn_send b)" "user_kept (conn_send_chars t)" "user_kept isClosed" "user_kept sock_close"
  "user_kept (sock_read b)" "user_kept isReadable"
  by (simp_all add: user_kept_send conn_send_chars_def)
    (auto simp: user_kept_def keeps_def log_io_def conn_close_def isClosed_def sock_close_def sock_read_def
      isReadable_def internalPoll_def Let_def split: list.split recv_answer.split poll_answer.split)

lemma user_kept_quit [simp]: "user_kept (quitCondition sig)"
  by (auto simp: user_kept_def keeps_def quitCondition_def sigHandler_def split: option.split)

lemma user_kept_ws [simp]:
  "user_kept ws_close" "user_kept (ws_send_data buf len)" "user_kept (ws_push_receive buf len)"
  unfolding ws_push_receive_def ws_send_data_def ws_close_def
  by (intro user_kept_bindA user_kept_thenA user_kept_basic)+

lemma phase_on_io:
  assumes "user_kept m"
  shows "keeps (unregistered c E) (on_io m)" "keeps (registered_ws c E) (on_io m)" "keeps (settled c E) (on_io m)"
  using user_kept_app [OF assms] by (auto simp: keeps_def on_io_app phase_defs)

lemma phase_parse [kept]: "keeps (unregistered c E) (on_requestInfo m)"
  by (auto simp: keeps_def on_requestInfo_def phase_defs split: prod.split)

lemma phase_set_cur:
  "\<not> is_ws st \<Longrightarrow> keeps (unregistered c E) (set_cur st)" "ws_mine c st \<Longrightarrow> keeps (registered_ws c E) (set_cur st)"
  by (auto simp: keeps_def set_cur_def phase_defs)

lemma triple_unregistered:
  "keeps (unregistered c E) m \<Longrightarrow> triple (unregistered c E) m (\<lambda>_. unregistered c E) (unregistered c E)"
  by (rule triple_keeps)

lemma setNextState_get_phase:
  assumes "\<And>ri. user_kept (handler ri)"
  shows "triple (unregistered c E) (setNextState srv (HttpGetState handler)) (\<lambda>_. changing c E) (unregistered c E)"
proof -
  have "keeps (unregistered c E) (bindA get_requestInfo (\<lambda>ri. thenA (on_io (handler ri)) (on_io conn_close)))"
    by (intro keeps_bindA keeps_thenA phase_on_io assms) simp_all
  from triple_unregistered [OF this] show ?thesis
    unfolding setNextState_def state_onEnter.simps get_onEnter_def
    by (rule triple_thenA [OF _ triple_modA]) (auto simp: phase_defs)
qed

lemma setNextState_ws_phase:
  "triple (unregistered c E) (setNextState srv (HttpWsState (ws_push_handler c) 0 [])) (\<lambda>_. changing c E) (unregistered c E)"
proof -
  have connect: "triple (unregistered c E) (on_io (wh_onConnect (ws_push_handler c))) (\<lambda>_. upgrading c E) (unregistered c E)"
    by (auto simp: triple_def ws_push_handler_def ws_push_onConnect_def on_manager_def log_io_def thenA_app on_io_app
        phase_defs set_insort_insert distinct_insort_insert)
  have "triple (unregistered c E) (ws_onEnter srv (ws_push_handler c)) (\<lambda>_. upgrading c E) (unregistered c E)"
    unfolding ws_onEnter_def
    by (intro triple_bindA [OF triple_unregistered] triple_thenA [OF triple_unregistered connect])
      (auto intro: phase_on_io)
  then show ?thesis
    unfolding setNextState_def state_onEnter.simps
    by (rule triple_thenA [OF _ triple_modA]) (auto simp: phase_defs ws_mine_def)
qed

lemma null_factory_simps:
  "httpHandlerFactory (serve_ws_push c sha b64 al) = retA null_do_GET"
  "wsHandlerFactory (serve_ws_push c sha b64 al) = retA (ws_push_handler c)"
  by (simp_all add: serve_ws_push_def http_server_of_def null_handler_factory_def ws_push_factory_def)

lemma on_io_retA: "on_io (retA x) = retA x"
  by (simp add: fun_eq_iff on_io_app)

text \<open>The result \<open>True\<close> means that the handler has returned, perhaps with a state to change to.\<close>

abbreviation dispatched :: "nat \<Rightarrow> nat set \<Rightarrow> bool \<Rightarrow> nat list http_fsm \<times> nat list io \<Rightarrow> bool" where
  "dispatched c E returned \<equiv> \<lambda>st. unregistered c E st \<or> returned \<and> changing c E st"

lemma init_dispatch_phase:
  "triple (unregistered c E) (init_dispatch (serve_ws_push c sha b64 al)) (dispatched c E) (unregistered c E)"
proof -
  have get: "triple (unregistered c E) (thenA (setNextState (serve_ws_push c sha b64 al) (HttpGetState null_do_GET)) (retA True))
      (dispatched c E) (unregistered c E)"
    by (rule triple_thenA [OF setNextState_get_phase]) (auto simp: null_do_GET_def intro: triple_retA)
  have ws: "triple (unregistered c E) (thenA (setNextState (serve_ws_push c sha b64 al) (HttpWsState (ws_push_handler c) 0 []))
      (retA True)) (dispatched c E) (unregistered c E)"
    by (rule triple_thenA [OF setNextState_ws_phase]) (auto intro: triple_retA)
  have no: "triple (unregistered c E) (retA False) (dispatched c E) (unregistered c E)"
    by (rule triple_retA) simp
  show ?thesis
    unfolding init_dispatch_eq null_factory_simps on_io_retA bindA_simps(1)
    by (intro triple_bindA [OF triple_unregistered] triple_thenA [OF triple_unregistered])
      (auto simp: get ws no intro: phase_on_io)
qed

lemma init_onReceive_phase:
  "triple (unregistered c E) (init_onReceive (serve_ws_push c sha b64 al) recvBuf numRecv buf len)
     (\<lambda>_ st. unregistered c E st \<or> changing c E st) (unregistered c E)"
proof -
  let ?srv = "serve_ws_push c sha b64 al"
  have body: "triple (unregistered c E) (init_body ?srv recvBuf numRecv buf len) (dispatched c E) (unregistered c E)"
    unfolding init_body_def Let_def
    by (intro triple_bindA [OF triple_unregistered] triple_thenA [OF triple_unregistered] keeps_liftR
        phase_set_cur phase_parse)
      (auto intro!: triple_retA triple_bindA [OF triple_unregistered] triple_thenA [OF triple_unregistered]
        phase_set_cur phase_parse init_dispatch_phase)
  have log: "triple (unregistered c E) (thenA (on_io (log_io l)) (retA False)) (dispatched c E) (unregistered c E)" for l
    by (rule triple_thenA [OF triple_unregistered [OF phase_on_io(1)]]) (auto intro: triple_retA)
  have close: "triple (dispatched c E returned) (if returned then retA () else on_io conn_close)
      (\<lambda>_ st. unregistered c E st \<or> changing c E st) (unregistered c E)" for returned
  proof (cases returned)
    case False
    have "keeps (unregistered c E) (on_io conn_close)" by (rule phase_on_io) simp
    with False show ?thesis by (auto intro!: triple_keeps)
  qed (auto intro: triple_retA)
  show ?thesis
    unfolding init_onReceive_def by (rule triple_bindA [OF triple_tryA [OF body log] close]) simp
qed

lemma ws_dispatch_phase:
  "keeps (registered_ws c E) (ws_dispatch srv (ws_push_handler c) opcode inBuf)"
  unfolding ws_dispatch_def
  by (intro keeps_if keeps_bindA keeps_thenA keeps_failA keeps_liftR keeps_retA phase_on_io phase_set_cur)
    (auto simp: ws_mine_def ws_push_handler_def default_onText_def intro: user_kept_bindA)

lemma ws_onReceive_phase:
  "keeps (registered_ws c E) (ws_onReceive srv (ws_push_handler c) opcode inBuf buf len)"
proof -
  have "keeps (registered_ws c E) (case d of (fin, inBuf1, opcode0) \<Rightarrow>
      let opcode1 = if length inBuf = 0 then opcode0 else opcode in
        thenA (set_cur (HttpWsState (ws_push_handler c) opcode1 inBuf1))
          (if \<not> fin then retA ()
           else thenA (ws_dispatch srv (ws_push_handler c) opcode1 inBuf1)
                      (set_cur (HttpWsState (ws_push_handler c) opcode1 []))))" for d
    by (cases d) (auto simp: Let_def ws_mine_def intro!: keeps_thenA phase_set_cur ws_dispatch_phase)
  then show ?thesis
    unfolding ws_onReceive_def by (intro keeps_try_onlyA keeps_bindA) simp_all
qed

lemma take_next_phase:
  "unregistered c E st \<or> changing c E st \<Longrightarrow> settled c E (take_next st)" "registered_ws c E st \<Longrightarrow> settled c E (take_next st)"
  by (cases st; auto simp: take_next_def phase_defs ws_mine_def split: option.splits if_splits)+

lemma http_onReceive_settled: "keeps (settled c E) (http_onReceive (serve_ws_push c sha b64 al) buf len)"
proof (rule keepsI)
  fix st assume "settled c E st"
  let ?srv = "serve_ws_push c sha b64 al"
  obtain f i where st: "st = (f, i)" by fastforce
  have run: "http_onReceive ?srv buf len st = thenA (state_onReceive ?srv (curState f) buf len) (modA take_next) st"
    by (simp add: http_onReceive_def st)
  obtain r st' where rec: "state_onReceive ?srv (curState f) buf len st = (r, st')" by (metis surj_pair)
  have "(case r of Inr _ \<Rightarrow> unregistered c E st' \<or> changing c E st' \<or> registered_ws c E st'
      | Inl _ \<Rightarrow> unregistered c E st' \<or> registered_ws c E st')"
  proof (cases "curState f")
    case (HttpInitState recvBuf numRecv)
    with \<open>settled c E st\<close> have "unregistered c E st" by (auto simp: st phase_defs ws_mine_def)
    have init: "init_onReceive ?srv recvBuf numRecv buf len st = (r, st')"
      using rec by (simp add: HttpInitState)
    show ?thesis
    proof (cases r)
      case (Inl e)
      with triple_Inl [OF init_onReceive_phase \<open>unregistered c E st\<close>] init show ?thesis by simp
    next
      case (Inr u)
      from triple_Inr [OF init_onReceive_phase \<open>unregistered c E st\<close> init [unfolded Inr]] Inr show ?thesis by auto
    qed
  next
    case (HttpGetState handler)
    with rec \<open>settled c E st\<close> show ?thesis by auto
  next
    case (HttpWsState handler opcode inBuf)
    with \<open>settled c E st\<close> have "registered_ws c E st" and "handler = ws_push_handler c"
      by (auto simp: st phase_defs ws_mine_def)
    with keepsD [OF ws_onReceive_phase this(1)] rec have "registered_ws c E st'" by (simp add: HttpWsState)
    then show ?thesis by (simp split: sum.split)
  qed
  with take_next_phase [of c E st'] show "settled c E (snd (http_onReceive ?srv buf len st))"
    unfolding run using rec by (cases r) (auto simp: thenA_app)
qed

lemma worker_loop_settled:
  "keeps (settled c E) (worker_loop (http_handler (serve_ws_push c sha b64 al)) sigs buf)"
proof (induction sigs arbitrary: buf)
  case (Cons sig sigs)
  have "keeps (settled c E) (case p of (len, buf') \<Rightarrow>
      if len = NUM_EOF then retA ()
      else if len = NUM_CONTINUE then worker_loop (http_handler (serve_ws_push c sha b64 al)) sigs buf'
      else thenA (sh_onReceive (http_handler (serve_ws_push c sha b64 al)) buf' (nat len))
        (worker_loop (http_handler (serve_ws_push c sha b64 al)) sigs buf'))" for p
    using Cons http_onReceive_settled by (cases p) (auto simp: http_handler_def intro!: keeps_thenA)
  then show ?case
    unfolding worker_loop.simps
    by (intro keeps_bindA keeps_if keeps_retA phase_on_io(3) Cons) simp_all
qed simp

definition left_ws :: "nat set \<Rightarrow> nat list http_fsm \<times> nat list io \<Rightarrow> bool" where
  "left_ws E = (\<lambda>(f, i). distinct (io_user i) \<and> set (io_user i) = E)"

lemma disconnect_unregisters:
  "triple (settled c E) http_onDisconnect (\<lambda>_. left_ws E) (\<lambda>_. False)"
proof (rule tripleI)
  fix st r st'
  assume "settled c E st"
  obtain f i where st: "st = (f, i)" by fastforce
  have "\<exists>st'. http_onDisconnect st = (Inr (), st') \<and> left_ws E st'"
    using \<open>settled c E st\<close>
    by (cases "curState f")
      (auto simp: st http_onDisconnect_def phase_defs ws_mine_def ws_push_handler_def ws_push_onDisconnect_def
        on_manager_def log_io_def thenA_app on_io_app left_ws_def)
  then show "http_onDisconnect st = (Inr r, st') \<Longrightarrow> left_ws E st'"
    by auto
next
  fix st e st'
  assume "settled c E st"
  obtain f i where st: "st = (f, i)" by fastforce
  show "http_onDisconnect st = (Inl e, st') \<Longrightarrow> False"
    using \<open>settled c E st\<close>
    by (cases "curState f")
      (auto simp: st http_onDisconnect_def phase_defs ws_mine_def ws_push_handler_def ws_push_onDisconnect_def
        on_manager_def log_io_def thenA_app on_io_app left_ws_def)
qed

section \<open>Properties\<close>

text \<open>The registration of a WebSocket push connection follows its upgrade: whatever the client sends and
  the kernel does, a worker whose run comes to its end leaves the manager as it found it; and one that is stopped by an exception
  leaves its own connection in the manager exactly if it had been upgraded, and the others as they were.\<close>

theorem ws_push_registration:
  assumes "run_body (http_handler (serve_ws_push c sha b64 al)) sigs buf (http_fsm_new, i) = (r, (f, i'))"
    and "distinct (io_user i)" and "c \<notin> set (io_user i)"
  shows "(r = Inr () \<longrightarrow> set (io_user i') = set (io_user i))
    \<and> (\<forall>e. r = Inl e \<longrightarrow> set (io_user i') - {c} = set (io_user i) \<and> (c \<in> set (io_user i') \<longleftrightarrow> (\<exists>opcode inBuf. curState f = HttpWsState (ws_push_handler c) opcode inBuf)))"
proof -
  let ?h = "http_handler (serve_ws_push c sha b64 al)"
  define E where "E = set (io_user i)"
  have start: "settled c E (http_fsm_new, i)"
    using assms(2,3) by (simp add: unregistered_def http_fsm_new_def E_def)
  have ops: "sh_onConnect ?h = retA ()" "sh_onDisconnect ?h = http_onDisconnect"
    by (simp_all add: http_handler_def)
  have loop: "triple (settled c E) (worker_loop ?h sigs buf) (\<lambda>_. settled c E) (settled c E)"
    by (rule triple_keeps [OF worker_loop_settled])
  have out: "triple (settled c E) http_onDisconnect (\<lambda>_. left_ws E) (settled c E)"
    by (rule tripleI) (use triple_Inr [OF disconnect_unregisters] triple_Inl [OF disconnect_unregisters] in blast)+
  have close: "triple (left_ws E) (on_io sock_close) (\<lambda>_. left_ws E) (settled c E)"
    by (auto simp: triple_def on_io_app sock_close_def left_ws_def)
  have body: "triple (settled c E) (run_body ?h sigs buf) (\<lambda>_. left_ws E) (settled c E)"
    unfolding run_body_def ops thenA_simps SocketImpl_simps by (intro triple_thenA [OF loop] triple_thenA [OF out] close)
  from triple_Inr [OF body start] triple_Inl [OF body start] assms(1) show ?thesis
    by (fastforce simp: phase_defs ws_mine_def left_ws_def simp flip: E_def)
qed

text \<open>Clients that go at once, one with the end of file, one with a reset.\<close>

theorem ws_push_registration_witness:
  "\<exists>f i f' i'. run_body (http_handler (serve_ws_push 5 (\<lambda>_. []) (\<lambda>_. ''k'') (\<lambda>_. True))) [None] (replicate 8 0)
      (http_fsm_new, io_start [] [Received []] [Poll_Ready 1] [3]) = (Inr (), (f, i)) \<and> 5 \<notin> set (io_user i)
    \<and> run_body (http_handler (serve_ws_push 5 (\<lambda>_. []) (\<lambda>_. ''k'') (\<lambda>_. True))) [None] (replicate 8 0)
      (http_fsm_new, io_start [] [Recv_Failed (E_OTHER 104)] [Poll_Ready 1] [3]) =
        (Inl (Throw (Errno_Error (E_OTHER 104))), (f', i')) \<and> 5 \<notin> set (io_user i')"
proof -
  let ?h = "http_handler (serve_ws_push 5 (\<lambda>_. []) (\<lambda>_. ''k'') (\<lambda>_. True))"
  obtain f i where a: "run_body ?h [None] (replicate 8 0)
      (http_fsm_new, io_start [] [Received []] [Poll_Ready 1] [3]) = (Inr (), (f, i))"
    by (simp add: run_body_def http_handler_def thenA_app bindA_app on_io_app quitCondition_def isClosed_def
        isReadable_def internalPoll_def POLLIN_def sock_read_def NUM_EOF_def http_onDisconnect_def http_fsm_new_def
        sock_close_def NO_SIGNAL_def)
  obtain f' i' where b: "run_body ?h [None] (replicate 8 0)
      (http_fsm_new, io_start [] [Recv_Failed (E_OTHER 104)] [Poll_Ready 1] [3]) =
        (Inl (Throw (Errno_Error (E_OTHER 104))), (f', i'))" and cur: "curState f' = HttpInitState (replicate RECV_SIZE NUL) 0"
    by (simp add: run_body_def http_handler_def thenA_app bindA_app on_io_app quitCondition_def isClosed_def
        isReadable_def internalPoll_def POLLIN_def sock_read_def retriable_def http_fsm_new_def NO_SIGNAL_def)
  have "5 \<notin> set (io_user i)"
    using ws_push_registration [OF a] by simp
  moreover have "5 \<notin> set (io_user i')"
    using ws_push_registration [OF b] cur by simp
  ultimately show ?thesis using a b by blast
qed

end
