(* ===== verification/Ws_Push_System.thy ===== *)
theory Ws_Push_System
  imports Push_System Ws_Push Ws_Sessions
begin

text \<open>
  The WebSocket push server of \<^verbatim>\<open>examples/ws_push\<close> with all its threads: workers that run the HTTP machine
  with the handler of \<open>Ws_Push\<close>, the pusher's thread of \<^verbatim>\<open>pusher.cpp\<close>, the server's thread, and the manager of
  \<^verbatim>\<open>manager.hpp\<close> they share.

  A worker's step is a step of \<open>Tcp_Threads\<close> on the shared manager; one that changes the manager waits for the
  mutex, which the pusher holds from the first send of a push to the last. A connection joins the manager in
  the middle of a call, when the upgrade is answered, not at its beginning. A new connection may get any
  address no living one has.
\<close>

section \<open>The code\<close>

type_synonym ws_thread = "(nat list http_fsm, nat list) thread"

definition th_state :: "ws_thread \<Rightarrow> nat list http_fsm \<times> nat list io" where
  "th_state t = wk_state (th_worker t)"

definition th_set_state :: "nat list http_fsm \<times> nat list io \<Rightarrow> ws_thread \<Rightarrow> ws_thread" where
  "th_set_state st t = t\<lparr>th_worker := (th_worker t)\<lparr>wk_state := st\<rparr>\<rparr>"

text \<open>The worker sees the manager as it is when its step begins.\<close>

definition th_share :: "nat list \<Rightarrow> ws_thread \<Rightarrow> ws_thread" where
  "th_share manager t = th_set_state (fst (th_state t), (snd (th_state t))\<lparr>io_user := manager\<rparr>) t"

definition ws_push_worker_step ::
  "(nat \<Rightarrow> nat list http_server) \<Rightarrow> nat \<Rightarrow> int option \<Rightarrow> nat list \<Rightarrow> ws_thread \<Rightarrow> ws_thread \<times> nat list"
where
  "ws_push_worker_step srv c sig manager t =
     (let t' = thread_step (http_handler (srv c)) sig (th_share manager t)
      in (t', io_user (snd (th_state t'))))"

record ws_push_system =
  wp_manager :: "nat list"
  wp_workers :: "nat \<Rightarrow> ws_thread option"
  wp_signalStatus :: int
  wp_server :: push_server_pc
  wp_pusher :: pusher_pc

definition ws_send_to ::
  "nat \<Rightarrow> (nat list io, unit) act \<Rightarrow> (nat \<Rightarrow> ws_thread option) \<Rightarrow> (stop + unit) \<times> (nat \<Rightarrow> ws_thread option)"
where
  "ws_send_to c m ws =
     (case ws c of
        None \<Rightarrow> (Inl (UB Dangling_Pointer), ws)
      | Some t \<Rightarrow> (case m (snd (th_state t)) of (r, i) \<Rightarrow> (r, ws(c \<mapsto> th_set_state (fst (th_state t), i) t))))"

definition ws_pusher_step :: "ws_push_system \<Rightarrow> ws_push_system" where
  "ws_pusher_step S =
     (case wp_pusher S of
        Pu_Check cnt \<Rightarrow>
          S\<lparr>wp_pusher := (if wp_signalStatus S \<noteq> NO_SIGNAL then Pu_Ended else Pu_Pushing cnt (wp_manager S))\<rparr>
      | Pu_Pushing cnt [] \<Rightarrow> S\<lparr>wp_pusher := Pu_Check (Suc cnt)\<rparr>
      | Pu_Pushing cnt (c # cs) \<Rightarrow>
          (case ws_send_to c (ws_push_send cnt) (wp_workers S) of
             (Inr _, ws) \<Rightarrow> S\<lparr>wp_workers := ws, wp_pusher := Pu_Pushing cnt cs\<rparr>
           | (Inl (Throw _), ws) \<Rightarrow> S\<lparr>wp_workers := ws, wp_pusher := Pu_Halted Terminate\<rparr>
           | (Inl e, ws) \<Rightarrow> S\<lparr>wp_workers := ws, wp_pusher := Pu_Halted e\<rparr>)
      | _ \<Rightarrow> S)"

definition ws_mutex_free :: "ws_push_system \<Rightarrow> bool" where
  "ws_mutex_free S \<longleftrightarrow> (case wp_pusher S of Pu_Check _ \<Rightarrow> True | Pu_Ended \<Rightarrow> True | _ \<Rightarrow> False)"

definition ws_alive :: "ws_push_system \<Rightarrow> bool" where
  "ws_alive S \<longleftrightarrow> (case wp_pusher S of Pu_Halted e \<Rightarrow> e = Starved | _ \<Rightarrow> True)"

definition ws_active :: "ws_thread option \<Rightarrow> bool" where
  "ws_active a = (case a of None \<Rightarrow> False | Some t \<Rightarrow> wk_isActive (th_worker t))"

definition ws_push_cleanup :: "ws_push_system \<Rightarrow> ws_push_system" where
  "ws_push_cleanup S = S\<lparr>wp_workers := (\<lambda>c. if ws_active (wp_workers S c) then wp_workers S c else None)\<rparr>"

definition ws_push_admit :: "nat \<Rightarrow> nat list io \<Rightarrow> byte list \<Rightarrow> ws_push_system \<Rightarrow> ws_push_system" where
  "ws_push_admit c i buf S = S\<lparr>wp_workers := (wp_workers S)(c \<mapsto> thread_start http_fsm_new i buf)\<rparr>"

definition ws_accepting :: "ws_push_system \<Rightarrow> bool" where
  "ws_accepting S \<longleftrightarrow> wp_server S = Push_Serving \<and> wp_signalStatus S = NO_SIGNAL"

definition ws_seen :: "ws_push_system \<Rightarrow> int option" where
  "ws_seen S = (if wp_signalStatus S = NO_SIGNAL then None else Some (wp_signalStatus S))"

inductive ws_push_step ::
  "(nat \<Rightarrow> nat list http_server) \<Rightarrow> nat \<Rightarrow> ws_push_system \<Rightarrow> nat list push_label \<Rightarrow> ws_push_system \<Rightarrow> bool"
  for srv max_clients
where
  admit: "ws_push_step srv max_clients S (Admit c i buf) (ws_push_admit c i buf (ws_push_cleanup S))"
    if "ws_alive S" and "ws_accepting S" and "card (dom (wp_workers (ws_push_cleanup S))) < max_clients"
      and "wp_workers (ws_push_cleanup S) c = None"
| turn_away: "ws_push_step srv max_clients S Turn_Away (ws_push_cleanup S)"
    if "ws_alive S" and "ws_accepting S" and "\<not> card (dom (wp_workers (ws_push_cleanup S))) < max_clients"
| leave: "ws_push_step srv max_clients S Leave (S\<lparr>wp_server := Push_Joining\<rparr>)"
    if "ws_alive S" and "wp_server S = Push_Serving" and "wp_signalStatus S \<noteq> NO_SIGNAL"
| destroy: "ws_push_step srv max_clients S Destroy ((ws_push_cleanup S)\<lparr>wp_server := Push_Returned\<rparr>)"
    if "ws_alive S" and "wp_server S = Push_Joining" and "\<forall>c t. wp_workers S c = Some t \<longrightarrow> th_pc t = Ended"
| work: "ws_push_step srv max_clients S (if th_pc t' = Ended \<and> th_pc t \<noteq> At_Close then Fails c else Works c)
     (S\<lparr>wp_workers := (wp_workers S)(c \<mapsto> t'), wp_manager := manager\<rparr>)"
    if "ws_alive S" and "wp_workers S c = Some t" and "\<not> th_over t"
      and "ws_push_worker_step srv c (ws_seen S) (wp_manager S) t = (t', manager)"
      and "ws_mutex_free S \<or> manager = wp_manager S"
| pusher: "ws_push_step srv max_clients S Pushes (ws_pusher_step S)"
    if "ws_alive S" and "\<not> pusher_over (wp_pusher S)"
| signal: "ws_push_step srv max_clients S (Signal n) (S\<lparr>wp_signalStatus := n\<rparr>)"
    if "ws_alive S" and "n \<noteq> NO_SIGNAL"

inductive ws_push_run ::
  "(nat \<Rightarrow> nat list http_server) \<Rightarrow> nat \<Rightarrow> ws_push_system \<Rightarrow> nat list push_label list \<Rightarrow> ws_push_system \<Rightarrow> bool"
  for srv max_clients
where
  stop: "ws_push_run srv max_clients S [] S"
| step: "ws_push_run srv max_clients S (labs @ [lab]) S''"
    if "ws_push_run srv max_clients S labs S'" and "ws_push_step srv max_clients S' lab S''"

definition ws_push_start :: ws_push_system where
  "ws_push_start = \<lparr>wp_manager = [], wp_workers = Map.empty, wp_signalStatus = NO_SIGNAL,
     wp_server = Push_Serving, wp_pusher = Pu_Check 0\<rparr>"

section \<open>What a step of a worker does to the manager\<close>

text \<open>A connection is in the manager between the end of its upgrade and its \<^verbatim>\<open>onDisconnect\<close>.\<close>

definition listed :: "ws_thread \<Rightarrow> bool" where
  "listed t \<longleftrightarrow> is_ws (curState (fst (th_state t))) \<and> th_pc t \<notin> {At_Close, Ended}"

text \<open>How a thread that has not failed is registered.\<close>

definition enrolled :: "nat \<Rightarrow> nat list \<Rightarrow> ws_thread \<Rightarrow> bool" where
  "enrolled c manager t \<longleftrightarrow> distinct manager \<and> (wk_isActive (th_worker t) \<longleftrightarrow> th_pc t \<noteq> Ended)
     \<and> (if th_pc t \<in> {At_Close, Ended} then c \<notin> set manager
        else nextState (fst (th_state t)) = None
          \<and> (if is_ws (curState (fst (th_state t))) then ws_mine c (curState (fst (th_state t))) \<and> c \<in> set manager
             else c \<notin> set manager))"

lemma settled_share:
  "settled c (set manager - {c}) (th_state (th_share manager t)) \<longleftrightarrow> distinct manager \<and> nextState (fst (th_state t)) = None
     \<and> (if is_ws (curState (fst (th_state t))) then ws_mine c (curState (fst (th_state t))) \<and> c \<in> set manager
        else c \<notin> set manager)"
  by (cases "th_state t")
    (auto simp: th_share_def th_set_state_def th_state_def phase_defs ws_mine_def split: if_splits)

lemma settled_state:
  "settled c E (f, i) \<Longrightarrow> distinct (io_user i) \<and> set (io_user i) - {c} = E \<and> nextState f = None
     \<and> (if is_ws (curState f) then ws_mine c (curState f) \<and> c \<in> set (io_user i) else c \<notin> set (io_user i))"
  by (auto simp: phase_defs ws_mine_def)

lemma loop_iter_settled:
  "keeps (settled c E) (loop_iter (http_handler (serve_ws_push c sha b64 al)) sig buf)"
proof -
  have "keeps (settled c E) (case p of (len, buf') \<Rightarrow>
      if len = NUM_EOF then retA None
      else if len = NUM_CONTINUE then retA (Some buf')
      else thenA (sh_onReceive (http_handler (serve_ws_push c sha b64 al)) buf' (nat len)) (retA (Some buf')))" for p
    using http_onReceive_settled by (cases p) (auto simp: http_handler_def intro!: keeps_thenA)
  then show ?thesis
    unfolding loop_iter_def by (intro keeps_bindA keeps_if keeps_retA phase_on_io(3)) simp_all
qed

text \<open>After a step in which the thread does not fail it is registered as it should be, and the others are as
  before.\<close>

lemma worker_step_enrolled:
  assumes "enrolled c manager t" and "\<not> th_over t"
    and "ws_push_worker_step (\<lambda>c. serve_ws_push c sha b64 al) c sig manager t = (t', manager')"
    and "\<not> (th_pc t' = Ended \<and> th_pc t \<noteq> At_Close)"
  shows "enrolled c manager' t' \<and> set manager' - {c} = set manager - {c}"
proof -
  let ?h = "http_handler (serve_ws_push c sha b64 al)" and ?E = "set manager - {c}"
  define u where "u = th_share manager t"
  have u: "th_pc u = th_pc t" "th_buf u = th_buf t" "wk_isActive (th_worker u) = wk_isActive (th_worker t)"
    by (simp_all add: u_def th_share_def th_set_state_def)
  have t': "t' = thread_step ?h sig u" and manager': "manager' = io_user (snd (th_state t'))"
    using assms(3) by (auto simp: ws_push_worker_step_def Let_def u_def)
  have settled: "settled c ?E (wk_state (th_worker u))" if "th_pc t \<notin> {At_Close, Ended}"
    using assms(1) settled_share [of c manager t] that
    by (simp add: enrolled_def u_def flip: th_state_def del: insert_iff)
  have active: "wk_isActive (th_worker t)"
    using assms(1,2) by (simp add: enrolled_def th_over_def)
  have done_settled: ?thesis
    if "settled c ?E (th_state t')" "th_pc t' \<notin> {At_Close, Ended}" "wk_isActive (th_worker t')"
    using settled_state [of c ?E "fst (th_state t')" "snd (th_state t')"] that
    by (auto simp: enrolled_def manager' simp del: set_diff_eq)
  show ?thesis
  proof (cases "th_pc t")
    case At_Connect
    then show ?thesis
      using settled active u
      by (intro done_settled) (simp_all add: t' thread_step_def th_do_def http_handler_def th_state_def)
  next
    case In_Loop
    with settled have start: "settled c ?E (wk_state (th_worker u))" by simp
    have kept: "settled c ?E st" if "loop_iter ?h sig (th_buf u) (wk_state (th_worker u)) = (r, st)" for r st
      using keepsD [OF loop_iter_settled start that] .
    let ?k = "\<lambda>go. case go of None \<Rightarrow> th_pc_update (\<lambda>_. At_Disconnect) | Some buf \<Rightarrow> th_buf_update (\<lambda>_. buf)"
    have step: "t' = th_do (loop_iter ?h sig (th_buf u)) ?k u"
      by (simp add: t' thread_step_def u In_Loop)
    show ?thesis
    proof (cases rule: th_do_cases [where m = "loop_iter ?h sig (th_buf u)" and t = u and k = ?k])
      case (returns go st)
      with kept [OF returns(1)] active u In_Loop show ?thesis
        by (intro done_settled) (auto simp: step th_state_def split: option.split)
    next
      case (throws exc st)
      with assms(4) In_Loop step show ?thesis by simp
    next
      case (halts e st)
      with kept [OF halts(1)] active u show ?thesis
        by (intro done_settled) (auto simp: step th_state_def)
    qed
  next
    case At_Disconnect
    with settled have start: "settled c ?E (wk_state (th_worker u))" by simp
    obtain r st where run: "http_onDisconnect (wk_state (th_worker u)) = (r, st)" by (metis surj_pair)
    then obtain x where r: "r = Inr x"
      using triple_Inl [OF disconnect_unregisters start] by (cases r) auto
    obtain f i where st: "st = (f, i)" by (cases st)
    have "t' = u\<lparr>th_worker := (th_worker u)\<lparr>wk_state := st\<rparr>, th_pc := At_Close\<rparr>"
      using run r by (simp add: t' thread_step_def u At_Disconnect th_do_def http_handler_def)
    moreover have "left_ws ?E (f, i)"
      using triple_Inr [OF disconnect_unregisters start run [unfolded r]] st by simp
    ultimately show ?thesis
      using active u by (auto simp: enrolled_def manager' th_state_def st left_ws_def)
  next
    case At_Close
    obtain f i where st: "th_state t = (f, i)" by (cases "th_state t")
    have "t' = u\<lparr>th_worker := (th_worker u)\<lparr>wk_state := (f, i\<lparr>io_user := manager, io_fd_open := False\<rparr>), wk_isActive := False\<rparr>, th_pc := Ended\<rparr>"
      using st by (simp add: t' thread_step_def u At_Close th_do_def on_io_app sock_close_def u_def th_share_def
          th_set_state_def th_state_def)
    with assms(1) At_Close show ?thesis
      by (simp add: enrolled_def manager' th_state_def)
  qed (use assms(2) in \<open>auto simp: th_over_def\<close>)
qed

text \<open>The pusher's message has no NUL but its terminator, so the frame is that of its text.\<close>

lemma dec_no_NUL: "0 \<notin> set (bytes_of (dec n))"
proof (induction n rule: dec.induct)
  case (1 n)
  have digit: "(of_char (char_of (48 + d)) :: byte) \<noteq> 0" if "d < 10" for d :: nat
  proof -
    have "unat (of_char (char_of (48 + d)) :: byte) = 48 + d"
      using that by (simp add: unat_of_char)
    then show ?thesis by auto
  qed
  show ?case
    using 1 digit [of n] digit [of "n mod 10"] by (subst dec.simps) (auto simp: bytes_of_def)
qed

lemma ws_push_send_defined: "fst (ws_push_send n i) \<noteq> Inl (UB u)"
proof -
  let ?p = "bytes_of (dec n @ [LF])"
  have p: "0 \<notin> set ?p" using dec_no_NUL by (simp add: bytes_of_def LF_def)
  have msg: "counter_message n = ?p @ 0 # []" by (simp add: counter_message_def)
  show ?thesis
  proof (cases "length ?p \<le> 65535")
    case True
    let ?f = "\<lparr>frame_data = rfc_frame True OPCODE_TEXT None ?p\<rparr>"
    have sends: "ws_send_text (counter_message n) = thenA (conn_send (frame_data ?f)) (liftR (Inr (length ?p)))"
      unfolding msg ws_send_text_def ws_frame_new_text_ok [OF p True] bindA_simps
        payloadLength_rfc_frame [OF True] ..
    show ?thesis
      using conn_send_defined [of "frame_data ?f" i u]
      by (auto simp: ws_push_send_def sends thenA_app split: prod.splits sum.splits)
  next
    case False
    then have "ws_frame_new_text (counter_message n) =
        Inl (Throw (Invalid_Argument ''Payload length > UINT16_MAX currently not supported.''))"
      unfolding msg ws_frame_new_text_def strlen_terminated [OF p]
      using ws_frame_new_too_long [of OPCODE_TEXT "length ?p" "?p @ 0 # []" True] by (simp add: OPCODE_TEXT_def)
    then show ?thesis
      by (simp add: ws_push_send_def ws_send_text_def thenA_app bindA_app)
  qed
qed

section \<open>The invariant\<close>

definition ws_exact :: "ws_push_system \<Rightarrow> bool" where
  "ws_exact S \<longleftrightarrow> distinct (wp_manager S)
   \<and> (\<forall>c t. wp_workers S c = Some t \<longrightarrow> enrolled c (wp_manager S) t)
   \<and> (\<forall>c \<in> set (wp_manager S). wp_workers S c \<noteq> None)
   \<and> (\<forall>cnt cs. wp_pusher S = Pu_Pushing cnt cs \<longrightarrow> (\<exists>sent. wp_manager S = sent @ cs))
   \<and> (\<forall>u. wp_pusher S \<noteq> Pu_Halted (UB u))"

lemma ws_exactD:
  assumes "ws_exact S"
  shows "distinct (wp_manager S)" and "wp_workers S c = Some t \<Longrightarrow> enrolled c (wp_manager S) t"
    and "c \<in> set (wp_manager S) \<Longrightarrow> \<exists>t. wp_workers S c = Some t"
    and "wp_pusher S = Pu_Pushing cnt cs \<Longrightarrow> \<exists>sent. wp_manager S = sent @ cs"
    and "wp_pusher S \<noteq> Pu_Halted (UB u)"
  using assms by (auto simp: ws_exact_def)

lemma ws_exact_start: "ws_exact ws_push_start"
  by (simp add: ws_exact_def ws_push_start_def)

lemma enrolled_member: "enrolled c manager t \<Longrightarrow> c \<in> set manager \<longleftrightarrow> listed t"
  by (auto simp: enrolled_def listed_def split: if_splits)

lemma ws_exact_cleanup:
  assumes "ws_exact S"
  shows "ws_exact (ws_push_cleanup S)"
proof -
  have "ws_active (wp_workers S c)" if c: "c \<in> set (wp_manager S)" for c
  proof -
    obtain t where t: "wp_workers S c = Some t" using ws_exactD(3) [OF assms c] by blast
    with ws_exactD(2) [OF assms t] c show ?thesis
      by (auto simp: ws_active_def enrolled_def split: if_splits)
  qed
  with assms show ?thesis
    by (auto simp: ws_exact_def ws_push_cleanup_def split: if_splits)
qed

lemma ws_exact_admit:
  assumes "ws_exact S" and "wp_workers S c = None"
  shows "ws_exact (ws_push_admit c i buf S)"
proof -
  have "c \<notin> set (wp_manager S)"
    using ws_exactD(3) [OF assms(1)] assms(2) by fastforce
  then have "enrolled c (wp_manager S) (thread_start http_fsm_new i buf)"
    using ws_exactD(1) [OF assms(1)]
    by (simp add: enrolled_def thread_start_def worker_start_def th_state_def http_fsm_new_def)
  with assms show ?thesis
    by (auto simp: ws_exact_def ws_push_admit_def)
qed

lemma ws_exact_work:
  assumes "ws_exact S" and "wp_workers S c = Some t" and "\<not> th_over t"
    and "ws_push_worker_step (\<lambda>c. serve_ws_push c sha b64 al) c sig (wp_manager S) t = (t', manager)"
    and "ws_mutex_free S \<or> manager = wp_manager S" and "\<not> (th_pc t' = Ended \<and> th_pc t \<noteq> At_Close)"
  shows "ws_exact (S\<lparr>wp_workers := (wp_workers S)(c \<mapsto> t'), wp_manager := manager\<rparr>)"
proof -
  note step = worker_step_enrolled [OF ws_exactD(2) [OF assms(1,2)] assms(3,4,6)]
  then have dist: "distinct manager" by (simp add: enrolled_def)
  have same: "d \<in> set manager \<longleftrightarrow> d \<in> set (wp_manager S)" if "d \<noteq> c" for d
    using step that by blast
  have "enrolled d manager u" if "wp_workers S d = Some u" "d \<noteq> c" for d u
    using ws_exactD(2) [OF assms(1) that(1)] same [OF that(2)] dist by (simp add: enrolled_def)
  moreover have "\<exists>sent. manager = sent @ cs" if "wp_pusher S = Pu_Pushing cnt cs" for cnt cs
    using assms(5) that ws_exactD(4) [OF assms(1) that] by (auto simp: ws_mutex_free_def)
  ultimately show ?thesis
    using assms(1) step dist same by (auto simp: ws_exact_def)
qed

lemma ws_exact_pusher:
  assumes "ws_exact S" and "\<not> pusher_over (wp_pusher S)"
  shows "ws_exact (ws_pusher_step S)"
proof (cases "wp_pusher S")
  case (Pu_Check cnt)
  with assms(1) show ?thesis by (auto simp: ws_pusher_step_def ws_exact_def)
next
  case (Pu_Pushing cnt cs)
  show ?thesis
  proof (cases cs)
    case Nil
    with Pu_Pushing assms(1) show ?thesis by (auto simp: ws_pusher_step_def ws_exact_def)
  next
    case (Cons c cs')
    obtain sent where sent: "wp_manager S = (sent @ [c]) @ cs'"
      using ws_exactD(4) [OF assms(1) Pu_Pushing] Cons by auto
    then obtain t where t: "wp_workers S c = Some t"
      using ws_exactD(3) [OF assms(1), of c] by auto
    obtain r i where send: "ws_push_send cnt (snd (th_state t)) = (r, i)" by fastforce
    let ?t = "th_set_state (fst (th_state t), i) t"
    let ?S = "S\<lparr>wp_workers := (wp_workers S)(c \<mapsto> ?t)\<rparr>"
    have "enrolled c (wp_manager S) ?t"
      using ws_exactD(2) [OF assms(1) t] by (auto simp: enrolled_def th_set_state_def th_state_def split: if_splits)
    then have workers: "ws_exact (?S\<lparr>wp_pusher := p\<rparr>)"
      if "\<And>cnt cs. p = Pu_Pushing cnt cs \<Longrightarrow> cs = cs'" "\<And>u. p \<noteq> Pu_Halted (UB u)" for p
      using assms(1) that sent by (auto simp: ws_exact_def)
    have "r \<noteq> Inl (UB u)" for u
      using ws_push_send_defined [of cnt "snd (th_state t)" u] send by simp
    then show ?thesis
      using send by (auto simp: ws_pusher_step_def Pu_Pushing Cons ws_send_to_def t split: sum.split stop.split intro!: workers)
  qed
qed (use assms(2) in \<open>simp_all add: pusher_over_def\<close>)

lemma ws_exact_step:
  assumes "ws_push_step (\<lambda>c. serve_ws_push c sha b64 al) max_clients S lab S'" and "ws_exact S" and "\<forall>k. lab \<noteq> Fails k"
  shows "ws_exact S'"
  using assms(1)
proof (cases rule: ws_push_step.cases)
  case (admit c i buf)
  with ws_exact_admit [OF ws_exact_cleanup [OF assms(2)]] show ?thesis by simp
next
  case turn_away
  with ws_exact_cleanup [OF assms(2)] show ?thesis by simp
next
  case leave
  with assms(2) show ?thesis by (simp add: ws_exact_def)
next
  case destroy
  with ws_exact_cleanup [OF assms(2)] show ?thesis by (simp add: ws_exact_def)
next
  case (work c t t' manager)
  with assms(3) have "\<not> (th_pc t' = Ended \<and> th_pc t \<noteq> At_Close)" by metis
  with ws_exact_work [OF assms(2)] work show ?thesis by blast
next
  case pusher
  with ws_exact_pusher [OF assms(2)] show ?thesis by simp
next
  case (signal n)
  with assms(2) show ?thesis by (simp add: ws_exact_def)
qed

lemma ws_exact_run:
  "ws_push_run (\<lambda>c. serve_ws_push c sha b64 al) max_clients S labs S' \<Longrightarrow> ws_exact S \<Longrightarrow> \<forall>k. Fails k \<notin> set labs \<Longrightarrow> ws_exact S'"
  by (induction rule: ws_push_run.induct) (auto intro: ws_exact_step)

lemma ws_pusher_others:
  assumes "ws_exact S" and "wp_workers S c = Some t" and "\<not> listed t"
  shows "wp_workers (ws_pusher_step S) c = Some t"
proof (cases "\<exists>cnt d cs. wp_pusher S = Pu_Pushing cnt (d # cs)")
  case True
  then obtain cnt d cs where p: "wp_pusher S = Pu_Pushing cnt (d # cs)" by blast
  have "d \<in> set (wp_manager S)" using ws_exactD(4) [OF assms(1) p] by auto
  moreover have "c \<notin> set (wp_manager S)"
    using enrolled_member [OF ws_exactD(2) [OF assms(1,2)]] assms(3) by simp
  ultimately have "d \<noteq> c" by blast
  with assms(2) show ?thesis
    by (auto simp: ws_pusher_step_def p ws_send_to_def split: option.split prod.split sum.split stop.split)
next
  case False
  with assms(2) show ?thesis
    by (auto simp: ws_pusher_step_def split: pusher_pc.split list.split)
qed

section \<open>Properties\<close>

text \<open>A client that upgrades and then is silent.\<close>

abbreviation ws_push_client :: "nat list io" where
  "ws_push_client \<equiv> io_start (replicate 200 (Sent 1)) [Received (bytes_of (render_request ''/'' [] ws_headers))]
     [Poll_Ready POLLIN] []"

abbreviation demo_push_server :: "nat \<Rightarrow> nat list http_server" where
  "demo_push_server \<equiv> \<lambda>c. serve_ws_push c (\<lambda>_. []) (\<lambda>_. ''accept'') (\<lambda>_. True)"

lemma demo_client_listed:
  "\<exists>buf f i. loop_iter (http_handler (demo_push_server 1)) None (replicate MAX_SIZE 0) (http_fsm_new, ws_push_client) =
     (Inr (Some buf), (f, i)) \<and> is_ws (curState f) \<and> io_user i = [1]"
proof -
  let ?srv = "demo_push_server 1" and ?h = "ws_push_handler 1"
  let ?t = "render_request ''/'' [] ws_headers" and ?i = "ws_push_client\<lparr>io_polls := [], io_recvs := []\<rparr>"
  let ?d = "bytes_of (render_request ''/'' [] ws_headers)" and ?out = "bytes_of (switching_protocols [] ''accept'')"
  let ?buf = "?d @ replicate (MAX_SIZE - 116) 0"
  have p: "path_ok ''/''" "query_ok []"
    by (simp_all add: path_ok_def query_ok_def MAX_PATH_LEN_def LF_def NUL_def)
  have k: "length ''dGhlIHNhbXBsZSBub25jZQ=='' = 24" by simp
  have len: "length ?d = 116" "length ?out = 134" by code_simp+
  have t: "length ?t = 116" "length ?t < RECV_SIZE" "116 < RECV_SIZE" using len by (simp_all add: RECV_SIZE_def)
  have h: "wsHandlerFactory ?srv = retA ?h" "wh_subprotocol ?h = []"
    and out: "?out = bytes_of (switching_protocols (wh_subprotocol ?h) (base64 ?srv (sha1 ?srv (x @ WS_GUID))))" for x
    by (simp_all add: serve_ws_push_def http_server_of_def ws_push_factory_def ws_push_handler_def default_subprotocol_def)
  have connect: "fst (wh_onConnect ?h i) = Inr ()" for i
    by (simp add: ws_push_handler_def ws_push_onConnect_def on_manager_def log_io_def thenA_app)
  have ready: "conn_ready (length ?out + 0) ?i" "length ?out < 2 ^ 64"
    using len(2) by (simp_all add: conn_ready_def io_willing_def io_start_def)
  from request_done_upgrade [OF p ws_headers_ok k refl t(2) h(1) out ready(2,1) connect] obtain i1 where
    run: "request_done ?srv ?t (waiting ?t, ?i) = (Inr (), (upgraded ''/'' ws_headers ?h, snd (wh_onConnect ?h i1)))"
    and i1: "io_rest i1 = io_rest (?i\<lparr>io_log := io_log ?i @ [Log_Request ''GET_WS'' ''/'']\<rparr>)" by blast
  have user: "io_user (snd (wh_onConnect ?h i1)) = [1]"
    using io_restD(7) [OF i1]
    by (simp add: ws_push_handler_def ws_push_onConnect_def on_manager_def log_io_def thenA_app io_start_def insort_insert_key_def)
  have "take 116 ?buf = ?d" using len(1) by simp
  then have "http_onReceive ?srv ?buf 116 (waiting [], ?i) = request_done ?srv ?t (waiting ?t, ?i)"
    using receive_segment [of 116 ?buf "[]" ?t ?srv ?i] t render_request_ends [of "''/''" "[]" ws_headers] by simp
  moreover have "loop_iter (http_handler ?srv) None (replicate MAX_SIZE 0) (http_fsm_new, ws_push_client) =
      thenA (http_onReceive ?srv ?buf 116) (retA (Some ?buf)) (waiting [], ?i)"
    using t(1) by (simp add: loop_iter_def http_handler_def bindA_app thenA_app on_io_app isReadable_ready POLLIN_def
        sock_read_def NUM_EOF_def NUM_CONTINUE_def waiting_Nil io_start_def MAX_SIZE_def)
  ultimately show ?thesis
    using run user by (simp add: thenA_app upgraded_def)
qed

text \<open>C38. In any interleaving of the pusher, the workers, the server's thread and signals in which no worker is
  ended by an exception, the manager holds exactly the WebSocket connections, from the answer to their upgrade to their
  \<^verbatim>\<open>onDisconnect\<close>, each once; the pusher never follows a dangling pointer, and it leaves a client
  alone that has not been upgraded.\<close>

theorem ws_push_manager_exact:
  assumes "ws_push_run (\<lambda>c. serve_ws_push c sha b64 al) max_clients ws_push_start labs S" and "\<forall>k. Fails k \<notin> set labs"
  shows "set (wp_manager S) = {c. \<exists>t. wp_workers S c = Some t \<and> listed t} \<and> distinct (wp_manager S)
    \<and> wp_pusher S \<noteq> Pu_Halted (UB Dangling_Pointer)
    \<and> (\<forall>c t. wp_workers S c = Some t \<and> \<not> listed t \<longrightarrow> wp_workers (ws_pusher_step S) c = Some t)"
proof -
  have exact: "ws_exact S" by (rule ws_exact_run [OF assms(1) ws_exact_start assms(2)])
  have "c \<in> set (wp_manager S) \<longleftrightarrow> (\<exists>t. wp_workers S c = Some t \<and> listed t)" for c
    using ws_exactD(3) [OF exact] enrolled_member [OF ws_exactD(2) [OF exact]] by blast
  then show ?thesis
    using ws_exactD(1,5) [OF exact] ws_pusher_others [OF exact] by auto
qed

theorem ws_push_manager_exact_witness:
  "\<exists>S. ws_push_run demo_push_server 2 ws_push_start
      [Admit 1 ws_push_client (replicate MAX_SIZE 0), Works 1, Works 1, Pushes] S
    \<and> set (wp_manager S) = {c. \<exists>t. wp_workers S c = Some t \<and> listed t}
    \<and> wp_manager S = [1] \<and> wp_pusher S = Pu_Pushing 0 [1]"
proof -
  let ?buf = "replicate MAX_SIZE (0 :: byte)" and ?run = "ws_push_run demo_push_server 2"
  let ?t = "thread_start http_fsm_new ws_push_client ?buf"
  let ?S1 = "ws_push_admit 1 ws_push_client ?buf (ws_push_cleanup ws_push_start)"
  let ?S2 = "?S1\<lparr>wp_workers := (wp_workers ?S1)(1 \<mapsto> ?t\<lparr>th_pc := In_Loop\<rparr>), wp_manager := []\<rparr>"
  obtain buf f i where iter: "loop_iter (http_handler (demo_push_server 1)) None ?buf (http_fsm_new, ws_push_client) =
      (Inr (Some buf), (f, i))" "is_ws (curState f)" "io_user i = [1]"
    using demo_client_listed by blast
  let ?t3 = "?t\<lparr>th_pc := In_Loop, th_buf := buf, th_worker := \<lparr>wk_state = (f, i), wk_isActive = True\<rparr>\<rparr>"
  let ?S3 = "?S2\<lparr>wp_workers := (wp_workers ?S2)(1 \<mapsto> ?t3), wp_manager := [1]\<rparr>"
  note defs = ws_push_start_def ws_push_cleanup_def ws_push_admit_def ws_alive_def ws_accepting_def ws_active_def
    ws_mutex_free_def ws_seen_def thread_start_def worker_start_def th_over_def pusher_over_def
    ws_push_worker_step_def th_share_def th_set_state_def th_state_def thread_step_def th_do_def
  have shared: "ws_push_client\<lparr>io_user := []\<rparr> = ws_push_client"
    by (simp add: io_start_def)
  have s1: "ws_push_step demo_push_server 2 ws_push_start (Admit 1 ws_push_client ?buf) ?S1"
    by (rule ws_push_step.admit) (simp_all add: defs)
  let ?t2 = "?t\<lparr>th_pc := In_Loop\<rparr>"
  have w1: "ws_push_worker_step demo_push_server 1 (ws_seen ?S1) (wp_manager ?S1) ?t = (?t2, [])"
    by (simp add: defs http_handler_def io_start_def)
  have "ws_push_worker_step demo_push_server 1 None [] ((thread_start http_fsm_new client ?buf)\<lparr>th_pc := In_Loop\<rparr>) = (?t3, [1])"
    if "loop_iter (http_handler (demo_push_server 1)) None ?buf (http_fsm_new, client) = (Inr (Some buf), (f, i))"
      "client\<lparr>io_user := []\<rparr> = client" for client
    using that iter(3) by (simp add: defs)
  note worked = this [OF iter(1) shared]
  have at2: "ws_seen ?S2 = None" "wp_manager ?S2 = []" by (simp_all add: defs)
  have w2: "ws_push_worker_step demo_push_server 1 (ws_seen ?S2) (wp_manager ?S2) ?t2 = (?t3, [1])"
    unfolding at2 by (rule worked)
  have at: "ws_alive ?S1" "wp_workers ?S1 1 = Some ?t" "\<not> th_over ?t" "ws_mutex_free ?S1"
    "ws_alive ?S2" "wp_workers ?S2 1 = Some ?t2" "\<not> th_over ?t2" "ws_mutex_free ?S2"
    by (simp_all add: defs)
  have s2: "ws_push_step demo_push_server 2 ?S1 (Works 1) ?S2"
    using ws_push_step.work [OF at(1-3) w1 disjI1 [OF at(4)], of 2] by simp
  have s3: "ws_push_step demo_push_server 2 ?S2 (Works 1) ?S3"
    using ws_push_step.work [OF at(5-7) w2 disjI1 [OF at(8)], of 2] by simp
  have s4: "ws_push_step demo_push_server 2 ?S3 Pushes (ws_pusher_step ?S3)"
    by (rule ws_push_step.pusher) (simp_all add: defs)
  have final: "wp_manager (ws_pusher_step ?S3) = [1]" "wp_pusher (ws_pusher_step ?S3) = Pu_Pushing 0 [1]"
    by (simp_all add: ws_pusher_step_def ws_push_admit_def ws_push_cleanup_def ws_push_start_def)
  have "?run ws_push_start (((([] @ [Admit 1 ws_push_client ?buf]) @ [Works 1]) @ [Works 1]) @ [Pushes]) (ws_pusher_step ?S3)"
    by (intro ws_push_run.step [OF _ s4] ws_push_run.step [OF _ s3] ws_push_run.step [OF _ s2]
        ws_push_run.step [OF _ s1] ws_push_run.stop)
  then have run: "?run ws_push_start [Admit 1 ws_push_client ?buf, Works 1, Works 1, Pushes] (ws_pusher_step ?S3)" by simp
  have "\<forall>k. Fails k \<notin> set [Admit 1 ws_push_client ?buf, Works 1, Works 1, Pushes]" by simp
  from ws_push_manager_exact [OF run this] run final show ?thesis by blast
qed

end
