(* ===== verification/Ws_Push_Shutdown.thy ===== *)
theory Ws_Push_Shutdown
  imports Ws_Push_System Tcp_System
begin

text \<open>
  The end of the WebSocket push server: from a signal on, every step of a thread brings the program closer to its
  end, and where no thread can move all of it has ended. The threads are those of \<open>Ws_Push_System\<close>, with any
  HTTP and WebSocket handlers; how far a worker is from its end is \<open>th_left\<close> of \<open>Tcp_System\<close>.
\<close>

section \<open>What holds of every run\<close>

definition ws_sane :: "nat \<Rightarrow> ws_push_system \<Rightarrow> bool" where
  "ws_sane max_clients S \<longleftrightarrow> finite (dom (wp_workers S)) \<and> card (dom (wp_workers S)) \<le> max_clients
   \<and> (\<forall>c t. wp_workers S c = Some t \<longrightarrow> (wk_isActive (th_worker t) \<longleftrightarrow> th_pc t \<noteq> Ended))
   \<and> (\<forall>cnt cs. wp_pusher S = Pu_Pushing cnt cs \<longrightarrow> length cs \<le> length (wp_manager S))
   \<and> (wp_server S = Push_Returned \<longrightarrow> wp_workers S = Map.empty)"

lemma ws_saneD:
  assumes "ws_sane max_clients S"
  shows "finite (dom (wp_workers S))" and "card (dom (wp_workers S)) \<le> max_clients"
    and "wp_workers S c = Some t \<Longrightarrow> wk_isActive (th_worker t) \<longleftrightarrow> th_pc t \<noteq> Ended"
    and "wp_pusher S = Pu_Pushing cnt cs \<Longrightarrow> length cs \<le> length (wp_manager S)"
    and "wp_server S = Push_Returned \<Longrightarrow> wp_workers S = Map.empty"
  using assms by (auto simp: ws_sane_def)

lemma ws_sane_start: "ws_sane max_clients ws_push_start"
  by (simp add: ws_sane_def ws_push_start_def)

lemma ws_cleanup_frame [simp]:
  "wp_manager (ws_push_cleanup S) = wp_manager S" "wp_pusher (ws_push_cleanup S) = wp_pusher S"
  "wp_server (ws_push_cleanup S) = wp_server S" "wp_signalStatus (ws_push_cleanup S) = wp_signalStatus S"
  by (simp_all add: ws_push_cleanup_def)

lemma ws_cleanup_workers: "wp_workers (ws_push_cleanup S) \<subseteq>\<^sub>m wp_workers S"
  by (auto simp: ws_push_cleanup_def map_le_def split: if_splits)

lemma ws_sane_cleanup:
  assumes "ws_sane max_clients S"
  shows "ws_sane max_clients (ws_push_cleanup S)"
proof -
  have dom: "dom (wp_workers (ws_push_cleanup S)) \<subseteq> dom (wp_workers S)"
    by (rule map_le_implies_dom_le [OF ws_cleanup_workers])
  have "card (dom (wp_workers (ws_push_cleanup S))) \<le> max_clients"
    using card_mono [OF ws_saneD(1) [OF assms] dom] ws_saneD(2) [OF assms] by simp
  moreover have "finite (dom (wp_workers (ws_push_cleanup S)))"
    by (rule finite_subset [OF dom ws_saneD(1) [OF assms]])
  moreover have "wp_workers S c = Some t" if "wp_workers (ws_push_cleanup S) c = Some t" for c t
    using that by (auto simp: ws_push_cleanup_def split: if_splits)
  moreover have "wp_server S = Push_Returned \<Longrightarrow> wp_workers (ws_push_cleanup S) = Map.empty"
    using ws_saneD(5) [OF assms] by (auto simp: ws_push_cleanup_def fun_eq_iff)
  ultimately show ?thesis
    using ws_saneD(3,4) [OF assms] unfolding ws_sane_def ws_cleanup_frame by blast
qed

lemma share_frame [simp]:
  "th_pc (th_share manager t) = th_pc t" "wk_isActive (th_worker (th_share manager t)) = wk_isActive (th_worker t)"
  by (simp_all add: th_share_def th_set_state_def)

lemma worker_step_sane:
  assumes "wk_isActive (th_worker t) \<longleftrightarrow> th_pc t \<noteq> Ended"
    and "ws_push_worker_step srv c sig manager t = (t', manager')"
  shows "wk_isActive (th_worker t') \<longleftrightarrow> th_pc t' \<noteq> Ended"
  using thread_step_active [of "th_share manager t" "http_handler (srv c)" sig] assms
  by (auto simp: ws_push_worker_step_def Let_def)

text \<open>The pusher leaves everything of the workers alone but the connections it writes to.\<close>

lemma ws_pusher_frame [simp]:
  "wp_manager (ws_pusher_step S) = wp_manager S" "wp_server (ws_pusher_step S) = wp_server S"
  "wp_signalStatus (ws_pusher_step S) = wp_signalStatus S"
  by (simp_all add: ws_pusher_step_def split: pusher_pc.split list.split sum.split prod.split stop.split)

lemma ws_pusher_sends:
  "wp_workers (ws_pusher_step S) = wp_workers S
   \<or> (\<exists>c m. wp_workers (ws_pusher_step S) = snd (ws_send_to c m (wp_workers S)))"
proof (cases "\<exists>cnt c cs. wp_pusher S = Pu_Pushing cnt (c # cs)")
  case True
  then obtain cnt c cs where p: "wp_pusher S = Pu_Pushing cnt (c # cs)" by blast
  then have "wp_workers (ws_pusher_step S) = snd (ws_send_to c (ws_push_send cnt) (wp_workers S))"
    by (simp add: ws_pusher_step_def split: prod.split sum.split stop.split)
  then show ?thesis by blast
next
  case False
  then show ?thesis by (auto simp: ws_pusher_step_def split: pusher_pc.split list.split)
qed

definition same_place :: "ws_thread \<Rightarrow> ws_thread \<Rightarrow> bool" where
  "same_place t u \<longleftrightarrow> th_pc u = th_pc t \<and> wk_isActive (th_worker u) = wk_isActive (th_worker t)"

lemma ws_send_to_places: "rel_option same_place (ws d) (snd (ws_send_to c m ws) d)"
proof (cases "ws c")
  case None
  then show ?thesis by (simp add: ws_send_to_def option.rel_refl same_place_def)
next
  case (Some t)
  obtain r i where "m (snd (th_state t)) = (r, i)" by (metis surj_pair)
  with Some show ?thesis
    by (simp add: ws_send_to_def th_set_state_def option.rel_refl same_place_def)
qed

lemma ws_pusher_places: "rel_option same_place (wp_workers S c) (wp_workers (ws_pusher_step S) c)"
  using ws_pusher_sends [of S] ws_send_to_places by (metis option.rel_refl same_place_def)

lemma ws_pusher_dom: "dom (wp_workers (ws_pusher_step S)) = dom (wp_workers S)"
proof -
  have "wp_workers (ws_pusher_step S) c = None \<longleftrightarrow> wp_workers S c = None" for c
    using ws_pusher_places [of S c] by (cases rule: option.rel_cases) simp_all
  then show ?thesis by (simp add: dom_def)
qed

lemma ws_pusher_Some:
  "wp_workers (ws_pusher_step S) c = Some t \<Longrightarrow> \<exists>u. wp_workers S c = Some u \<and> same_place u t"
  using ws_pusher_places [of S c] by (auto simp: option_rel_Some2)

lemma ws_sane_step:
  assumes "ws_push_step srv max_clients S lab S'" and "ws_sane max_clients S"
  shows "ws_sane max_clients S'"
  using assms(1)
proof (cases rule: ws_push_step.cases)
  case (admit c i buf)
  let ?S = "ws_push_cleanup S"
  have "card (insert c (dom (wp_workers ?S))) \<le> max_clients"
    using admit(5,6) ws_saneD(1) [OF ws_sane_cleanup [OF assms(2)]] by (simp add: card_insert_if)
  with admit ws_sane_cleanup [OF assms(2)] show ?thesis
    by (auto simp: ws_sane_def ws_push_admit_def ws_accepting_def thread_start_def worker_start_def)
next
  case turn_away
  with ws_sane_cleanup [OF assms(2)] show ?thesis by simp
next
  case leave
  with assms(2) show ?thesis by (auto simp: ws_sane_def)
next
  case destroy
  have "\<not> ws_active (wp_workers S c)" for c
    using destroy(5) ws_saneD(3) [OF assms(2)] by (auto simp: ws_active_def split: option.split)
  then have "wp_workers (ws_push_cleanup S) = Map.empty"
    by (simp add: ws_push_cleanup_def fun_eq_iff)
  with destroy ws_sane_cleanup [OF assms(2)] show ?thesis by (auto simp: ws_sane_def)
next
  case (work c t t' manager)
  have "dom ((wp_workers S)(c \<mapsto> t')) = dom (wp_workers S)" using work(4) by auto
  moreover have "wp_server S \<noteq> Push_Returned" using ws_saneD(5) [OF assms(2)] work(4) by auto
  ultimately show ?thesis
    using work assms(2) worker_step_sane [OF ws_saneD(3) [OF assms(2) work(4)] work(6)]
    by (auto simp: ws_sane_def ws_mutex_free_def)
next
  case pusher
  have "length cs \<le> length (wp_manager S)" if "wp_pusher (ws_pusher_step S) = Pu_Pushing cnt cs" for cnt cs
    using that ws_saneD(4) [OF assms(2)]
    by (fastforce simp: ws_pusher_step_def split: pusher_pc.splits list.splits sum.splits prod.splits stop.splits if_splits)
  moreover have "wk_isActive (th_worker t) \<longleftrightarrow> th_pc t \<noteq> Ended" if "wp_workers (ws_pusher_step S) c = Some t" for c t
    using ws_pusher_Some [OF that] ws_saneD(3) [OF assms(2)] by (metis same_place_def)
  moreover have "wp_server S = Push_Returned \<Longrightarrow> wp_workers (ws_pusher_step S) = Map.empty"
    using ws_saneD(5) [OF assms(2)] ws_pusher_dom [of S] by (metis dom_eq_empty_conv)
  ultimately show ?thesis
    using ws_saneD(1,2) [OF assms(2)] pusher(2) by (simp add: ws_sane_def ws_pusher_dom)
next
  case (signal n)
  with assms(2) show ?thesis by (simp add: ws_sane_def)
qed

lemma ws_sane_run:
  "ws_push_run srv max_clients S labs S' \<Longrightarrow> ws_sane max_clients S \<Longrightarrow> ws_sane max_clients S'"
  by (induction rule: ws_push_run.induct) (auto intro: ws_sane_step)

section \<open>Every step counts\<close>

definition ws_workers_left :: "(nat \<Rightarrow> ws_thread option) \<Rightarrow> nat" where
  "ws_workers_left ws = sum (\<lambda>c. case ws c of None \<Rightarrow> 0 | Some t \<Rightarrow> th_left t) (dom ws)"

definition ws_left :: "ws_push_system \<Rightarrow> nat" where
  "ws_left S = ws_workers_left (wp_workers S) + pusher_left (wp_pusher S) + server_left (wp_server S)"

lemma ws_left_bound:
  assumes "ws_sane max_clients S"
  shows "ws_left S \<le> 4 * max_clients + length (wp_manager S) + 4"
proof -
  have "ws_workers_left (wp_workers S) \<le> of_nat (card (dom (wp_workers S))) * 4"
    unfolding ws_workers_left_def by (rule sum_bounded_above) (auto simp: th_left_def split: option.split pc.split)
  moreover have "pusher_left (wp_pusher S) \<le> length (wp_manager S) + 2"
    using ws_saneD(4) [OF assms] by (cases "wp_pusher S") (simp_all add: pusher_left_def)
  moreover have "server_left (wp_server S) \<le> 2"
    by (simp add: server_left_def split: push_server_pc.split)
  ultimately show ?thesis
    using ws_saneD(2) [OF assms] by (simp add: ws_left_def)
qed

lemma workers_left_update:
  assumes "finite (dom ws)" and "ws c = Some t" and "th_left t' < th_left t"
  shows "ws_workers_left (ws(c \<mapsto> t')) < ws_workers_left ws"
proof -
  have "dom (ws(c \<mapsto> t')) = dom ws" using assms(2) by auto
  moreover have "sum (\<lambda>d. case (ws(c \<mapsto> t')) d of None \<Rightarrow> 0 | Some t \<Rightarrow> th_left t) (dom ws)
      < sum (\<lambda>d. case ws d of None \<Rightarrow> 0 | Some t \<Rightarrow> th_left t) (dom ws)"
    using assms by (intro sum_strict_mono_ex1) auto
  ultimately show ?thesis unfolding ws_workers_left_def by (simp only:)
qed

lemma workers_left_cleanup:
  assumes "ws_sane max_clients S"
  shows "ws_workers_left (wp_workers (ws_push_cleanup S)) \<le> ws_workers_left (wp_workers S)"
proof -
  let ?ws = "wp_workers (ws_push_cleanup S)"
  have "ws_workers_left ?ws = sum (\<lambda>c. case wp_workers S c of None \<Rightarrow> 0 | Some t \<Rightarrow> th_left t) (dom ?ws)"
    unfolding ws_workers_left_def by (rule sum.cong) (auto simp: ws_push_cleanup_def split: if_splits)
  also have "\<dots> \<le> ws_workers_left (wp_workers S)"
    unfolding ws_workers_left_def
    by (rule sum_mono2 [OF ws_saneD(1) [OF assms] map_le_implies_dom_le [OF ws_cleanup_workers]]) simp
  finally show ?thesis .
qed

lemma workers_left_pusher: "ws_workers_left (wp_workers (ws_pusher_step S)) = ws_workers_left (wp_workers S)"
proof -
  have "(case wp_workers (ws_pusher_step S) c of None \<Rightarrow> 0 | Some t \<Rightarrow> th_left t) =
      (case wp_workers S c of None \<Rightarrow> 0 | Some t \<Rightarrow> th_left t)" if "c \<in> dom (wp_workers S)" for c
    using ws_pusher_places [of S c] by (cases rule: option.rel_cases) (simp_all add: th_left_def same_place_def)
  then show ?thesis
    unfolding ws_workers_left_def ws_pusher_dom by (rule sum.cong [OF refl])
qed

lemma worker_step_left:
  assumes "ws_push_worker_step srv c (Some n) manager t = (t', manager')" and "n \<noteq> 0" and "\<not> th_over t"
  shows "th_left t' < th_left t"
proof -
  let ?u = "th_share manager t"
  have "t' = thread_step (http_handler (srv c)) (Some n) ?u"
    using assms(1) by (auto simp: ws_push_worker_step_def Let_def)
  moreover have "\<not> th_over ?u" "th_left ?u = th_left t" using assms(3) by (simp_all add: th_over_def th_left_def)
  ultimately show ?thesis using th_left_step [OF assms(2), of ?u] by metis
qed

lemma ws_left_step:
  assumes "ws_push_step srv max_clients S lab S'" and "ws_sane max_clients S" and "wp_signalStatus S \<noteq> NO_SIGNAL"
    and "\<forall>n. lab \<noteq> Signal n"
  shows "ws_left S' < ws_left S \<and> wp_signalStatus S' \<noteq> NO_SIGNAL"
  using assms(1)
proof (cases rule: ws_push_step.cases)
  case leave
  with assms(3) show ?thesis by (simp add: ws_left_def server_left_def)
next
  case destroy
  with assms(3) workers_left_cleanup [OF assms(2)] show ?thesis by (simp add: ws_left_def server_left_def)
next
  case (work c t t' manager)
  have "th_left t' < th_left t"
    using worker_step_left [OF _ _ work(5)] work(6) assms(3) by (simp add: ws_seen_def NO_SIGNAL_def)
  from workers_left_update [OF ws_saneD(1) [OF assms(2)] work(4) this] assms(3) work(2) show ?thesis
    by (simp add: ws_left_def)
next
  case pusher
  have "pusher_left (wp_pusher (ws_pusher_step S)) < pusher_left (wp_pusher S)"
    using pusher(4) assms(3)
    by (auto simp: ws_pusher_step_def pusher_left_def pusher_over_def
        split: pusher_pc.split list.split sum.split prod.split stop.split)
  with pusher(2) assms(3) show ?thesis by (simp add: ws_left_def workers_left_pusher)
qed (use assms(3,4) in \<open>simp_all add: ws_accepting_def\<close>)

lemma ws_left_run:
  "ws_push_run srv max_clients S labs S' \<Longrightarrow> ws_sane max_clients S \<Longrightarrow> wp_signalStatus S \<noteq> NO_SIGNAL \<Longrightarrow>
   \<forall>n. Signal n \<notin> set labs \<Longrightarrow> length labs + ws_left S' \<le> ws_left S \<and> wp_signalStatus S' \<noteq> NO_SIGNAL"
proof (induction rule: ws_push_run.induct)
  case (step S labs S' lab S'')
  from ws_left_step [OF step(2) ws_sane_run [OF step(1,4)]] step show ?case by fastforce
qed simp

section \<open>Nothing waits for ever\<close>

lemma ws_progress:
  assumes "ws_sane max_clients S" and "wp_signalStatus S \<noteq> NO_SIGNAL"
    and "\<forall>lab S'. ws_push_step srv max_clients S lab S' \<longrightarrow> (\<exists>n. lab = Signal n)"
    and "\<forall>e. wp_pusher S \<noteq> Pu_Halted e" and "\<forall>c t e. wp_workers S c = Some t \<longrightarrow> th_pc t \<noteq> Halted e"
  shows "wp_server S = Push_Returned \<and> wp_pusher S = Pu_Ended \<and> wp_workers S = Map.empty"
proof -
  have alive: "ws_alive S"
    using assms(4) by (auto simp: ws_alive_def split: pusher_pc.split)
  have "pusher_over (wp_pusher S)"
    using ws_push_step.pusher [OF alive, of srv max_clients] assms(3) by blast
  with assms(4) have pusher: "wp_pusher S = Pu_Ended" by (simp add: pusher_over_def split: pusher_pc.splits)
  then have free: "ws_mutex_free S" by (simp add: ws_mutex_free_def)
  have ended: "th_pc t = Ended" if t: "wp_workers S c = Some t" for c t
  proof -
    obtain t' manager where step: "ws_push_worker_step srv c (ws_seen S) (wp_manager S) t = (t', manager)" by fastforce
    have "th_over t"
    proof (rule ccontr)
      assume "\<not> th_over t"
      from ws_push_step.work [OF alive t this step disjI1 [OF free], of max_clients] assms(3) show False
        by (cases "th_pc t' = Ended \<and> th_pc t \<noteq> At_Close") fastforce+
    qed
    with assms(5) t show ?thesis by (auto simp: th_over_def)
  qed
  have "wp_server S \<noteq> Push_Serving"
    using ws_push_step.leave [OF alive _ assms(2), of srv max_clients] assms(3) by blast
  moreover have "wp_server S \<noteq> Push_Joining"
    using ws_push_step.destroy [OF alive, of srv max_clients] ended assms(3) by blast
  ultimately have "wp_server S = Push_Returned" by (cases "wp_server S") simp_all
  with pusher ws_saneD(5) [OF assms(1)] show ?thesis by simp
qed

section \<open>Properties\<close>

text \<open>The server after a signal with one client, which has not asked for anything.\<close>

definition quitting_server :: "push_server_pc \<Rightarrow> pusher_pc \<Rightarrow> (nat \<Rightarrow> ws_thread option) \<Rightarrow> ws_push_system" where
  "quitting_server sv p ws =
     \<lparr>wp_manager = [], wp_workers = ws, wp_signalStatus = 15, wp_server = sv, wp_pusher = p\<rparr>"

abbreviation early_client :: "pc \<Rightarrow> nat list io \<Rightarrow> ws_thread" where
  "early_client pc i \<equiv> \<lparr>th_pc = pc, th_worker = \<lparr>wk_state = (http_fsm_new, i), wk_isActive = pc \<noteq> Ended\<rparr>, th_buf = []\<rparr>"

lemma quit_client:
  "ws_push_worker_step demo_push_server 1 (Some 15) [] (early_client At_Connect i) =
     (early_client In_Loop (i\<lparr>io_user := []\<rparr>), [])"
  "ws_push_worker_step demo_push_server 1 (Some 15) [] (early_client In_Loop i) =
     (early_client At_Disconnect (i\<lparr>io_user := [], io_signalStatus := 15\<rparr>), [])"
  "ws_push_worker_step demo_push_server 1 (Some 15) [] (early_client At_Disconnect i) =
     (early_client At_Close (i\<lparr>io_user := []\<rparr>), [])"
  "ws_push_worker_step demo_push_server 1 (Some 15) [] (early_client At_Close i) =
     (early_client Ended (i\<lparr>io_user := [], io_fd_open := False\<rparr>), [])"
  by (simp_all add: ws_push_worker_step_def th_share_def th_set_state_def th_state_def thread_step_def th_do_def
      http_handler_def loop_iter_def bindA_app on_io_app quitCondition_def sigHandler_def NO_SIGNAL_def sock_close_def
      http_onDisconnect_def http_fsm_new_def)

lemma quit_work:
  assumes "ws_push_worker_step demo_push_server 1 (Some 15) [] (early_client pc i) = (early_client pc' i', [])"
    and "pc \<in> {At_Connect, In_Loop, At_Disconnect, At_Close}" and "pc' = Ended \<longrightarrow> pc = At_Close"
    and "p = Pu_Check k \<or> p = Pu_Ended"
  shows "ws_push_step demo_push_server 2 (quitting_server sv p [1 \<mapsto> early_client pc i]) (Works 1)
    (quitting_server sv p [1 \<mapsto> early_client pc' i'])"
  using ws_push_step.work [of "quitting_server sv p [1 \<mapsto> early_client pc i]" 1 "early_client pc i" demo_push_server
      "early_client pc' i'" "[]" 2] assms
  by (auto simp: quitting_server_def ws_alive_def ws_seen_def NO_SIGNAL_def th_over_def ws_mutex_free_def)

lemmas quit_works = quit_work [OF quit_client(1), simplified] quit_work [OF quit_client(2), simplified]
  quit_work [OF quit_client(3), simplified] quit_work [OF quit_client(4), simplified]

lemma quit_pusher:
  "ws_push_step srv max_clients (quitting_server sv (Pu_Pushing k []) ws) Pushes (quitting_server sv (Pu_Check (Suc k)) ws)"
  "ws_push_step srv max_clients (quitting_server sv (Pu_Check k) ws) Pushes (quitting_server sv Pu_Ended ws)"
  using ws_push_step.pusher [of "quitting_server sv (Pu_Pushing k []) ws" srv max_clients]
    ws_push_step.pusher [of "quitting_server sv (Pu_Check k) ws" srv max_clients]
  by (simp_all add: quitting_server_def ws_alive_def pusher_over_def ws_pusher_step_def NO_SIGNAL_def)

lemma quit_server:
  "p = Pu_Ended \<Longrightarrow> ws_push_step srv max_clients (quitting_server Push_Serving p ws) Leave (quitting_server Push_Joining p ws)"
  "p = Pu_Ended \<Longrightarrow> \<forall>c t. ws c = Some t \<longrightarrow> th_pc t = Ended \<and> \<not> wk_isActive (th_worker t) \<Longrightarrow>
   ws_push_step srv max_clients (quitting_server Push_Joining p ws) Destroy (quitting_server Push_Returned p Map.empty)"
proof -
  show "p = Pu_Ended \<Longrightarrow> ws_push_step srv max_clients (quitting_server Push_Serving p ws) Leave (quitting_server Push_Joining p ws)"
    using ws_push_step.leave [of "quitting_server Push_Serving p ws" srv max_clients]
    by (simp add: quitting_server_def ws_alive_def NO_SIGNAL_def)
  assume p: "p = Pu_Ended" and ws: "\<forall>c t. ws c = Some t \<longrightarrow> th_pc t = Ended \<and> \<not> wk_isActive (th_worker t)"
  then have "(\<lambda>c. if ws_active (ws c) then ws c else None) = Map.empty"
    by (auto simp: ws_active_def fun_eq_iff split: option.split)
  with p ws ws_push_step.destroy [of "quitting_server Push_Joining p ws" srv max_clients]
  show "ws_push_step srv max_clients (quitting_server Push_Joining p ws) Destroy (quitting_server Push_Returned p Map.empty)"
    by (simp add: quitting_server_def ws_alive_def ws_push_cleanup_def cong: if_cong)
qed

lemma ws_push_run_Cons:
  assumes "ws_push_step srv max_clients S lab S1" and "ws_push_run srv max_clients S1 labs S'"
  shows "ws_push_run srv max_clients S (lab # labs) S'"
  using assms(2,1)
proof (induction rule: ws_push_run.induct)
  case (stop S1)
  then show ?case using ws_push_run.step [OF ws_push_run.stop] by fastforce
next
  case (step S1 labs S2 lab' S3)
  from ws_push_run.step [OF step(3) [OF step(4)] step(2)] show ?case by simp
qed

text \<open>C40. Shutdown of the WebSocket push server, whatever handlers serve its clients: from the moment a signal has
  come, the threads can make at most four steps for each of \<^verbatim>\<open>maxClients\<close>, one for each connection in the
  manager, and four more, in any order; and when none can move, \<^verbatim>\<open>serve\<close> has returned, the pusher has
  ended and every worker is destroyed, unless a thread is stuck for good in a call of the kernel or the
  process has been ended.\<close>

theorem ws_push_shutdown:
  assumes "ws_push_run srv max_clients ws_push_start labs S" and "wp_signalStatus S \<noteq> NO_SIGNAL"
    and "ws_push_run srv max_clients S labs' S'" and "\<forall>n. Signal n \<notin> set labs'"
  shows "length labs' \<le> 4 * max_clients + length (wp_manager S) + 4
    \<and> ((\<forall>lab S''. ws_push_step srv max_clients S' lab S'' \<longrightarrow> (\<exists>n. lab = Signal n))
        \<and> (\<forall>e. wp_pusher S' \<noteq> Pu_Halted e) \<and> (\<forall>c t e. wp_workers S' c = Some t \<longrightarrow> th_pc t \<noteq> Halted e)
      \<longrightarrow> wp_server S' = Push_Returned \<and> wp_pusher S' = Pu_Ended \<and> wp_workers S' = Map.empty)"
proof -
  have sane: "ws_sane max_clients S" by (rule ws_sane_run [OF assms(1) ws_sane_start])
  have left: "length labs' + ws_left S' \<le> ws_left S" and sig: "wp_signalStatus S' \<noteq> NO_SIGNAL"
    using ws_left_run [OF assms(3) sane assms(2,4)] by simp_all
  have "length labs' \<le> 4 * max_clients + length (wp_manager S) + 4"
    using left ws_left_bound [OF sane] by linarith
  with ws_progress [OF ws_sane_run [OF assms(3) sane] sig] show ?thesis by blast
qed

theorem ws_push_shutdown_witness:
  "\<exists>S S'. ws_push_run demo_push_server 2 ws_push_start [Admit 1 ws_push_client [], Pushes, Signal 15] S
    \<and> ws_push_run demo_push_server 2 S [Pushes, Works 1, Works 1, Pushes, Works 1, Leave, Works 1, Destroy] S'
    \<and> wp_pusher S' = Pu_Ended \<and> wp_workers S' = Map.empty
    \<and> length [Pushes, Works 1, Works 1, Pushes, Works 1, Leave, Works 1, Destroy :: nat list push_label]
        \<le> 4 * 2 + length (wp_manager S) + 4"
proof -
  let ?a = "[Admit 1 ws_push_client [], Pushes, Signal 15]" and ?run = "ws_push_run demo_push_server 2"
    and ?step = "ws_push_step demo_push_server 2"
  let ?b = "[Pushes, Works 1, Works 1, Pushes, Works 1, Leave, Works 1, Destroy] :: nat list push_label list"
  define i where "i = ws_push_client"
  define S1 where "S1 = ws_push_admit 1 i [] (ws_push_cleanup ws_push_start)"
  define S where "S = (ws_pusher_step S1)\<lparr>wp_signalStatus := 15\<rparr>"
  define S' where "S' = quitting_server Push_Returned Pu_Ended Map.empty"
  note defs = ws_alive_def ws_accepting_def pusher_over_def NO_SIGNAL_def ws_pusher_step_def ws_push_admit_def
    ws_push_cleanup_def ws_push_start_def ws_active_def
  have S: "S = quitting_server Push_Serving (Pu_Pushing 0 []) [1 \<mapsto> early_client At_Connect i]"
    by (simp add: S_def S1_def defs quitting_server_def thread_start_def worker_start_def)
  have "?step ws_push_start (Admit 1 i []) S1"
    unfolding S1_def by (rule ws_push_step.admit) (simp_all add: defs)
  moreover have "?step S1 Pushes (ws_pusher_step S1)"
    by (rule ws_push_step.pusher) (simp_all add: defs S1_def)
  moreover have "?step (ws_pusher_step S1) (Signal 15) S"
    unfolding S_def by (rule ws_push_step.signal) (simp_all add: defs S1_def)
  ultimately have runA: "?run ws_push_start ?a S"
    unfolding i_def by (blast intro: ws_push_run_Cons ws_push_run.stop)
  have runB: "?run S ?b S'"
    unfolding S S'_def
    by (rule ws_push_run_Cons quit_pusher quit_works ws_push_run.stop quit_server refl disjI1 disjI2 | simp)+
  have "wp_signalStatus S \<noteq> NO_SIGNAL" "\<forall>n. Signal n \<notin> set ?b"
    by (simp_all add: S quitting_server_def NO_SIGNAL_def)
  from conjunct1 [OF ws_push_shutdown [OF runA this(1) runB this(2)]] have "length ?b \<le> 4 * 2 + length (wp_manager S) + 4" .
  moreover have "wp_pusher S' = Pu_Ended" "wp_workers S' = Map.empty" by (simp_all add: S'_def quitting_server_def)
  ultimately show ?thesis using runA runB by blast
qed

end
