(* ===== verification/Unit_Tests.thy ===== *)
theory Unit_Tests
  imports Ws_Frame
begin

text \<open>
  The unit tests of \<^verbatim>\<open>test/test_byteorder.cpp\<close> and \<^verbatim>\<open>test/test_ws_frame.cpp\<close>, run on the model: a test case is the list
  of the conditions it requires, or the error its code stops with. The buffers the tests of \<^verbatim>\<open>hton\<close> do not
  initialise are parameters.
\<close>

definition passes :: "bool list res \<Rightarrow> bool" where
  "passes r = (case r of Inl _ \<Rightarrow> False | Inr bs \<Rightarrow> list_all id bs)"

section \<open>The test cases\<close>

definition test_ntoh_uint16 :: "bool list res" where
  "test_ntoh_uint16 = bindR (ntoh [0x01, 0x02] 0) (\<lambda>v. Inr [v = (0x0102 :: 16 word)])"

definition test_ntoh_uint32 :: "bool list res" where
  "test_ntoh_uint32 = bindR (ntoh [0x01, 0x02, 0x03, 0x04] 0) (\<lambda>v. Inr [v = (0x01020304 :: 32 word)])"

definition test_ntoh_uint64 :: "bool list res" where
  "test_ntoh_uint64 =
     bindR (ntoh [0x01, 0x02, 0x03, 0x04, 0x05, 0x06, 0x07, 0x08] 0) (\<lambda>v. Inr [v = (0x0102030405060708 :: 64 word)])"

text \<open>\<open>buf\<close> is what the memory holds; \<open>require_bytes\<close> are the \<^verbatim>\<open>REQUIRE\<close>s on its bytes, one after the other.\<close>

fun require_bytes :: "byte list \<Rightarrow> nat \<Rightarrow> byte list \<Rightarrow> bool list res" where
  "require_bytes buf k [] = Inr []"
| "require_bytes buf k (b # bs) =
     bindR (load buf k) (\<lambda>v. bindR (require_bytes buf (Suc k) bs) (\<lambda>rest. Inr ((v = b) # rest)))"

definition test_hton_uint16 :: "byte list \<Rightarrow> bool list res" where
  "test_hton_uint16 buf = bindR (hton buf 0 (0x0102 :: 16 word)) (\<lambda>buf. require_bytes buf 0 [0x01, 0x02])"

definition test_hton_uint32 :: "byte list \<Rightarrow> bool list res" where
  "test_hton_uint32 buf =
     bindR (hton buf 0 (0x01020304 :: 32 word)) (\<lambda>buf. require_bytes buf 0 [0x01, 0x02, 0x03, 0x04])"

definition test_hton_uint64 :: "byte list \<Rightarrow> bool list res" where
  "test_hton_uint64 buf =
     bindR (hton buf 0 (0x0102030405060708 :: 64 word))
       (\<lambda>buf. require_bytes buf 0 [0x01, 0x02, 0x03, 0x04, 0x05, 0x06, 0x07, 0x08])"

text \<open>The test is called \<^verbatim>\<open>WebSocketFrame::decode\<close>, but what it builds and looks at is a pong.\<close>

definition test_ws_frame :: "bool list res" where
  "test_ws_frame =
     bindR (createPong [0x01, 0x02] 2) (\<lambda>frame.
     bindR (require_bytes (frame_data frame) 0 [0x8A, 0x02, 0x01, 0x02]) (\<lambda>data.
     bindR (payloadLength frame) (\<lambda>n.
     bindR (frame_payload frame) (\<lambda>payload.
     bindR (require_bytes payload 0 [0x01, 0x02]) (\<lambda>bytes.
     bindR (frame_fin frame) (\<lambda>fin.
     Inr ([frame_length frame = 4] @ data @ [n = 2] @ bytes @ [fin])))))))"

section \<open>The suite\<close>

lemma be_bytes_by_value: "length bs = n \<Longrightarrow> be_val bs = x \<Longrightarrow> be_bytes n x = bs"
  using be_bytes_be_val [of bs] by (simp del: be_bytes.simps)

text \<open>The suite passes, whatever the uninitialised buffers hold.\<close>

theorem unit_tests_pass:
  assumes "length b2 = 2" and "length b4 = 4" and "length b8 = 8"
  shows "passes test_ntoh_uint16 \<and> passes test_ntoh_uint32 \<and> passes test_ntoh_uint64
    \<and> passes (test_hton_uint16 b2) \<and> passes (test_hton_uint32 b4) \<and> passes (test_hton_uint64 b8)
    \<and> passes test_ws_frame"
proof -
  have "passes test_ntoh_uint16" "passes test_ntoh_uint32" "passes test_ntoh_uint64" "passes test_ws_frame"
    by code_simp+
  moreover have "be_bytes 2 (unat (0x0102 :: 16 word)) = [0x01, 0x02]"
    and "be_bytes 4 (unat (0x01020304 :: 32 word)) = [0x01, 0x02, 0x03, 0x04]"
    and "be_bytes 8 (unat (0x0102030405060708 :: 64 word)) = [0x01, 0x02, 0x03, 0x04, 0x05, 0x06, 0x07, 0x08]"
    by (rule be_bytes_by_value; simp)+
  then have "hton b2 0 (0x0102 :: 16 word) = Inr [0x01, 0x02]"
    and "hton b4 0 (0x01020304 :: 32 word) = Inr [0x01, 0x02, 0x03, 0x04]"
    and "hton b8 0 (0x0102030405060708 :: 64 word) = Inr [0x01, 0x02, 0x03, 0x04, 0x05, 0x06, 0x07, 0x08]"
    using assms hton_be [of 0 b2 "0x0102 :: 16 word"] hton_be [of 0 b4 "0x01020304 :: 32 word"]
      hton_be [of 0 b8 "0x0102030405060708 :: 64 word"] by (simp_all del: be_bytes.simps)
  ultimately show ?thesis
    by (simp add: test_hton_uint16_def test_hton_uint32_def test_hton_uint64_def passes_def)
qed

end
