(* ===== verification/Spec2Isabelle.thy ===== *)
theory Spec2Isabelle
  imports Http_System Echo_System Tcp_Interleaving Tcp_Atomicity Push_Failure Example_Mains Ws_Push_Shutdown Unit_Tests
begin

text \<open>
  A verification development of CPP Socks, a small framework for TCP, HTTP and WebSocket servers
  (C++11). File names below are relative to the repository.

  \<^bold>\<open>The program.\<close> \<^verbatim>\<open>Tcp::Server::serve\<close> runs on the server's thread: it opens a listening socket,
  accepts clients, starts one worker thread for each (up to \<^verbatim>\<open>maxClients\<close>) and joins the threads
  that have ended. A worker runs a \<^verbatim>\<open>ServerHandler\<close>: \<^verbatim>\<open>onConnect\<close>, then \<^verbatim>\<open>onReceive\<close> for every
  segment that arrives, until a signal, the end of file or \<^verbatim>\<open>Connection::close\<close>, then
  \<^verbatim>\<open>onDisconnect\<close>. Handlers write with \<^verbatim>\<open>Connection::send\<close>. The HTTP layer is one such handler, a
  state machine: the initial state collects and parses a request, the GET state answers it through
  an application's \<^verbatim>\<open>HttpHandler\<close>, the WebSocket state upgrades the connection, decodes frames and
  calls an application's \<^verbatim>\<open>WsHandler\<close>. The examples are servers built from these parts.

  \<^bold>\<open>Theories.\<close> Each theory holds a component's definitions, in the order of the code, then its lemmas
  and properties.

    \<^item> \<open>Prelude\<close>: bytes, bounds-checked loads, stores and \<^verbatim>\<open>memcpy\<close>, C strings, the results of calls
      and the actions (state passing with exceptions), the calculus \<open>keeps\<close> of preserved predicates.
    \<^item> \<open>Action_Triples\<close>: pre- and postconditions of actions, for code whose steps change what holds.
    \<^item> \<open>Byte_Order\<close>: \<^verbatim>\<open>ntoh\<close> and \<^verbatim>\<open>hton\<close> of \<^verbatim>\<open>src/tcp/socks_tcp_util.hpp\<close>.
    \<^item> \<open>Ws_Frame\<close>: \<^verbatim>\<open>WebSocketFrame\<close> of \<^verbatim>\<open>src/http/socks_ws_frame.{hpp,cpp}\<close>; \<open>rfc_frame\<close> is the
      specification both directions are proved against.
    \<^item> \<open>Posix_Socket\<close>, \<open>Posix_Listen\<close>, \<open>Posix_Signal\<close>: \<^verbatim>\<open>examples/system_context/system_posix.cpp\<close>,
      the socket of a connection with the quit condition, the listening side, and the registration and
      delivery of signals.
    \<^item> \<open>Tcp_Connection\<close>: \<^verbatim>\<open>Connection\<close> of \<^verbatim>\<open>src/tcp/socks_tcp_handler.hpp\<close>.
    \<^item> \<open>Tcp_Worker\<close>: \<^verbatim>\<open>ServerHandler\<close> and \<^verbatim>\<open>ClientWorker\<close> of \<^verbatim>\<open>src/tcp/socks_tcp_worker.{hpp,cpp}\<close>.
    \<^item> \<open>Tcp_Server\<close>: \<^verbatim>\<open>Server::serve\<close> and \<^verbatim>\<open>cleanup\<close> of \<^verbatim>\<open>src/tcp/socks_tcp.cpp\<close>.
    \<^item> \<open>Tcp_Threads\<close>, \<open>Tcp_System\<close>: the same two programs as threads: the steps of a worker, and the step
      relation of the server, all its workers and the signals, in any interleaving; \<open>Tcp_Atomicity\<close>: the same
      with the calls inside a worker's iteration as steps of their own.
    \<^item> \<open>Http_Request\<close>, \<open>Http_Handler\<close>: \<^verbatim>\<open>RequestInfo\<close>, \<^verbatim>\<open>HttpConnection\<close> and the HTTP handlers of
      \<^verbatim>\<open>src/http/socks_http_handler.{hpp,cpp}\<close>, with the handler of \<^verbatim>\<open>examples/http_simple\<close>.
    \<^item> \<open>Ws_Handler\<close>: \<^verbatim>\<open>src/http/socks_ws_handler.{hpp,cpp}\<close> and the handler of \<^verbatim>\<open>examples/ws_echo\<close>.
    \<^item> \<open>Http_States\<close>: the three states of \<^verbatim>\<open>src/http/socks_http_states.{hpp,cpp}\<close> and
      \<^verbatim>\<open>socks_http_states_ws.{hpp,cpp}\<close>, and \<^verbatim>\<open>TcpServerHandler\<close> of \<^verbatim>\<open>src/http/socks_http.cpp\<close>.
    \<^item> \<open>Http_Sessions\<close>, \<open>Ws_Sessions\<close>: whole connections, from the first segment to the end of the
      worker's thread.
    \<^item> \<open>Http_Phase_Spec\<close>: the specification of an HTTP connection by its phases, collecting, answered, refused,
      upgraded, parted, and the order in which they follow each other; \<open>Http_Phases\<close>: the proof that the
      machine under a worker's thread refines it.
    \<^item> \<open>Http_Server\<close>: \<^verbatim>\<open>Http::Server::serve\<close> with its options and the shape of the \<^verbatim>\<open>main\<close> functions.
    \<^item> \<open>Http_System\<close>, \<open>Echo_System\<close>: the HTTP servers and the TCP echo server with all their connections.
    \<^item> \<open>Tcp_Interleaving\<close>: two threads in \<^verbatim>\<open>Connection::send\<close> at once.
    \<^item> \<open>Tcp_Echo\<close>, \<open>Push_Servers\<close>, \<open>Ws_Push\<close>: \<^verbatim>\<open>examples/tcp_echo\<close>, \<^verbatim>\<open>tcp_push\<close> and \<^verbatim>\<open>ws_push\<close>; \<open>Push_System\<close>,
      \<open>Ws_Push_System\<close>: the two push servers with all their threads; \<open>Push_Failure\<close>: what a failing worker does to
      the first; \<open>Ws_Push_Shutdown\<close>: the end of the second.
    \<^item> \<open>Example_Mains\<close>: the \<^verbatim>\<open>main\<close> functions of all examples.
    \<^item> \<open>Unit_Tests\<close>: the test cases of \<^verbatim>\<open>test/test_byteorder.cpp\<close> and \<^verbatim>\<open>test_ws_frame.cpp\<close> on the model.

  \<^bold>\<open>State.\<close> A connection's state is the record \<open>io\<close> of \<open>Posix_Socket\<close>: \<^verbatim>\<open>Connection::closed\<close>, the
  descriptor, the signal status its thread sees, the log, the bytes the kernel has taken for the
  peer (\<open>io_wire\<close>) and the application's own state (\<open>io_user\<close>). The HTTP machine adds \<open>http_fsm\<close>
  (\<^verbatim>\<open>curState\<close>, \<^verbatim>\<open>nextState\<close>, \<^verbatim>\<open>requestInfo_\<close>), a worker adds \<^verbatim>\<open>_isActive\<close>. The server's thread has
  the record \<open>server\<close>: the list of workers, the threads started, joined and ended, and the trace of
  its system calls. The push examples have a map from addresses to connections, because they share
  pointers.

  \<^bold>\<open>The environment.\<close> The kernel, the signals and the peer are scripts of answers in the state, one
  answer per call; nothing is assumed of them but what the calls promise (at most the bytes given
  are taken, at most the buffer is filled). SHA-1, Base64, the success of an allocation and the
  contents of the file system are parameters. A run that has used up a script is \<open>Starved\<close>, which is
  neither a normal result nor an exception; a theorem that says that code returns says \<open>Inr\<close>.

  \<^bold>\<open>Errors.\<close> \<open>Throw\<close> is a C++ exception, caught where the code catches it and nowhere else; an application's
  handlers may throw any of \<open>exn\<close>, also those of \<^verbatim>\<open>socks_tcp_error.hpp\<close> (\<open>Framework\<close>). \<open>UB\<close> is an
  access outside an array or through a dangling pointer; nothing catches it, and no claim is made
  about what would follow. \<open>Terminate\<close> is \<^verbatim>\<open>std::terminate\<close>.

  \<^bold>\<open>Interfaces.\<close> The abstract classes of the code are records of their virtual functions, and a call through a
  base class selects the record's field: \<open>socket\<close>, \<open>listen_socket\<close> and \<open>sys_context\<close> (\<^verbatim>\<open>Socket\<close>,
  \<^verbatim>\<open>ListenSocket\<close> and \<^verbatim>\<open>Context\<close> of \<^verbatim>\<open>src/tcp/socks_system_context.hpp\<close>, with the implementations \<open>SocketImpl\<close>,
  \<open>ListenSocketImpl\<close>, \<open>ContextImpl\<close>), \<open>server_handler\<close>, \<open>ws_handler\<close>; classes with one virtual function are
  functions (\<open>http_handler\<close>, the factories). Where one component relies on another there is a locale, with the promises as
  assumptions, and an interpretation on the model's definitions:

    \<^item> \<open>stream_socket\<close>: what \<^verbatim>\<open>send\<close> relies on from \<^verbatim>\<open>Socket::write\<close>; \<open>connection\<close>: what the HTTP and
      WebSocket layers rely on from \<^verbatim>\<open>Connection\<close> (\<open>Tcp_Connection\<close>: \<open>posix\<close>, \<open>tcp\<close>).
    \<^item> \<open>callbacks_keep\<close>, extended by \<open>server_callbacks\<close>: what the worker relies on from a
      \<^verbatim>\<open>ServerHandler\<close> (\<open>Tcp_Echo\<close>: \<open>echo\<close>; the HTTP machine, for any application, through
      \<open>http_application\<close>).
    \<^item> \<open>conversation\<close>: a handler that answers a list of segments (the echo server, a request in
      segments, a WebSocket session).
    \<^item> \<open>polite_ws_handler\<close>, \<open>http_application\<close>: what the HTTP machine relies on from the application
      (\<open>files\<close>, \<open>ws_echo\<close>, \<open>simple\<close>, \<open>ws_push\<close>).
    \<^item> \<open>server_invariant\<close>: a predicate every step of the accept loop keeps (\<open>bounded\<close>, \<open>made\<close>).

  \<^bold>\<open>What the properties show.\<close>

    \<^item> Data: byte order and frames are read back as written; \<open>decode\<close> computes what RFC 6455 says on
      every client frame, and the exact inputs on which it leaves the buffer are characterised;
      requests are parsed back as printed, and the outcome of the parser is given for every input.
    \<^item> Connections: \<^verbatim>\<open>send\<close> delivers the whole buffer on any kernel that makes progress, and always a
      front part of it unless a write is interrupted, in which case it repeats a byte.
    \<^item> Workers: the descriptor is closed and the thread inactive at the end, except after an
      exception. The invariant of the HTTP machine holds whatever the kernel does.
    \<^item> Sessions: a GET of a file, an echo over TCP and a WebSocket session are followed from the
      first byte to the end of the thread, for any segmentation and any pauses, and whoever else is connected;
      segmentation does not change how a request is handled.
    \<^item> The machine as a whole, for every behaviour of the client and the kernel: it refines the phases of a connection,
      and nothing is sent to a client before the first complete request in what it has sent, nor unless
      that request parses.
    \<^item> Server: every thread joined exactly once, admission, shutdown, the way errors end the program.
    \<^item> Concurrency: a worker's steps are its run; a run in which the calls of an iteration are interleaved with
      everything else comes to the states of a run of whole iterations; every run of the interleaved system is a run of
      \<^verbatim>\<open>serve\<close> as \<open>Tcp_Server\<close> has it, for the environment its workers make; what a connection does is
      what it does alone; every thread that runs is in the list or about to be joined, never more
      than \<^verbatim>\<open>maxClients\<close>; after a signal the system cannot go on for ever and cannot deadlock. Two sends on one connection lose nothing but can tear
      messages.
    \<^item> Push servers: while no worker fails, the manager holds exactly the connections that are between
      their callbacks (over WebSocket, those that have been upgraded) and no pointer dangles; after one has failed, in any run, its connection is destroyed with the next
      client and the pusher gets no further than that pointer; shutdown is bounded and
      free of deadlock; without a signal \<^verbatim>\<open>main\<close> does not return.
    \<^item> Limits of the code, stated as theorems about what it does: second frames in a segment,
      control frames between fragments, empty fragments, pings, oversize echoes, long requests and
      paths, lost push connections.

  \<^bold>\<open>Bounds and fuel.\<close> \<open>send_loop\<close> has one unit of fuel per write, started at one more than the number
  of the kernel's answers, each of which a write uses up: more fuel changes nothing
  (\<open>send_loop_fuel\<close>). \<open>retry_call\<close> is bounded in the same way. The loops of the worker, the server
  and the pusher recurse on the list of what the environment does before each check of the quit
  condition, which is as long as the run that is looked at; theorems about them hold for every
  such list. All other loops terminate by a measure. Sizes are those of the code: 4096-byte
  segments and request buffer, 1024 characters of path, \<open>64 word\<close> for \<^verbatim>\<open>size_t\<close>.

  The systems of threads need no bound: their shutdown properties give one, five steps for each client
  that can be held and two more (\<open>system_shutdown\<close>), four for each worker, one for each registered
  connection and four more (\<open>push_shutdown\<close>, \<open>ws_push_shutdown\<close>).

  \<^bold>\<open>Not modelled.\<close> Interleavings inside a callback, inside an iteration of \<^verbatim>\<open>serve\<close> and inside a step of the push
  servers, except those of two sends (\<open>Tcp_Interleaving\<close>); inside an iteration of \<^verbatim>\<open>loop\<close> they are, in
  \<open>Tcp_Atomicity\<close>. A worker touches only its own connection, and what it shares with the server's thread
  is one atomic flag and the quit condition. The system tests in Python
  and the build files are left out. The texts of log lines and \<^verbatim>\<open>strerror\<close> are kept as values, not as
  printed lines.
\<close>

end
